(* ===== verification/Prelude.thy ===== *)
theory Prelude
  imports Main "HOL-Library.Word" "HOL-Library.List_Lexorder" "HOL-Library.Char_ord"
begin

text \<open>
  Shared vocabulary of the development: the machine integers of the Rust sources, results
  with an error value, saturating arithmetic, byte encodings of integers, and the ordered
  maps of the standard library (\<open>BTreeMap\<close>) as sorted association lists.

  The collections below gather the facts the component proofs use again and again:
  \<open>bytes_simps\<close> for the integer codecs, \<open>btree_simps\<close> for the ordered maps.
\<close>

unbundle bit_operations_syntax

named_theorems bytes_simps \<open>round trips and lengths of the integer byte encodings\<close>
named_theorems btree_simps \<open>lookups in ordered maps\<close>

section \<open>Machine integers\<close>

type_synonym u8 = "8 word"
type_synonym u16 = "16 word"
type_synonym u32 = "32 word"
type_synonym u64 = "64 word"

text \<open>
  \<open>i64\<close> values are written as \<open>u64\<close> words read through \<^const>\<open>sint\<close>;
  \<open>usize\<close> values that index into vectors are natural numbers.
\<close>

definition saturating_add :: "'a::len word \<Rightarrow> 'a word \<Rightarrow> 'a word" where
  "saturating_add a b = (if a \<le> a + b then a + b else - 1)"

definition saturating_sub :: "'a::len word \<Rightarrow> 'a word \<Rightarrow> 'a word" where
  "saturating_sub a b = (if b \<le> a then a - b else 0)"

definition saturating_mul :: "'a::len word \<Rightarrow> 'a word \<Rightarrow> 'a word" where
  "saturating_mul a b =
     (if unat a * unat b < 2 ^ LENGTH('a) then a * b else - 1)"

lemma unat_less_pow: "unat w < 2 ^ LENGTH('a)" for w :: "'a::len word"
  by (rule unsigned_less)

lemma word_add_no_wrap_iff: "a \<le> a + b \<longleftrightarrow> unat a + unat b < 2 ^ LENGTH('a)"
  for a b :: "'a::len word"
  using no_olen_add_nat by blast

lemma unat_minus_one_word: "unat (- 1 :: 'a::len word) = 2 ^ LENGTH('a) - 1"
  by (simp add: unsigned_minus_1_eq_mask mask_eq_exp_minus_1)

lemma unat_saturating_add:
  "unat (saturating_add a b) = min (unat a + unat b) (2 ^ LENGTH('a) - 1)"
  for a b :: "'a::len word"
proof (cases "unat a + unat b < 2 ^ LENGTH('a)")
  case True
  then show ?thesis
    by (auto simp: saturating_add_def word_add_no_wrap_iff unat_word_ariths)
next
  case False
  then show ?thesis
    by (auto simp: saturating_add_def word_add_no_wrap_iff unat_minus_one_word)
qed

lemma unat_saturating_sub: "unat (saturating_sub a b) = unat a - unat b"
  by (auto simp: saturating_sub_def unat_sub word_le_nat_alt)

lemma unat_saturating_mul:
  "unat (saturating_mul a b) = min (unat a * unat b) (2 ^ LENGTH('a) - 1)"
  for a b :: "'a::len word"
  by (auto simp: saturating_mul_def unat_word_ariths unat_minus_one_word)

lemma saturating_add_ge: "a \<le> saturating_add a b"
  by (auto simp: saturating_add_def word_order.extremum)

section \<open>Byte encodings of integers\<close>

text \<open>
  \<open>nat_to_le n x\<close> are the \<open>n\<close> low bytes of \<open>x\<close>, least significant first
  (\<open>to_le_bytes\<close>); the big-endian encodings are their reversals (\<open>to_be_bytes\<close>).
\<close>

fun nat_to_le :: "nat \<Rightarrow> nat \<Rightarrow> u8 list" where
  "nat_to_le 0 x = []"
| "nat_to_le (Suc n) x = of_nat (x mod 256) # nat_to_le n (x div 256)"

fun nat_of_le :: "u8 list \<Rightarrow> nat" where
  "nat_of_le [] = 0"
| "nat_of_le (b # bs) = unat b + 256 * nat_of_le bs"

definition u64_to_le_bytes :: "u64 \<Rightarrow> u8 list" where
  "u64_to_le_bytes w = nat_to_le 8 (unat w)"

definition u64_from_le_bytes :: "u8 list \<Rightarrow> u64" where
  "u64_from_le_bytes bs = of_nat (nat_of_le bs)"

definition u32_to_be_bytes :: "u32 \<Rightarrow> u8 list" where
  "u32_to_be_bytes w = rev (nat_to_le 4 (unat w))"

definition u32_from_be_bytes :: "u8 list \<Rightarrow> u32" where
  "u32_from_be_bytes bs = of_nat (nat_of_le (rev bs))"

lemma length_nat_to_le [simp, bytes_simps]: "length (nat_to_le n x) = n"
  by (induction n arbitrary: x) auto

lemma unat_of_nat_byte [simp]: "unat (of_nat (x mod 256) :: u8) = x mod 256"
  by (simp add: unat_of_nat)

lemma nat_of_le_to_le [bytes_simps]: "nat_of_le (nat_to_le n x) = x mod 256 ^ n"
proof (induction n arbitrary: x)
  case 0
  then show ?case by simp
next
  case (Suc n)
  then show ?case by (simp add: mod_mult2_eq)
qed

lemma nat_of_le_less: "nat_of_le bs < 256 ^ length bs"
proof (induction bs)
  case Nil
  then show ?case by simp
next
  case (Cons b bs)
  have "unat b < 256" using unsigned_less [of b] by simp
  with Cons show ?case by simp
qed

lemma nat_to_le_of_le [bytes_simps]: "nat_to_le (length bs) (nat_of_le bs) = bs"
proof (induction bs)
  case Nil
  then show ?case by simp
next
  case (Cons b bs)
  have "unat b < 256" using unsigned_less [of b] by simp
  then have "(unat b + 256 * nat_of_le bs) mod 256 = unat b"
    and "(unat b + 256 * nat_of_le bs) div 256 = nat_of_le bs"
    by simp_all
  with Cons show ?case by simp
qed

lemma length_u64_to_le_bytes [simp, bytes_simps]: "length (u64_to_le_bytes w) = 8"
  by (simp add: u64_to_le_bytes_def)

lemma length_u32_to_be_bytes [simp, bytes_simps]: "length (u32_to_be_bytes w) = 4"
  by (simp add: u32_to_be_bytes_def)

lemma u64_le_roundtrip [simp, bytes_simps]: "u64_from_le_bytes (u64_to_le_bytes w) = w"
proof -
  have "unat w < 256 ^ 8" using unsigned_less [of w] by simp
  then show ?thesis
    by (simp add: u64_from_le_bytes_def u64_to_le_bytes_def nat_of_le_to_le)
qed

lemma u32_be_roundtrip [simp, bytes_simps]: "u32_from_be_bytes (u32_to_be_bytes w) = w"
proof -
  have "unat w < 256 ^ 4" using unsigned_less [of w] by simp
  then show ?thesis
    by (simp add: u32_from_be_bytes_def u32_to_be_bytes_def nat_of_le_to_le)
qed

section \<open>Ordered maps\<close>

text \<open>
  A \<open>BTreeMap<K, V>\<close> is the list of its entries in ascending key order; iteration is
  a walk over that list. The locale states what the clients rely on.
\<close>

type_synonym ('k, 'v) btree = "('k \<times> 'v) list"

definition bt_wf :: "('k::linorder, 'v) btree \<Rightarrow> bool" where
  "bt_wf m = sorted_wrt (<) (map fst m)"

definition bt_get :: "('k::linorder, 'v) btree \<Rightarrow> 'k \<Rightarrow> 'v option" where
  "bt_get m k = map_of m k"

fun bt_insert :: "'k::linorder \<Rightarrow> 'v \<Rightarrow> ('k, 'v) btree \<Rightarrow> ('k, 'v) btree" where
  "bt_insert k v [] = [(k, v)]"
| "bt_insert k v ((k', v') # m) =
     (if k < k' then (k, v) # (k', v') # m
      else if k = k' then (k, v) # m
      else (k', v') # bt_insert k v m)"

definition bt_remove :: "'k::linorder \<Rightarrow> ('k, 'v) btree \<Rightarrow> ('k, 'v) btree" where
  "bt_remove k m = filter (\<lambda>p. fst p \<noteq> k) m"

definition bt_map :: "('k \<Rightarrow> 'v \<Rightarrow> 'w) \<Rightarrow> ('k, 'v) btree \<Rightarrow> ('k, 'w) btree" where
  "bt_map f m = map (\<lambda>(k, v). (k, f k v)) m"

lemma bt_get_Nil [simp, btree_simps]: "bt_get [] k = None"
  by (simp add: bt_get_def)

lemma bt_get_insert [simp, btree_simps]:
  "bt_get (bt_insert k v m) k' = (if k' = k then Some v else bt_get m k')"
  unfolding bt_get_def by (induction k v m rule: bt_insert.induct) auto

lemma bt_get_remove [simp, btree_simps]:
  "bt_get (bt_remove k m) k' = (if k' = k then None else bt_get m k')"
  unfolding bt_get_def bt_remove_def by (induction m) auto

lemma bt_get_map [simp, btree_simps]:
  "bt_get (bt_map f m) k = map_option (f k) (bt_get m k)"
  unfolding bt_get_def bt_map_def by (induction m) auto

lemma fst_set_bt_insert [simp]: "fst ` set (bt_insert k v m) = insert k (fst ` set m)"
  by (induction k v m rule: bt_insert.induct) auto

lemma bt_wf_Nil [simp]: "bt_wf []"
  by (simp add: bt_wf_def)

lemma bt_wf_Cons: "bt_wf ((k, v) # m) \<longleftrightarrow> (\<forall>k' \<in> fst ` set m. k < k') \<and> bt_wf m"
  by (auto simp: bt_wf_def)

lemma bt_wf_insert [simp, intro]: "bt_wf m \<Longrightarrow> bt_wf (bt_insert k v m)"
  by (induction k v m rule: bt_insert.induct) (force simp: bt_wf_Cons)+

lemma bt_wf_remove [simp, intro]: "bt_wf m \<Longrightarrow> bt_wf (bt_remove k m)"
  unfolding bt_remove_def by (induction m) (auto simp: bt_wf_Cons)

lemma bt_keys_map [simp]: "map fst (bt_map f m) = map fst m"
  by (induction m) (auto simp: bt_map_def)

lemma bt_wf_map [simp, intro]: "bt_wf m \<Longrightarrow> bt_wf (bt_map f m)"
  by (simp add: bt_wf_def)

lemma bt_wf_distinct: "bt_wf m \<Longrightarrow> distinct (map fst m)"
  by (simp add: bt_wf_def strict_sorted_iff)

lemma bt_get_Some_iff: "bt_wf m \<Longrightarrow> bt_get m k = Some v \<longleftrightarrow> (k, v) \<in> set m"
  by (auto simp: bt_get_def bt_wf_distinct dest: map_of_SomeD)

lemma bt_get_None_iff: "bt_get m k = None \<longleftrightarrow> k \<notin> fst ` set m"
  by (simp add: bt_get_def map_of_eq_None_iff)

lemma bt_rebuild: "bt_wf m \<Longrightarrow> map (\<lambda>k. (k, the (bt_get m k))) (map fst m) = m"
  unfolding map_map by (rule map_idI) (auto simp: bt_get_Some_iff [symmetric])

lemma bt_ext:
  assumes "bt_wf m" and "bt_wf m'" and eq: "\<And>k. bt_get m k = bt_get m' k"
  shows "m = m'"
proof -
  have "set m = set m'"
    using assms by (auto simp: set_eq_iff bt_get_Some_iff [symmetric] simp del: split_paired_All)
  then have keys: "map fst m = map fst m'"
    using assms(1,2) unfolding bt_wf_def
    by (intro strict_sorted_equal) simp_all
  have "m = map (\<lambda>k. (k, the (bt_get m k))) (map fst m)"
    by (simp only: bt_rebuild [OF assms(1)])
  also have "\<dots> = map (\<lambda>k. (k, the (bt_get m' k))) (map fst m')"
    by (simp only: keys eq)
  also have "\<dots> = m'"
    by (rule bt_rebuild [OF assms(2)])
  finally show ?thesis .
qed

locale ordered_map =
  fixes get :: "'m \<Rightarrow> 'k \<Rightarrow> 'v option"
    and put :: "'k \<Rightarrow> 'v \<Rightarrow> 'm \<Rightarrow> 'm"
    and del :: "'k \<Rightarrow> 'm \<Rightarrow> 'm"
    and wf_map :: "'m \<Rightarrow> bool"
  assumes get_put: "get (put k v m) k' = (if k' = k then Some v else get m k')"
    and get_del: "get (del k m) k' = (if k' = k then None else get m k')"
    and wf_put: "wf_map m \<Longrightarrow> wf_map (put k v m)"
    and wf_del: "wf_map m \<Longrightarrow> wf_map (del k m)"
    and map_ext: "wf_map m \<Longrightarrow> wf_map m' \<Longrightarrow> (\<And>k. get m k = get m' k) \<Longrightarrow> m = m'"
begin

lemma put_put_same: "wf_map m \<Longrightarrow> put k v (put k w m) = put k v m"
  by (rule map_ext) (simp_all add: wf_put get_put)

lemma put_put_swap: "wf_map m \<Longrightarrow> k \<noteq> l \<Longrightarrow> put k v (put l w m) = put l w (put k v m)"
  by (rule map_ext) (simp_all add: wf_put get_put)

lemma put_same: "wf_map m \<Longrightarrow> get m k = Some v \<Longrightarrow> put k v m = m"
  by (rule map_ext) (simp_all add: wf_put get_put)

lemma del_absent: "wf_map m \<Longrightarrow> get m k = None \<Longrightarrow> del k m = m"
  by (rule map_ext) (simp_all add: wf_del get_del)

lemma del_put: "wf_map m \<Longrightarrow> get m k = None \<Longrightarrow> del k (put k v m) = m"
  by (rule map_ext) (simp_all add: wf_del wf_put get_del get_put)

end

interpretation bt: ordered_map bt_get bt_insert bt_remove bt_wf
  by unfold_locales (auto intro: bt_ext)

section \<open>Whitespace\<close>

text \<open>
  Strings are byte lists in UTF-8. \<open>all_whitespace s\<close> decides \<open>s.trim().is_empty()\<close>:
  every code point of \<open>s\<close> has the Unicode property \<open>White_Space\<close>, one equation per
  length of its encoding.
\<close>

definition ws1 :: "char \<Rightarrow> bool" where
  "ws1 a = (let n = of_char a :: nat in (9 \<le> n \<and> n \<le> 13) \<or> n = 32)"

definition ws2 :: "char \<Rightarrow> char \<Rightarrow> bool" where
  "ws2 a b = (let m = of_char a :: nat; n = of_char b :: nat in
     m = 0xC2 \<and> (n = 0x85 \<or> n = 0xA0))"

definition ws3 :: "char \<Rightarrow> char \<Rightarrow> char \<Rightarrow> bool" where
  "ws3 a b c = (let l = of_char a :: nat; m = of_char b :: nat; n = of_char c :: nat in
     (l = 0xE1 \<and> m = 0x9A \<and> n = 0x80) \<or>
     (l = 0xE2 \<and> m = 0x80 \<and> ((0x80 \<le> n \<and> n \<le> 0x8A) \<or> n = 0xA8 \<or> n = 0xA9 \<or> n = 0xAF)) \<or>
     (l = 0xE2 \<and> m = 0x81 \<and> n = 0x9F) \<or>
     (l = 0xE3 \<and> m = 0x80 \<and> n = 0x80))"

fun all_whitespace :: "string \<Rightarrow> bool" where
  "all_whitespace [] = True"
| "all_whitespace [a] = ws1 a"
| "all_whitespace [a, b] = (if ws1 a then all_whitespace [b] else ws2 a b)"
| "all_whitespace (a # b # c # s) =
     (if ws1 a then all_whitespace (b # c # s)
      else if ws2 a b then all_whitespace (c # s)
      else ws3 a b c \<and> all_whitespace s)"

end
