(* ===== verification/Aho_Corasick.thy ===== *)
theory Aho_Corasick
  imports Prelude "HOL-Library.Sublist"
begin

text \<open>
  The multi-pattern matcher of \<open>ahocorasick.rs\<close>: the registry of patterns, the construction
  of the automaton (a trie of blocks with failure links, built breadth first) and the search.

  A Rust \<open>String\<close> is a list of Unicode scalar values of a type \<open>'c\<close> with their order; the
  order of \<open>BTreeMap<String, _>\<close> is then the lexicographic one. The callbacks are a record
  of functions, the calls of \<open>collect_fn\<close> are collected in the result of the search.
  States are indices into the parallel vectors; 0 is the root. The loops that follow
  failure links are partial functions: not returning, and a panic on a state that a foreign
  callback made up, is \<open>None\<close>. The theorem at the end shows that neither happens with
  the callbacks of \<open>AhoCorasick::new\<close>, and that the search then decides whether some
  registered pattern occurs in the sample.
\<close>

section \<open>State\<close>

record 'c ac_callbacks =
  mapping_fn :: "'c list \<Rightarrow> ('c list, nat) btree \<Rightarrow> nat option"
  compare_fn :: "'c list \<Rightarrow> 'c list \<Rightarrow> bool"
  split_fn :: "'c list \<Rightarrow> 'c list list"

record 'c ac =
  pattern_mapping :: "('c list, nat) btree"
  ac_patterns :: "'c list list"
  labels :: "'c list list"
  ac_next :: "('c list, nat) btree list"
  ac_back :: "nat list"
  failure :: "nat list"
  ac_output :: "nat option list"
  root_inputs :: "nat list"
  is_optimized :: bool

text \<open>\<open>pattern.split("")\<close> yields every scalar as a block, between two empty ones.\<close>

definition default_callbacks :: "'c::linorder ac_callbacks" where
  "default_callbacks =
     \<lparr>mapping_fn = (\<lambda>block m. bt_get m block), compare_fn = (=), split_fn = map (\<lambda>c. [c])\<rparr>"

definition ac_new :: "'c::linorder ac" where
  "ac_new = \<lparr>pattern_mapping = [], ac_patterns = [], labels = [[]], ac_next = [[]], ac_back = [0],
     failure = [0], ac_output = [None], root_inputs = [], is_optimized = False\<rparr>"

definition ac_add :: "'c::linorder list \<Rightarrow> 'c ac \<Rightarrow> 'c ac" where
  "ac_add pattern A =
     (if pattern \<noteq> [] \<and> bt_get (pattern_mapping A) pattern = None
      then A\<lparr>pattern_mapping := bt_insert pattern (length (pattern_mapping A)) (pattern_mapping A),
             ac_patterns := ac_patterns A @ [pattern], is_optimized := False\<rparr>
      else A)"

definition pattern_count :: "'c ac \<Rightarrow> nat" where
  "pattern_count A = length (ac_patterns A)"

section \<open>Construction\<close>

text \<open>
  The insertion of a block carries the automaton, the counter \<open>state\<close>, and
  \<open>current_state\<close>/\<open>next_state\<close>, which agree after every block.
\<close>

definition reset_automaton :: "'c ac \<Rightarrow> 'c ac" where
  "reset_automaton A = A\<lparr>labels := [[]], ac_next := [[]], ac_back := [0], failure := [0],
     ac_output := [None], root_inputs := []\<rparr>"

fun add_block :: "'c::linorder list \<Rightarrow> 'c ac \<times> nat \<times> nat \<Rightarrow> 'c ac \<times> nat \<times> nat" where
  "add_block block (A, state, current) =
     (case bt_get (ac_next A ! current) block of
        Some q \<Rightarrow> (A, state, q)
      | None \<Rightarrow>
          let index = length (labels A) in
          (A\<lparr>ac_next := (ac_next A)[current := bt_insert block index (ac_next A ! current)] @ [[]],
             labels := labels A @ [block], ac_back := ac_back A @ [current],
             failure := failure A @ [0], ac_output := ac_output A @ [None],
             root_inputs := (if current = 0 then root_inputs A @ [index] else root_inputs A)\<rparr>,
           state + 1, state))"

fun add_pattern :: "'c::linorder ac_callbacks \<Rightarrow> nat \<times> 'c list \<Rightarrow> 'c ac \<times> nat \<Rightarrow> 'c ac \<times> nat" where
  "add_pattern H (i, pattern) (A, state) =
     (let (A, state, next_state) = fold add_block (split_fn H pattern) (A, state, 0)
      in (A\<lparr>ac_output := (ac_output A)[next_state := Some i]\<rparr>, state))"

definition build_trie :: "'c::linorder ac_callbacks \<Rightarrow> 'c ac \<Rightarrow> 'c ac" where
  "build_trie H A =
     fst (fold (add_pattern H) (enumerate 0 (ac_patterns A)) (reset_automaton A, 1))"

partial_function (option) find_failure ::
    "'c::linorder ac \<Rightarrow> 'c list \<Rightarrow> nat \<Rightarrow> bool \<Rightarrow> nat option option" where
  "find_failure A label failure_of_previous break_at_last =
     (case bt_get (ac_next A ! failure_of_previous) label of
        Some q \<Rightarrow> Some (Some q)
      | None \<Rightarrow>
          if break_at_last then Some None
          else find_failure A label (failure A ! failure_of_previous)
                 (failure A ! failure_of_previous = failure_of_previous))"

declare find_failure.simps [code]

definition set_failure :: "nat \<Rightarrow> nat option \<Rightarrow> 'c ac \<Rightarrow> 'c ac" where
  "set_failure i r A =
     (case r of Some q \<Rightarrow> A\<lparr>failure := (failure A)[i := q]\<rparr> | None \<Rightarrow> A)"

partial_function (option) failure_loop :: "'c::linorder ac \<Rightarrow> nat list \<Rightarrow> 'c ac option" where
  "failure_loop A queue =
     (case queue of
        [] \<Rightarrow> Some A
      | i # rest \<Rightarrow>
          Option.bind
            (if ac_back A ! i \<noteq> 0
             then find_failure A (labels A ! i) (failure A ! (ac_back A ! i)) False
             else Some None)
            (\<lambda>r. failure_loop (set_failure i r A) (rest @ map snd (ac_next A ! i))))"

declare failure_loop.simps [code]

definition ac_optimize :: "'c::linorder ac_callbacks \<Rightarrow> 'c ac \<Rightarrow> 'c ac option" where
  "ac_optimize H A =
     map_option (\<lambda>A. A\<lparr>is_optimized := True\<rparr>) (failure_loop (build_trie H A) [0])"

section \<open>Search\<close>

partial_function (option) probe_output :: "'c ac \<Rightarrow> nat \<Rightarrow> bool option" where
  "probe_output A probe =
     (if probe = 0 then Some False
      else if \<not> probe < length (ac_output A) then None
      else if ac_output A ! probe \<noteq> None then Some True
      else probe_output A (failure A ! probe))"

declare probe_output.simps [code]

definition root_step :: "'c ac_callbacks \<Rightarrow> 'c ac \<Rightarrow> 'c list \<Rightarrow> nat" where
  "root_step H A block =
     (case find (\<lambda>q. compare_fn H block (labels A ! q)) (root_inputs A) of Some q \<Rightarrow> q | None \<Rightarrow> 0)"

definition node_step :: "'c ac_callbacks \<Rightarrow> 'c ac \<Rightarrow> 'c list \<Rightarrow> nat \<Rightarrow> nat" where
  "node_step H A block state =
     (case mapping_fn H block (ac_next A ! state) of
        Some q \<Rightarrow> q
      | None \<Rightarrow>
          (case find (\<lambda>(template, _). compare_fn H block template) (ac_next A ! state) of
             Some (_, q) \<Rightarrow> q
           | None \<Rightarrow> 0))"

partial_function (option) similar_loop ::
    "'c ac_callbacks \<Rightarrow> 'c ac \<Rightarrow> 'c list list \<Rightarrow> nat \<Rightarrow> 'c list list \<Rightarrow> (bool \<times> 'c list list) option" where
  "similar_loop H A collected state blocks =
     (case blocks of
        [] \<Rightarrow> Some (False, collected)
      | block # rest \<Rightarrow>
          if \<not> state < length (labels A) then None
          else if state \<noteq> 0 \<and> node_step H A block state = 0 then
            similar_loop H A collected (failure A ! state) blocks
          else
            let q = (if state = 0 then root_step H A block else node_step H A block state);
                collected' = (if state = 0 then collected else collected @ [block])
            in Option.bind (probe_output A q) (\<lambda>hit.
                 if hit then Some (True, collected') else similar_loop H A collected' q rest))"

declare similar_loop.simps [code]

definition ac_similar ::
    "'c ac_callbacks \<Rightarrow> 'c ac \<Rightarrow> 'c list \<Rightarrow> (bool \<times> 'c list list) option" where
  "ac_similar H A sample =
     (if \<not> is_optimized A then Some (False, []) else similar_loop H A [] 0 (split_fn H sample))"

section \<open>The trie\<close>

text \<open>
  \<open>W ! q\<close> is the word that leads from the root to state \<open>q\<close>. The contract of the trie: words
  are distinct and closed under prefixes, the transition tables are exactly the one-block
  extensions, and \<open>back\<close>, \<open>labels\<close> and \<open>root_inputs\<close> say the same.
\<close>

locale ac_tree =
  fixes A :: "'c::linorder ac" and W :: "'c list list list"
  assumes root: "0 < length W" "W ! 0 = []"
    and distinct_words: "distinct W"
    and len: "length (labels A) = length W" "length (ac_next A) = length W"
      "length (ac_back A) = length W" "length (failure A) = length W" "length (ac_output A) = length W"
    and next_wf: "\<And>q. q < length W \<Longrightarrow> bt_wf (ac_next A ! q)"
    and next_iff: "\<And>q b r. q < length W \<Longrightarrow>
      bt_get (ac_next A ! q) b = Some r \<longleftrightarrow> r < length W \<and> W ! r = W ! q @ [b]"
    and back_link: "\<And>q. 0 < q \<Longrightarrow> q < length W \<Longrightarrow>
      ac_back A ! q < q \<and> W ! q = W ! (ac_back A ! q) @ [labels A ! q]"
    and back_root: "ac_back A ! 0 = 0"
    and root_inputs_iff: "set (root_inputs A) = {q. q < length W \<and> length (W ! q) = 1}"
begin

lemma word_inj: "p < length W \<Longrightarrow> q < length W \<Longrightarrow> W ! p = W ! q \<Longrightarrow> p = q"
  using distinct_words by (simp add: nth_eq_iff_index_eq)

lemma word_Nil_iff: "q < length W \<Longrightarrow> W ! q = [] \<longleftrightarrow> q = 0"
  using word_inj [of q 0] root by auto

lemma next_None_iff: "q < length W \<Longrightarrow> bt_get (ac_next A ! q) b = None \<longleftrightarrow> W ! q @ [b] \<notin> set W"
  using next_iff [of q b] by (cases "bt_get (ac_next A ! q) b") (auto simp: in_set_conv_nth)

lemma prefix_closed:
  assumes "u @ v \<in> set W"
  shows "u \<in> set W"
  using assms
proof (induction v rule: rev_induct)
  case Nil
  then show ?case by simp
next
  case (snoc b v)
  then obtain q where q: "q < length W" "W ! q = u @ v @ [b]" by (auto simp: in_set_conv_nth)
  then have "0 < q" using root by (cases q) auto
  with back_link [OF this q(1)] q have "ac_back A ! q < length W" "W ! (ac_back A ! q) = u @ v" by auto
  then have "u @ v \<in> set W" by (metis nth_mem)
  then show ?case by (rule snoc.IH)
qed

lemma back_less: "q < length W \<Longrightarrow> ac_back A ! q < length W"
  using back_link [of q] back_root root by (cases "q = 0") auto

lemma back_root_iff: "q < length W \<Longrightarrow> ac_back A ! q \<noteq> 0 \<longleftrightarrow> 2 \<le> length (W ! q)"
proof (cases "q = 0")
  case True
  then show ?thesis using back_root root by simp
next
  case False
  assume "q < length W"
  with False back_link [of q] have *: "ac_back A ! q < length W" "W ! q = W ! (ac_back A ! q) @ [labels A ! q]"
    by auto
  then show ?thesis using word_Nil_iff [OF *(1)] by (cases "W ! (ac_back A ! q)") auto
qed

lemma children:
  assumes "q < length W"
  shows "set (map snd (ac_next A ! q)) = {r. r < length W \<and> (\<exists>b. W ! r = W ! q @ [b])}"
    and "distinct (map snd (ac_next A ! q))"
proof -
  have mem: "(b, r) \<in> set (ac_next A ! q) \<longleftrightarrow> r < length W \<and> W ! r = W ! q @ [b]" for b r
    using bt_get_Some_iff [OF next_wf [OF assms], of b r] next_iff [OF assms, of b r] by simp
  show "set (map snd (ac_next A ! q)) = {r. r < length W \<and> (\<exists>b. W ! r = W ! q @ [b])}"
    using mem by (auto simp: image_iff) force
  have "distinct (ac_next A ! q)"
    using bt_wf_distinct [OF next_wf [OF assms]] by (simp add: distinct_map)
  moreover have "inj_on snd (set (ac_next A ! q))"
    using mem by (auto intro!: inj_onI)
  ultimately show "distinct (map snd (ac_next A ! q))" by (simp add: distinct_map)
qed

end

definition links_zero :: "'c ac \<Rightarrow> bool" where
  "links_zero A = (\<forall>f \<in> set (failure A). f = 0)"

lemma reset_tree: "ac_tree (reset_automaton A) [[]]" "links_zero (reset_automaton A)"
  by (unfold_locales) (auto simp: reset_automaton_def links_zero_def)

text \<open>The part of the automaton the construction of the trie must not touch.\<close>

definition same_registry :: "'c ac \<Rightarrow> 'c ac \<Rightarrow> bool" where
  "same_registry A B = (pattern_mapping B = pattern_mapping A \<and> ac_patterns B = ac_patterns A)"

definition grow :: "'c::linorder list \<Rightarrow> nat \<Rightarrow> 'c ac \<Rightarrow> 'c ac" where
  "grow b cur A =
     A\<lparr>ac_next := (ac_next A)[cur := bt_insert b (length (labels A)) (ac_next A ! cur)] @ [[]],
       labels := labels A @ [b], ac_back := ac_back A @ [cur], failure := failure A @ [0],
       ac_output := ac_output A @ [None],
       root_inputs := (if cur = 0 then root_inputs A @ [length (labels A)] else root_inputs A)\<rparr>"

lemma grow_next:
  assumes tree: "ac_tree A W" and cur: "cur < length W" and q: "q < Suc (length W)"
  shows "ac_next (grow b cur A) ! q =
    (if q = length W then [] else if q = cur then bt_insert b (length W) (ac_next A ! cur) else ac_next A ! q)"
  using assms(2,3) ac_tree.len [OF tree] by (auto simp: grow_def nth_append less_Suc_eq)

lemma grow_tree:
  assumes tree: "ac_tree A W" and cur: "cur < length W" and new: "bt_get (ac_next A ! cur) b = None"
  shows "ac_tree (grow b cur A) (W @ [W ! cur @ [b]])" (is "ac_tree ?A ?W")
proof -
  let ?n = "length W"
  have n0: "0 < ?n" and w0: "W ! 0 = []" by (rule ac_tree.root [OF tree])+
  note lens = ac_tree.len [OF tree]
  have fresh: "W ! cur @ [b] \<notin> set W" using new ac_tree.next_None_iff [OF tree cur] by simp
  have word: "?W ! q = (if q = ?n then W ! cur @ [b] else W ! q)" if "q < Suc ?n" for q
    using that by (auto simp: nth_append)
  have leaf: "W ! q \<noteq> W ! cur @ b # c" if "q < ?n" for q c
    using ac_tree.prefix_closed [OF tree, of "W ! cur @ [b]" c] fresh nth_mem [OF that] by auto
  have wf: "bt_wf (ac_next ?A ! q)" if "q < length ?W" for q
    using that ac_tree.next_wf [OF tree] cur grow_next [OF tree cur, of q b] by auto
  have iff: "bt_get (ac_next ?A ! q) c = Some r \<longleftrightarrow> r < length ?W \<and> ?W ! r = ?W ! q @ [c]"
    if q: "q < length ?W" for q c r
  proof (cases "q = ?n")
    case True
    have "\<not> (r < length ?W \<and> ?W ! r = ?W ! q @ [c])"
      using leaf [THEN not_sym, of r] word [of r] True by (auto simp: less_Suc_eq)
    then show ?thesis using grow_next [OF tree cur, of q b] True by simp
  next
    case False
    then have q: "q < ?n" using q by simp
    have old: "bt_get (ac_next A ! q) c = Some r \<longleftrightarrow> r < ?n \<and> W ! r = W ! q @ [c]" for r
      by (rule ac_tree.next_iff [OF tree q])
    have dist: "W ! q = W ! cur \<longleftrightarrow> q = cur"
      using ac_tree.word_inj [OF tree q cur] by auto
    show ?thesis
      using grow_next [OF tree cur, of q b] old [of r] q cur fresh dist word [of r] word [of q] new
      by (cases "r = ?n") (auto simp: nth_mem)
  qed
  have bk: "ac_back ?A ! q < q \<and> ?W ! q = ?W ! (ac_back ?A ! q) @ [labels ?A ! q]"
    if "0 < q" "q < length ?W" for q
    using ac_tree.back_link [OF tree that(1)] that lens cur
    by (cases "q = ?n") (auto simp: grow_def nth_append)
  have ri: "set (root_inputs ?A) = {q. q < length ?W \<and> length (?W ! q) = 1}"
  proof -
    have "W ! cur = [] \<longleftrightarrow> cur = 0" using ac_tree.word_Nil_iff [OF tree cur] by simp
    then have "q < length ?W \<and> length (?W ! q) = 1 \<longleftrightarrow>
      (q = ?n \<and> cur = 0) \<or> (q < ?n \<and> length (W ! q) = 1)" for q
      using word [of q] by (cases "q = ?n") auto
    then have "{q. q < length ?W \<and> length (?W ! q) = 1} =
      {q. (q = ?n \<and> cur = 0) \<or> q \<in> set (root_inputs A)}"
      unfolding ac_tree.root_inputs_iff [OF tree] by (simp only: mem_Collect_eq)
    then show ?thesis using lens by (auto simp: grow_def)
  qed
  show ?thesis
  proof (rule ac_tree.intro)
    show "distinct ?W" using ac_tree.distinct_words [OF tree] fresh by simp
    show "ac_back ?A ! 0 = 0" using ac_tree.back_root [OF tree] lens n0 by (simp add: grow_def nth_append)
    show "0 < length ?W" "?W ! 0 = []" using n0 w0 by (simp_all add: nth_append)
    show "length (labels ?A) = length ?W" "length (ac_next ?A) = length ?W" "length (ac_back ?A) = length ?W"
      "length (failure ?A) = length ?W" "length (ac_output ?A) = length ?W"
      using lens by (simp_all add: grow_def)
    show "bt_wf (ac_next ?A ! q)" if "q < length ?W" for q using that by (rule wf)
    show "bt_get (ac_next ?A ! q) c = Some r \<longleftrightarrow> r < length ?W \<and> ?W ! r = ?W ! q @ [c]"
      if "q < length ?W" for q c r using that by (rule iff)
    show "ac_back ?A ! q < q \<and> ?W ! q = ?W ! (ac_back ?A ! q) @ [labels ?A ! q]"
      if "0 < q" "q < length ?W" for q using that by (rule bk)
    show "set (root_inputs ?A) = {q. q < length ?W \<and> length (?W ! q) = 1}" by (rule ri)
  qed
qed

lemma add_block_tree:
  assumes tree: "ac_tree A W" and cur: "cur < length W" and zero: "links_zero A"
    and step: "add_block b (A, length W, cur) = (A', st', cur')"
  obtains V where "ac_tree A' (W @ V)" "st' = length (W @ V)" "cur' < length (W @ V)"
    "(W @ V) ! cur' = W ! cur @ [b]" "links_zero A'" "same_registry A A'"
    "ac_output A' = ac_output A @ map (\<lambda>_. None) V"
proof (cases "bt_get (ac_next A ! cur) b")
  case (Some q)
  then have "A' = A" "st' = length W" "cur' = q" using step by auto
  moreover have "q < length W" "W ! q = W ! cur @ [b]"
    using ac_tree.next_iff [OF tree cur] Some by auto
  ultimately show ?thesis using that [of "[]"] tree zero by (auto simp: same_registry_def)
next
  case None
  then have "A' = grow b cur A" "st' = Suc (length W)" "cur' = length W"
    using step by (auto simp: grow_def Let_def)
  then show ?thesis
    using that [of "[W ! cur @ [b]]"] grow_tree [OF tree cur None] zero
    by (auto simp: grow_def same_registry_def links_zero_def)
qed

lemma add_blocks_tree:
  assumes "ac_tree A W" "cur < length W" "links_zero A"
    and "fold add_block bs (A, length W, cur) = (A', st', cur')"
  shows "\<exists>V. ac_tree A' (W @ V) \<and> st' = length (W @ V) \<and> cur' < length (W @ V) \<and>
    (W @ V) ! cur' = W ! cur @ bs \<and> links_zero A' \<and> same_registry A A' \<and>
    ac_output A' = ac_output A @ map (\<lambda>_. None) V"
  using assms
proof (induction bs arbitrary: A W cur)
  case Nil
  then show ?case by (auto simp: same_registry_def intro!: exI [of _ "[]"])
next
  case (Cons b bs)
  obtain A1 st1 c1 where one: "add_block b (A, length W, cur) = (A1, st1, c1)"
    by (cases "add_block b (A, length W, cur)") auto
  obtain V where V: "ac_tree A1 (W @ V)" "st1 = length (W @ V)" "c1 < length (W @ V)"
    "(W @ V) ! c1 = W ! cur @ [b]" "links_zero A1" "same_registry A A1"
    "ac_output A1 = ac_output A @ map (\<lambda>_. None) V"
    by (rule add_block_tree [OF Cons.prems(1-3) one])
  have "fold add_block bs (A1, length (W @ V), c1) = (A', st', cur')"
    using Cons.prems(4) one V(2) by simp
  from Cons.IH [OF V(1,3,5) this] obtain V2 where
    "ac_tree A' ((W @ V) @ V2)" "st' = length ((W @ V) @ V2)" "cur' < length ((W @ V) @ V2)"
    "((W @ V) @ V2) ! cur' = (W @ V) ! c1 @ bs" "links_zero A'" "same_registry A1 A'"
    "ac_output A' = ac_output A1 @ map (\<lambda>_. None) V2" by blast
  then show ?case using V(4,6,7)
    by (intro exI [of _ "V @ V2"]) (simp add: same_registry_def)
qed

text \<open>The outputs mark exactly the words of the patterns inserted so far.\<close>

definition marks :: "'c ac \<Rightarrow> 'c list list list \<Rightarrow> 'c list list set \<Rightarrow> bool" where
  "marks A W P = (P \<subseteq> set W \<and> (\<forall>q < length W. (ac_output A ! q \<noteq> None) = (W ! q \<in> P)))"

lemma ac_tree_cong:
  assumes "ac_tree A W" "labels B = labels A" "ac_next B = ac_next A" "ac_back B = ac_back A"
    "root_inputs B = root_inputs A" "length (failure B) = length W" "length (ac_output B) = length W"
  shows "ac_tree B W"
  using assms unfolding ac_tree_def by simp

lemma add_pattern_tree:
  assumes tree: "ac_tree A W" and zero: "links_zero A" and m: "marks A W P"
    and step: "add_pattern H (i, p) (A, length W) = (A', st')"
  shows "\<exists>W'. ac_tree A' W' \<and> st' = length W' \<and> links_zero A' \<and> same_registry A A' \<and>
    marks A' W' (insert (split_fn H p) P)"
proof -
  obtain B st c where B: "fold add_block (split_fn H p) (A, length W, 0) = (B, st, c)"
    by (cases "fold add_block (split_fn H p) (A, length W, 0)") auto
  from add_blocks_tree [OF tree ac_tree.root(1) [OF tree] zero B] ac_tree.root(2) [OF tree]
  obtain V where V: "ac_tree B (W @ V)" "st = length (W @ V)" "c < length (W @ V)"
    "(W @ V) ! c = split_fn H p" "links_zero B" "same_registry A B"
    "ac_output B = ac_output A @ map (\<lambda>_. None) V" by auto
  have A': "A' = B\<lparr>ac_output := (ac_output B)[c := Some i]\<rparr>" "st' = st"
    using step B by auto
  have "ac_tree A' (W @ V)"
    by (rule ac_tree_cong [OF V(1)]) (use ac_tree.len [OF V(1)] A' in simp_all)
  moreover have "marks A' (W @ V) (insert (split_fn H p) P)"
  proof -
    have new: "W ! q \<notin> set V" if "q < length W" for q
      using ac_tree.distinct_words [OF V(1)] nth_mem [OF that] by auto
    have outs: "(ac_output B ! q \<noteq> None) = ((W @ V) ! q \<in> P)" if "q < length (W @ V)" for q
    proof (cases "q < length W")
      case True
      then show ?thesis
        using m V(7) ac_tree.len(5) [OF tree] by (simp add: marks_def nth_append)
    next
      case False
      then have "(W @ V) ! q \<in> set V" using that by (simp add: nth_append)
      then have "(W @ V) ! q \<notin> P"
        using m ac_tree.distinct_words [OF V(1)] by (auto simp: marks_def)
      then show ?thesis
        using False that V(7) ac_tree.len(5) [OF tree] by (simp add: nth_append)
    qed
    have same: "(W @ V) ! q = split_fn H p \<longleftrightarrow> q = c" if "q < length (W @ V)" for q
      using ac_tree.word_inj [OF V(1) that V(3)] V(4) by auto
    have "split_fn H p \<in> set (W @ V)" using nth_mem [OF V(3)] V(4) by simp
    moreover have "(ac_output A' ! q \<noteq> None) = ((W @ V) ! q \<in> insert (split_fn H p) P)"
      if "q < length (W @ V)" for q
      using outs [OF that] same [OF that] ac_tree.len(5) [OF V(1)] that A' by (auto simp: nth_list_update)
    ultimately show ?thesis using m by (auto simp: marks_def)
  qed
  ultimately show ?thesis
    using V A' by (intro exI [of _ "W @ V"]) (simp add: links_zero_def same_registry_def)
qed

lemma add_patterns_tree:
  assumes "ac_tree A W" "links_zero A" "marks A W P"
    and "fold (add_pattern H) ips (A, length W) = (A', st')"
  shows "\<exists>W'. ac_tree A' W' \<and> links_zero A' \<and> same_registry A A' \<and>
    marks A' W' (P \<union> split_fn H ` snd ` set ips)"
  using assms
proof (induction ips arbitrary: A W P)
  case Nil
  then show ?case by (auto simp: same_registry_def)
next
  case (Cons ip ips)
  obtain i p where ip: "ip = (i, p)" by (cases ip)
  obtain A1 st1 where one: "add_pattern H (i, p) (A, length W) = (A1, st1)"
    by (cases "add_pattern H (i, p) (A, length W)") auto
  from add_pattern_tree [OF Cons.prems(1-3) one] obtain W1 where
    W1: "ac_tree A1 W1" "st1 = length W1" "links_zero A1" "same_registry A A1"
      "marks A1 W1 (insert (split_fn H p) P)" by blast
  have "fold (add_pattern H) ips (A1, length W1) = (A', st')"
    using Cons.prems(4) one W1(2) ip by simp
  from Cons.IH [OF W1(1,3,5) this] W1(4) ip show ?case
    by (auto simp: same_registry_def)
qed

lemma build_trie_tree:
  "\<exists>W. ac_tree (build_trie H A) W \<and> links_zero (build_trie H A) \<and> same_registry A (build_trie H A) \<and>
     marks (build_trie H A) W (split_fn H ` set (ac_patterns A))"
proof -
  obtain A' st' where A': "fold (add_pattern H) (enumerate 0 (ac_patterns A)) (reset_automaton A, 1) = (A', st')"
    by (cases "fold (add_pattern H) (enumerate 0 (ac_patterns A)) (reset_automaton A, 1)") auto
  have none: "marks (reset_automaton A) [[]] {}" by (simp add: marks_def reset_automaton_def)
  have reg: "same_registry (reset_automaton A) B \<Longrightarrow> same_registry A B" for B
    by (simp add: same_registry_def reset_automaton_def)
  have "snd ` set (enumerate 0 (ac_patterns A)) = set (ac_patterns A)"
    by (metis map_snd_enumerate set_map)
  with add_patterns_tree [OF reset_tree none, of H "enumerate 0 (ac_patterns A)" A' st'] A' reg show ?thesis
    by (auto simp: build_trie_def)
qed

section \<open>Failure links\<close>

text \<open>
  The failure link of a state leads to the longest proper suffix of its word that is a word
  of the trie.
\<close>

definition longest_border :: "'b list list \<Rightarrow> 'b list \<Rightarrow> 'b list \<Rightarrow> bool" where
  "longest_border W w u =
     (u \<in> set W \<and> strict_suffix u w \<and> (\<forall>v \<in> set W. strict_suffix v w \<longrightarrow> length v \<le> length u))"

definition fail_ok :: "'c ac \<Rightarrow> 'c list list list \<Rightarrow> nat \<Rightarrow> bool" where
  "fail_ok A W q =
     (failure A ! q < length W \<and>
      (if q = 0 then failure A ! q = 0 else longest_border W (W ! q) (W ! (failure A ! q))))"

lemma longest_border_suffix:
  "longest_border W w u \<Longrightarrow> v \<in> set W \<Longrightarrow> strict_suffix v w \<Longrightarrow> suffix v u"
  unfolding longest_border_def
  by (metis strict_suffix_def suffix_length_suffix)

lemma suffix_border_cases:
  "longest_border W w u \<Longrightarrow> v \<in> set W \<Longrightarrow> suffix v w \<longleftrightarrow> v = w \<or> suffix v u"
  using longest_border_suffix [of W w u v]
  by (auto simp: longest_border_def strict_suffix_def intro: suffix_order.trans)

text \<open>
  What the search for a failure link returns from state \<open>f\<close>: the longest suffix of the word
  of \<open>f\<close> that can be extended by the label.
\<close>

definition longest_extension :: "'b list list \<Rightarrow> 'b list \<Rightarrow> 'b \<Rightarrow> 'b list \<Rightarrow> bool" where
  "longest_extension W w b u =
     (u @ [b] \<in> set W \<and> suffix u w \<and> (\<forall>v. v @ [b] \<in> set W \<longrightarrow> suffix v w \<longrightarrow> length v \<le> length u))"

context ac_tree
begin

lemma border_extension:
  assumes border: "longest_border W w u" and stuck: "w @ [b] \<notin> set W"
  shows "longest_extension W w b v \<longleftrightarrow> longest_extension W u b v"
    and "(\<exists>v. v @ [b] \<in> set W \<and> suffix v w) \<longleftrightarrow> (\<exists>v. v @ [b] \<in> set W \<and> suffix v u)"
proof -
  have *: "v @ [b] \<in> set W \<Longrightarrow> suffix v w \<longleftrightarrow> suffix v u" for v
    using suffix_border_cases [OF border, of v] prefix_closed [of v "[b]"] stuck by auto
  show "longest_extension W w b v \<longleftrightarrow> longest_extension W u b v"
    using * by (auto simp: longest_extension_def)
  show "(\<exists>v. v @ [b] \<in> set W \<and> suffix v w) \<longleftrightarrow> (\<exists>v. v @ [b] \<in> set W \<and> suffix v u)"
    using * by auto
qed

lemma find_failure_correct:
  assumes ok: "\<And>p. p < length W \<Longrightarrow> length (W ! p) \<le> m \<Longrightarrow> fail_ok A W p"
    and f: "f < length W" "length (W ! f) \<le> m"
  shows "\<exists>r. find_failure A b f False = Some r \<and>
    (case r of None \<Rightarrow> \<not> (\<exists>v. v @ [b] \<in> set W \<and> suffix v (W ! f))
     | Some q \<Rightarrow> q < length W \<and> (\<exists>u. W ! q = u @ [b] \<and> longest_extension W (W ! f) b u))"
  using f
proof (induction "length (W ! f)" arbitrary: f rule: less_induct)
  case less
  note [simp] = find_failure.simps [of A b]
  show ?case
  proof (cases "bt_get (ac_next A ! f) b")
    case (Some q)
    then have q: "q < length W" "W ! q = W ! f @ [b]" using next_iff [OF less.prems(1)] by auto
    then have "longest_extension W (W ! f) b (W ! f)"
      using nth_mem [OF q(1)] by (auto simp: longest_extension_def dest: suffix_length_le)
    then show ?thesis using Some q by auto
  next
    case None
    then have stuck: "W ! f @ [b] \<notin> set W" using next_None_iff [OF less.prems(1)] by simp
    have fail: "fail_ok A W f" by (rule ok [OF less.prems])
    show ?thesis
    proof (cases "f = 0")
      case True
      then have "failure A ! 0 = 0" using fail by (simp add: fail_ok_def)
      then show ?thesis using None True stuck root by auto
    next
      case False
      let ?t = "failure A ! f"
      have t: "?t < length W" and border: "longest_border W (W ! f) (W ! ?t)"
        using fail False by (auto simp: fail_ok_def)
      have lt: "length (W ! ?t) < length (W ! f)"
        using border by (auto simp: longest_border_def strict_suffix_def suffix_def)
      then have ne: "?t \<noteq> f" by auto
      have step: "find_failure A b f False = find_failure A b ?t False" using None ne by simp
      from less.hyps [OF lt t] lt less.prems(2) show ?thesis
        unfolding step border_extension [OF border stuck] by (simp del: find_failure.simps)
    qed
  qed
qed

text \<open>With correct links for all shorter words, one step of the loop finds the link of a state.\<close>

lemma failure_step:
  assumes ok: "\<And>p. p < length W \<Longrightarrow> length (W ! p) < length (W ! i) \<Longrightarrow> fail_ok A W p"
    and i: "i < length W" and zero: "failure A ! i = 0"
  obtains r where
    "(if ac_back A ! i \<noteq> 0 then find_failure A (labels A ! i) (failure A ! (ac_back A ! i)) False
      else Some None) = Some r"
    "fail_ok (set_failure i r A) W i"
proof (cases "2 \<le> length (W ! i)")
  case False
  have "fail_ok A W i"
  proof (cases "i = 0")
    case True
    then show ?thesis using zero root by (simp add: fail_ok_def)
  next
    case i0: False
    with word_Nil_iff [OF i] have "length (W ! i) \<noteq> 0" by simp
    with False have "length (W ! i) = 1" by linarith
    then have "strict_suffix u (W ! i) \<longleftrightarrow> u = []" for u
      by (cases "W ! i") (auto simp: strict_suffix_def suffix_Cons)
    then show ?thesis using i0 zero root nth_mem [OF root(1)]
      by (auto simp: fail_ok_def longest_border_def)
  qed
  then show ?thesis using that [of None] False back_root_iff [OF i] by (simp add: set_failure_def)
next
  case True
  let ?p = "ac_back A ! i" and ?b = "labels A ! i"
  have i0: "0 < i" using True root by (cases i) auto
  have p: "?p < length W" "W ! i = W ! ?p @ [?b]" using back_link [OF i0 i] i by auto
  have p0: "?p \<noteq> 0" using back_root_iff [OF i] True by simp
  have fp: "fail_ok A W ?p" using ok [OF p(1)] p(2) by simp
  let ?f = "failure A ! ?p"
  have f: "?f < length W" and border: "longest_border W (W ! ?p) (W ! ?f)"
    using fp p0 by (auto simp: fail_ok_def)
  have lt: "length (W ! ?f) < length (W ! ?p)"
    using border by (auto simp: longest_border_def strict_suffix_def suffix_def)
  from find_failure_correct [OF ok f, of "length (W ! ?f)" ?b] lt p(2)
  obtain r where r: "find_failure A ?b ?f False = Some r"
    "case r of None \<Rightarrow> \<not> (\<exists>v. v @ [?b] \<in> set W \<and> suffix v (W ! ?f))
     | Some q \<Rightarrow> q < length W \<and> (\<exists>u. W ! q = u @ [?b] \<and> longest_extension W (W ! ?f) ?b u)" by auto
  have strict: "strict_suffix v (W ! i) \<longleftrightarrow> v = [] \<or> (\<exists>u. v = u @ [?b] \<and> suffix u (W ! ?f))"
    if v: "v \<in> set W" for v
  proof (cases v rule: rev_cases)
    case Nil
    then show ?thesis using p(2) by (auto simp: strict_suffix_def)
  next
    case (snoc u c)
    then have "u \<in> set W" using prefix_closed [of u "[c]"] v by simp
    then have "strict_suffix u (W ! ?p) \<longleftrightarrow> suffix u (W ! ?f)"
      using suffix_border_cases [OF border, of u] lt border
      by (auto simp: strict_suffix_def dest: suffix_length_le longest_border_suffix)
    then show ?thesis using snoc p(2) by (auto simp: strict_suffix_def)
  qed
  have "fail_ok (set_failure i r A) W i"
  proof (cases r)
    case None
    then have "strict_suffix v (W ! i) \<longrightarrow> v = []" if "v \<in> set W" for v
      using strict [OF that] r(2) that by auto
    then show ?thesis
      using None zero root i0 p(2) nth_mem [OF root(1)]
      by (auto simp: fail_ok_def set_failure_def longest_border_def strict_suffix_def)
  next
    case (Some q)
    then obtain u where q: "q < length W" "W ! q = u @ [?b]" "longest_extension W (W ! ?f) ?b u"
      using r(2) by auto
    have "longest_border W (W ! i) (u @ [?b])"
      using q(3) strict by (auto simp: longest_border_def longest_extension_def)
    then show ?thesis using q(1,2) Some i0 i len by (simp add: fail_ok_def set_failure_def)
  qed
  then show ?thesis using that [of r] r(1) p0 by simp
qed

end

text \<open>
  The breadth-first loop. \<open>D\<close> are the states already processed; the queue holds states in
  order of depth, at most one level apart, and every other state hangs below one of them.
\<close>

definition bfs_inv :: "'c::linorder ac \<Rightarrow> 'c list list list \<Rightarrow> nat set \<Rightarrow> nat list \<Rightarrow> bool" where
  "bfs_inv A W D queue =
     (ac_tree A W \<and> D \<subseteq> {..<length W} \<and> set queue \<subseteq> {..<length W} - D \<and> distinct queue \<and>
      sorted (map (\<lambda>q. length (W ! q)) queue) \<and>
      (\<forall>q \<in> set queue. length (W ! q) \<le> Suc (length (W ! hd queue))) \<and>
      (\<forall>q < length W. q \<in> D \<or> (\<exists>p \<in> set queue. prefix (W ! p) (W ! q))) \<and>
      (\<forall>q \<in> D \<union> set queue. q \<noteq> 0 \<longrightarrow> ac_back A ! q \<in> D) \<and>
      (\<forall>q \<in> D. fail_ok A W q) \<and> (\<forall>q < length W. q \<notin> D \<longrightarrow> failure A ! q = 0))"

lemma set_failure_simps [simp]:
  "labels (set_failure i r A) = labels A" "ac_next (set_failure i r A) = ac_next A"
  "ac_back (set_failure i r A) = ac_back A" "ac_output (set_failure i r A) = ac_output A"
  "root_inputs (set_failure i r A) = root_inputs A" "length (failure (set_failure i r A)) = length (failure A)"
  "pattern_mapping (set_failure i r A) = pattern_mapping A" "ac_patterns (set_failure i r A) = ac_patterns A"
  "q \<noteq> i \<Longrightarrow> failure (set_failure i r A) ! q = failure A ! q"
  by (auto simp: set_failure_def split: option.splits)

lemma set_failure_tree: "ac_tree A W \<Longrightarrow> ac_tree (set_failure i r A) W"
  by (rule ac_tree_cong) (simp_all add: ac_tree.len)

lemma bfs_shallow_done:
  assumes inv: "bfs_inv A W D (i # rest)" and q: "q < length W" "length (W ! q) < length (W ! i)"
  shows "q \<in> D"
proof (rule ccontr)
  assume "q \<notin> D"
  moreover have "\<forall>q < length W. q \<in> D \<or> (\<exists>p \<in> set (i # rest). prefix (W ! p) (W ! q))"
    using inv unfolding bfs_inv_def by blast
  ultimately obtain p where "p \<in> set (i # rest)" "prefix (W ! p) (W ! q)"
    using q(1) by blast
  moreover from this(1) inv have "length (W ! i) \<le> length (W ! p)" by (auto simp: bfs_inv_def)
  ultimately show False using q prefix_length_le by fastforce
qed

lemma bfs_queue_step:
  assumes inv: "bfs_inv A W D (i # rest)" and kids: "kids = map snd (ac_next A ! i)"
  shows "set (rest @ kids) \<subseteq> {..<length W} - insert i D" "distinct (rest @ kids)"
    "\<forall>q \<in> set kids. length (W ! q) = Suc (length (W ! i)) \<and> ac_back A ! q = i"
    "\<forall>q < length W. q \<in> insert i D \<or> (\<exists>p \<in> set (rest @ kids). prefix (W ! p) (W ! q))"
proof -
  have tree: "ac_tree A W" and i: "i < length W" "i \<notin> D" "i \<notin> set rest"
    and rest: "set rest \<subseteq> {..<length W} - D" "distinct rest"
    and par: "\<And>q. q \<in> D \<union> set rest \<Longrightarrow> q \<noteq> 0 \<Longrightarrow> ac_back A ! q \<in> D"
    using inv by (auto simp: bfs_inv_def)
  have kid: "q < length W \<and> length (W ! q) = Suc (length (W ! i)) \<and> ac_back A ! q = i \<and> q \<noteq> 0"
    if "q \<in> set kids" for q
  proof -
    from that obtain b where q: "q < length W" "W ! q = W ! i @ [b]"
      using ac_tree.children(1) [OF tree i(1)] kids by auto
    then have "0 < q" using ac_tree.root [OF tree] by (cases q) auto
    from ac_tree.back_link [OF tree this q(1)] q have "W ! (ac_back A ! q) = W ! i" by auto
    then show ?thesis
      using ac_tree.word_inj [OF tree ac_tree.back_less [OF tree q(1)] i(1)] q \<open>0 < q\<close> by auto
  qed
  then have new: "q \<notin> D \<union> set rest \<and> q \<noteq> i" if "q \<in> set kids" for q
    using par [of q] i(2) that by fastforce
  show "set (rest @ kids) \<subseteq> {..<length W} - insert i D"
    using rest i kid new by fastforce
  show "distinct (rest @ kids)"
    using rest(2) new ac_tree.children(2) [OF tree i(1)] kids by auto
  show "\<forall>q \<in> set kids. length (W ! q) = Suc (length (W ! i)) \<and> ac_back A ! q = i" using kid by blast
  show "\<forall>q < length W. q \<in> insert i D \<or> (\<exists>p \<in> set (rest @ kids). prefix (W ! p) (W ! q))"
  proof (intro allI impI)
    fix q assume q: "q < length W"
    show "q \<in> insert i D \<or> (\<exists>p \<in> set (rest @ kids). prefix (W ! p) (W ! q))"
    proof (cases "prefix (W ! i) (W ! q) \<and> q \<noteq> i")
      case True
      then have "W ! q \<noteq> W ! i" using ac_tree.word_inj [OF tree q i(1)] by auto
      then obtain b v where bv: "W ! q = W ! i @ b # v"
        using True by (auto simp: prefix_def neq_Nil_conv)
      then have "W ! i @ [b] \<in> set W"
        using ac_tree.prefix_closed [OF tree, of "W ! i @ [b]" v] nth_mem [OF q] by simp
      then obtain c where c: "c < length W" "W ! c = W ! i @ [b]" by (auto simp: in_set_conv_nth)
      then have "c \<in> set kids" using ac_tree.children(1) [OF tree i(1)] kids by auto
      moreover have "prefix (W ! c) (W ! q)" using c bv by simp
      ultimately show ?thesis by auto
    next
      case False
      then show ?thesis using inv q by (auto simp: bfs_inv_def)
    qed
  qed
qed

lemma bfs_step:
  assumes inv: "bfs_inv A W D (i # rest)"
  obtains r where
    "(if ac_back A ! i \<noteq> 0 then find_failure A (labels A ! i) (failure A ! (ac_back A ! i)) False
      else Some None) = Some r"
    "bfs_inv (set_failure i r A) W (insert i D) (rest @ map snd (ac_next A ! i))"
proof -
  have tree: "ac_tree A W" and i: "i < length W" "i \<notin> D" "failure A ! i = 0"
    and srt: "sorted (map (\<lambda>q. length (W ! q)) (i # rest))"
    and near: "\<forall>q \<in> set rest. length (W ! q) \<le> Suc (length (W ! i))"
    and par: "\<forall>q \<in> D \<union> set (i # rest). q \<noteq> 0 \<longrightarrow> ac_back A ! q \<in> D"
    and old: "D \<subseteq> {..<length W}" "\<forall>q \<in> D. fail_ok A W q" "\<forall>q < length W. q \<notin> D \<longrightarrow> failure A ! q = 0"
    using inv by (auto simp: bfs_inv_def)
  obtain r where r: "(if ac_back A ! i \<noteq> 0
      then find_failure A (labels A ! i) (failure A ! (ac_back A ! i)) False else Some None) = Some r"
      "fail_ok (set_failure i r A) W i"
    by (rule ac_tree.failure_step [OF tree _ i(1,3)]) (use bfs_shallow_done [OF inv] old(2) in auto)
  define kids where "kids = map snd (ac_next A ! i)"
  note Q = bfs_queue_step [OF inv kids_def]
  have srt': "sorted (map (\<lambda>q. length (W ! q)) (rest @ kids))"
  proof -
    have "map (\<lambda>q. length (W ! q)) kids = replicate (length kids) (Suc (length (W ! i)))"
      using Q(3) by (intro replicate_eqI) auto
    then show ?thesis using srt near by (auto simp: sorted_append)
  qed
  have near': "\<forall>q \<in> set (rest @ kids). length (W ! q) \<le> Suc (length (W ! hd (rest @ kids)))"
  proof
    fix q assume q: "q \<in> set (rest @ kids)"
    have "length (W ! q) \<le> Suc (length (W ! i))" using q near Q(3) by auto
    moreover have "hd (rest @ kids) \<in> set (rest @ kids)" using q by (intro hd_in_set) auto
    then have "length (W ! i) \<le> length (W ! hd (rest @ kids))" using srt Q(3) by auto
    ultimately show "length (W ! q) \<le> Suc (length (W ! hd (rest @ kids)))" by simp
  qed
  have par': "\<forall>q \<in> insert i D \<union> set (rest @ kids). q \<noteq> 0 \<longrightarrow> ac_back (set_failure i r A) ! q \<in> insert i D"
    using par Q(3) by auto
  have ok': "\<forall>q \<in> insert i D. fail_ok (set_failure i r A) W q"
  proof
    fix q assume q: "q \<in> insert i D"
    show "fail_ok (set_failure i r A) W q"
    proof (cases "q = i")
      case False
      then have "fail_ok A W q" using q old(2) by simp
      then show ?thesis using False by (auto simp: fail_ok_def split: if_splits)
    qed (use r(2) in simp)
  qed
  have zero': "\<forall>q < length W. q \<notin> insert i D \<longrightarrow> failure (set_failure i r A) ! q = 0" using old(3) by auto
  have D': "insert i D \<subseteq> {..<length W}" using old(1) i(1) by auto
  have "bfs_inv (set_failure i r A) W (insert i D) (rest @ kids)"
    unfolding bfs_inv_def
    by (intro conjI set_failure_tree [OF tree] D' Q(1,2,4) srt' near' par' ok' zero')
  then show ?thesis using that [OF r(1)] by (simp add: kids_def)
qed

lemma failure_loop_correct:
  assumes "bfs_inv A W D queue"
  shows "\<exists>A'. failure_loop A queue = Some A' \<and> ac_tree A' W \<and> (\<forall>q < length W. fail_ok A' W q) \<and>
    same_registry A A' \<and> ac_output A' = ac_output A"
  using assms
proof (induction "card ({..<length W} - D)" arbitrary: A D queue rule: less_induct)
  case less
  show ?case
  proof (cases queue)
    case Nil
    then show ?thesis
      using less.prems by (auto simp: bfs_inv_def failure_loop.simps [of A] same_registry_def)
  next
    case (Cons i rest)
    then have inv: "bfs_inv A W D (i # rest)" using less.prems by simp
    from bfs_step [OF this] obtain r where r:
      "(if ac_back A ! i \<noteq> 0 then find_failure A (labels A ! i) (failure A ! (ac_back A ! i)) False
        else Some None) = Some r"
      "bfs_inv (set_failure i r A) W (insert i D) (rest @ map snd (ac_next A ! i))" by metis
    have "{..<length W} - insert i D \<subset> {..<length W} - D" using inv by (auto simp: bfs_inv_def)
    then have "card ({..<length W} - insert i D) < card ({..<length W} - D)"
      by (intro psubset_card_mono) auto
    from less.hyps [OF this r(2)] show ?thesis
      using Cons r(1) by (subst failure_loop.simps) (auto simp: same_registry_def)
  qed
qed

lemma bfs_start:
  assumes tree: "ac_tree A W" and zero: "links_zero A"
  shows "bfs_inv A W {} [0]"
  using assms ac_tree.root [OF tree] ac_tree.len [OF tree]
  by (auto simp: bfs_inv_def links_zero_def)

section \<open>The search\<close>

lemma ex_prefix_Cons:
  fixes y :: "'b list"
  shows "(\<exists>z. z \<noteq> [] \<and> prefix z (b # y) \<and> S z) \<longleftrightarrow> S [b] \<or> (\<exists>z. z \<noteq> [] \<and> prefix z y \<and> S (b # z))"
proof -
  have "(\<exists>z. z \<noteq> [] \<and> prefix z (b # y) \<and> S z) \<longleftrightarrow> (\<exists>z. prefix z y \<and> S (b # z))"
    by (auto simp: prefix_Cons)
  also have "\<dots> \<longleftrightarrow> S [b] \<or> (\<exists>z. z \<noteq> [] \<and> prefix z y \<and> S (b # z))"
  proof -
    have "(\<exists>z. Q z) \<longleftrightarrow> Q [] \<or> (\<exists>z. z \<noteq> [] \<and> Q z)" for Q :: "'b list \<Rightarrow> bool" by metis
    from this [of "\<lambda>z. prefix z y \<and> S (b # z)"] show ?thesis by simp
  qed
  finally show ?thesis .
qed

text \<open>The contract of a finished automaton for its search: links and outputs are right.\<close>

locale ac_links = ac_tree +
  fixes P :: "'c::linorder list list set"
  assumes links: "\<And>q. q < length W \<Longrightarrow> fail_ok A W q"
    and marked: "marks A W P"
begin

lemma link_shorter: "q < length W \<Longrightarrow> q \<noteq> 0 \<Longrightarrow> length (W ! (failure A ! q)) < length (W ! q)"
  using links [of q] by (auto simp: fail_ok_def longest_border_def strict_suffix_def suffix_def)

lemma probe_output_correct:
  assumes "q < length W"
  shows "probe_output A q = Some (\<exists>u \<in> P. u \<noteq> [] \<and> suffix u (W ! q))"
  using assms
proof (induction "length (W ! q)" arbitrary: q rule: less_induct)
  case less
  show ?case
  proof (cases "q = 0")
    case True
    then show ?thesis using root by (simp add: probe_output.simps [of A 0])
  next
    case False
    let ?f = "failure A ! q"
    have f: "?f < length W" and border: "longest_border W (W ! q) (W ! ?f)"
      using links [OF less.prems] False by (auto simp: fail_ok_def)
    have out: "(ac_output A ! q \<noteq> None) = (W ! q \<in> P)" and PW: "P \<subseteq> set W"
      using marked less.prems by (auto simp: marks_def)
    have ne: "W ! q \<noteq> []" using word_Nil_iff [OF less.prems] False by simp
    have IH: "probe_output A ?f = Some (\<exists>u \<in> P. u \<noteq> [] \<and> suffix u (W ! ?f))"
      by (rule less.hyps [OF link_shorter [OF less.prems False] f])
    have "probe_output A q = (if ac_output A ! q \<noteq> None then Some True else probe_output A ?f)"
      using False less.prems len by (subst probe_output.simps) simp
    also have "\<dots> = Some (W ! q \<in> P \<or> (\<exists>u \<in> P. u \<noteq> [] \<and> suffix u (W ! ?f)))"
      by (simp only: IH out) simp
    also have "(W ! q \<in> P \<or> (\<exists>u \<in> P. u \<noteq> [] \<and> suffix u (W ! ?f))) \<longleftrightarrow> (\<exists>u \<in> P. u \<noteq> [] \<and> suffix u (W ! q))"
      using suffix_border_cases [OF border] PW ne by blast
    finally show ?thesis .
  qed
qed

text \<open>\<open>q\<close> is the state of the longest suffix of the text read that is a word of the trie.\<close>

definition at_longest :: "'c list list \<Rightarrow> nat \<Rightarrow> bool" where
  "at_longest x q = (q < length W \<and> suffix (W ! q) x \<and>
     (\<forall>u \<in> set W. suffix u x \<longrightarrow> length u \<le> length (W ! q)))"

lemma at_longest_suffix: "at_longest x q \<Longrightarrow> u \<in> set W \<Longrightarrow> suffix u x \<longleftrightarrow> suffix u (W ! q)"
  unfolding at_longest_def by (metis suffix_length_suffix suffix_order.trans)

lemma at_longest_start: "at_longest [] 0"
  using root by (simp add: at_longest_def)

text \<open>While the links are followed, no longer suffix can be extended by the next block.\<close>

definition may_extend :: "'c list list \<Rightarrow> 'c list \<Rightarrow> nat \<Rightarrow> bool" where
  "may_extend x b q = (q < length W \<and> suffix (W ! q) x \<and>
     (\<forall>u. u @ [b] \<in> set W \<longrightarrow> suffix u x \<longrightarrow> suffix u (W ! q)))"

lemma may_extend_start: "at_longest x q \<Longrightarrow> may_extend x b q"
proof -
  assume q: "at_longest x q"
  have "suffix u (W ! q)" if "u @ [b] \<in> set W" "suffix u x" for u
    using at_longest_suffix [OF q, of u] prefix_closed [OF that(1)] that(2) by simp
  then show "may_extend x b q" using q by (simp add: may_extend_def at_longest_def)
qed

lemma may_extend_link:
  assumes "may_extend x b q" and stuck: "W ! q @ [b] \<notin> set W" and "q \<noteq> 0"
  shows "may_extend x b (failure A ! q)"
proof -
  have q: "q < length W" "suffix (W ! q) x" using assms(1) by (auto simp: may_extend_def)
  have f: "failure A ! q < length W" and border: "longest_border W (W ! q) (W ! (failure A ! q))"
    using links [OF q(1)] assms(3) by (auto simp: fail_ok_def)
  have "suffix u (W ! (failure A ! q))" if "u @ [b] \<in> set W" "suffix u x" for u
    using assms(1) that suffix_border_cases [OF border, of u] prefix_closed [of u "[b]"] stuck
    by (auto simp: may_extend_def)
  moreover have "suffix (W ! (failure A ! q)) x"
    using border q(2) by (auto simp: longest_border_def strict_suffix_def intro: suffix_order.trans)
  ultimately show ?thesis using f by (simp add: may_extend_def)
qed

lemma may_extend_step:
  assumes "may_extend x b q" and "r < length W" and "W ! r = W ! q @ [b]"
  shows "at_longest (x @ [b]) r"
proof -
  have "length u \<le> length (W ! r)" if u: "u \<in> set W" "suffix u (x @ [b])" for u
    using u assms by (cases u rule: rev_cases) (auto simp: may_extend_def dest: suffix_length_le)
  then show ?thesis using assms by (auto simp: at_longest_def may_extend_def)
qed

lemma may_extend_root:
  assumes "may_extend x b 0" and "[b] \<notin> set W"
  shows "at_longest (x @ [b]) 0"
proof -
  have "u = []" if u: "u \<in> set W" "suffix u (x @ [b])" for u
    using u assms root by (cases u rule: rev_cases) (auto simp: may_extend_def)
  then show ?thesis using root by (auto simp: at_longest_def)
qed

lemma root_step_default:
  obtains (child) "root_step default_callbacks A b < length W" "W ! root_step default_callbacks A b = [b]"
  | (none) "root_step default_callbacks A b = 0" "[b] \<notin> set W"
proof (cases "find (\<lambda>q. b = labels A ! q) (root_inputs A)")
  case (Some r)
  then have r: "r \<in> set (root_inputs A)" "b = labels A ! r" by (auto simp: find_Some_iff)
  then have "r < length W" "length (W ! r) = 1" using root_inputs_iff by auto
  moreover from this have "W ! r = [b]"
    using r(2) back_link [of r] root by (cases "r = 0") auto
  ultimately show ?thesis using child Some by (simp add: root_step_def default_callbacks_def)
next
  case None
  have "[b] \<notin> set W"
  proof
    assume "[b] \<in> set W"
    then obtain r where r: "r < length W" "W ! r = [b]" by (auto simp: in_set_conv_nth)
    then have "r \<in> set (root_inputs A)" using root_inputs_iff by auto
    moreover have "labels A ! r = b" using r back_link [of r] root by (cases "r = 0") auto
    ultimately show False using None by (auto simp: find_None_iff)
  qed
  then show ?thesis using none None by (simp add: root_step_def default_callbacks_def)
qed

lemma node_step_default:
  assumes "q < length W"
  obtains (child) "node_step default_callbacks A b q \<noteq> 0" "node_step default_callbacks A b q < length W"
      "W ! node_step default_callbacks A b q = W ! q @ [b]"
  | (none) "node_step default_callbacks A b q = 0" "W ! q @ [b] \<notin> set W"
proof (cases "bt_get (ac_next A ! q) b")
  case (Some r)
  then have r: "r < length W" "W ! r = W ! q @ [b]" using next_iff [OF assms] by auto
  then have "r \<noteq> 0" using word_Nil_iff [OF r(1)] by auto
  then show ?thesis using child Some r by (simp add: node_step_def default_callbacks_def)
next
  case None
  then have "find (\<lambda>(t, _). b = t) (ac_next A ! q) = None"
    by (auto simp: find_None_iff bt_get_None_iff image_iff)
  then show ?thesis
    using none None next_None_iff [OF assms] by (simp add: node_step_def default_callbacks_def)
qed

text \<open>
  The loop from a state on the way of extending the text \<open>x\<close> by the first block: it returns,
  and says whether some pattern ends at one of the blocks to come.
\<close>

definition ends_in :: "'c list list \<Rightarrow> 'c list list \<Rightarrow> bool" where
  "ends_in x y = (\<exists>u \<in> P. u \<noteq> [] \<and> (\<exists>z. z \<noteq> [] \<and> prefix z y \<and> suffix u (x @ z)))"

lemma ends_in_Cons:
  "ends_in x (b # y) \<longleftrightarrow> (\<exists>u \<in> P. u \<noteq> [] \<and> suffix u (x @ [b])) \<or> ends_in (x @ [b]) y"
proof -
  have "(\<exists>z. z \<noteq> [] \<and> prefix z (b # y) \<and> suffix u (x @ z)) \<longleftrightarrow>
    suffix u (x @ [b]) \<or> (\<exists>z. z \<noteq> [] \<and> prefix z y \<and> suffix u ((x @ [b]) @ z))" for u
    using ex_prefix_Cons [of b y "\<lambda>z. suffix u (x @ z)"] by simp
  then show ?thesis unfolding ends_in_def by (simp only: conj_disj_distribL bex_disj_distrib)
qed

lemma similar_loop_correct:
  assumes "at_longest x q"
  shows "\<exists>col. similar_loop default_callbacks A cs q bs = Some (ends_in x bs, col)"
  using assms
proof (induction bs arbitrary: x q cs)
  case Nil
  show ?case by (subst similar_loop.simps) (simp add: ends_in_def)
next
  case (Cons b bs)
  let ?H = "default_callbacks :: 'c ac_callbacks"
  have moved: "\<exists>col. Option.bind (probe_output A r)
      (\<lambda>hit. if hit then Some (True, cs') else similar_loop ?H A cs' r bs) = Some (ends_in x (b # bs), col)"
    if r: "at_longest (x @ [b]) r" for r cs'
  proof -
    have "P \<subseteq> set W" using marked by (simp add: marks_def)
    then have "suffix u (W ! r) = suffix u (x @ [b])" if "u \<in> P" for u
      using at_longest_suffix [OF r, of u] that by auto
    then have "(\<exists>u \<in> P. u \<noteq> [] \<and> suffix u (W ! r)) \<longleftrightarrow> (\<exists>u \<in> P. u \<noteq> [] \<and> suffix u (x @ [b]))"
      by (intro bex_cong refl) simp
    then show ?thesis
      using probe_output_correct [of r] r Cons.IH [OF r, of cs'] ends_in_Cons [of x b bs]
      by (auto simp: at_longest_def)
  qed
  have "\<exists>col. similar_loop ?H A cs p (b # bs) = Some (ends_in x (b # bs), col)"
    if "may_extend x b p" for p
    using that
  proof (induction "length (W ! p)" arbitrary: p rule: less_induct)
    case less
    have p: "p < length W" using less.prems by (simp add: may_extend_def)
    show ?case
    proof (cases "p = 0")
      case True
      have "at_longest (x @ [b]) (root_step ?H A b)"
      proof (cases rule: root_step_default [of b])
        case child
        then show ?thesis using may_extend_step [OF less.prems] True root by simp
      next
        case none
        then show ?thesis using may_extend_root [of x b] less.prems True by simp
      qed
      then show ?thesis
        using moved [of "root_step ?H A b" cs] True p len by (subst similar_loop.simps) (simp add: Let_def)
    next
      case False
      show ?thesis
      proof (cases rule: node_step_default [OF p, of b, case_names child none])
        case child
        then show ?thesis
          using moved [of "node_step ?H A b p" "cs @ [b]"] may_extend_step [OF less.prems] False p len
          by (subst similar_loop.simps) (simp add: Let_def)
      next
        case none
        have "similar_loop ?H A cs p (b # bs) = similar_loop ?H A cs (failure A ! p) (b # bs)"
          using none(1) False p len by (subst similar_loop.simps) simp
        then show ?thesis
          using less.hyps [OF link_shorter [OF p False] may_extend_link [OF less.prems none(2) False]]
          by simp
      qed
    qed
  qed
  then show ?case using may_extend_start [OF Cons.prems] by blast
qed

end

section \<open>The finished automaton\<close>

lemma ac_links_of_loop:
  assumes "failure_loop (build_trie H A) [0] = Some B"
  shows "\<exists>W. ac_links B W (split_fn H ` set (ac_patterns A))"
proof -
  obtain W where W: "ac_tree (build_trie H A) W" "links_zero (build_trie H A)"
    "marks (build_trie H A) W (split_fn H ` set (ac_patterns A))"
    using build_trie_tree [of H A] by blast
  from failure_loop_correct [OF bfs_start [OF W(1,2)]] assms
  have "ac_tree B W" "\<forall>q < length W. fail_ok B W q" "ac_output B = ac_output (build_trie H A)" by auto
  with W(3) show ?thesis
    by (intro exI [of _ W]) (simp add: ac_links_def ac_links_axioms_def marks_def)
qed

lemma ac_optimize_total:
  obtains B where "ac_optimize H A = Some B" "is_optimized B" "same_registry A B"
proof -
  obtain W where "ac_tree (build_trie H A) W" "links_zero (build_trie H A)" "same_registry A (build_trie H A)"
    using build_trie_tree [of H A] by blast
  with failure_loop_correct [OF bfs_start] that show ?thesis
    by (fastforce simp: ac_optimize_def same_registry_def)
qed

definition optimized :: "'c::linorder ac_callbacks \<Rightarrow> 'c ac \<Rightarrow> 'c ac" where
  "optimized H A = the (ac_optimize H A)"

definition trie_words :: "'c::linorder ac_callbacks \<Rightarrow> 'c ac \<Rightarrow> 'c list list list" where
  "trie_words H A = (SOME W. ac_links (optimized H A) W (split_fn H ` set (ac_patterns A)))"

lemma optimized_links: "\<exists>W. ac_links (optimized H A) W (split_fn H ` set (ac_patterns A))"
proof -
  obtain B where B: "ac_optimize H A = Some B" by (rule ac_optimize_total)
  then obtain C where C: "failure_loop (build_trie H A) [0] = Some C" "B = C\<lparr>is_optimized := True\<rparr>"
    by (auto simp: ac_optimize_def)
  from ac_links_of_loop [OF C(1)] obtain W where
    W: "ac_links C W (split_fn H ` set (ac_patterns A))" by blast
  then have tree: "ac_tree C W" by (simp add: ac_links_def)
  have "ac_tree B W" by (rule ac_tree_cong [OF tree]) (use ac_tree.len [OF tree] C in simp_all)
  then have "ac_links B W (split_fn H ` set (ac_patterns A))"
    using W C(2) by (simp add: ac_links_def ac_links_axioms_def marks_def fail_ok_def)
  then show ?thesis using B by (auto simp: optimized_def)
qed

interpretation built: ac_links "optimized H A" "trie_words H A" "split_fn H ` set (ac_patterns A)"
  for H :: "'c::linorder ac_callbacks" and A
  unfolding trie_words_def by (rule someI_ex) (rule optimized_links)

section \<open>Histories\<close>

datatype 'c ac_call = Add_Pattern "'c list" | Optimize

fun ac_run :: "'c::linorder ac_callbacks \<Rightarrow> 'c ac_call list \<Rightarrow> 'c ac \<Rightarrow> 'c ac option" where
  "ac_run H [] A = Some A"
| "ac_run H (Add_Pattern p # cs) A = ac_run H cs (ac_add p A)"
| "ac_run H (Optimize # cs) A = Option.bind (ac_optimize H A) (ac_run H cs)"

definition registry_ok :: "'c::linorder ac \<Rightarrow> bool" where
  "registry_ok A = (distinct (ac_patterns A) \<and> [] \<notin> set (ac_patterns A) \<and>
     (\<forall>p. bt_get (pattern_mapping A) p = None \<longleftrightarrow> p \<notin> set (ac_patterns A)))"

lemma registry_add:
  "registry_ok A \<Longrightarrow> registry_ok (ac_add p A)"
  "registry_ok A \<Longrightarrow> set (ac_patterns (ac_add p A)) = set (ac_patterns A) \<union> ({p} - {[]})"
  by (auto simp: registry_ok_def ac_add_def)

lemma registry_cong: "same_registry A B \<Longrightarrow> registry_ok A \<Longrightarrow> registry_ok B"
  by (simp add: same_registry_def registry_ok_def)

lemma ac_run_registry:
  assumes "registry_ok A"
  shows "\<exists>B. ac_run H cs A = Some B \<and> registry_ok B \<and>
    set (ac_patterns B) = set (ac_patterns A) \<union> {p. Add_Pattern p \<in> set cs \<and> p \<noteq> []}"
  using assms
proof (induction H cs A rule: ac_run.induct)
  case (1 H A)
  then show ?case by simp
next
  case (2 H p cs A)
  then show ?case using registry_add [of A p] by auto
next
  case (3 H cs A)
  obtain B where B: "ac_optimize H A = Some B" "same_registry A B" by (rule ac_optimize_total)
  from 3(1) [OF B(1) registry_cong [OF B(2) 3(2)]] B show ?case by (auto simp: same_registry_def)
qed

lemma sublist_blocks: "sublist (map (\<lambda>c. [c]) p) (map (\<lambda>c. [c]) s) \<longleftrightarrow> sublist p s"
proof
  assume "sublist (map (\<lambda>c. [c]) p) (map (\<lambda>c. [c]) s)"
  then obtain b where s: "sublist b s" "map (\<lambda>c. [c]) b = map (\<lambda>c. [c]) p"
    by (metis sublist_map_rightE)
  from s(2) have "b = p" by (rule map_injective) (simp add: inj_on_def)
  with s show "sublist p s" by simp
next
  assume "sublist p s"
  then show "sublist (map (\<lambda>c. [c]) p) (map (\<lambda>c. [c]) s)" by (rule map_mono_sublist)
qed

lemma ends_in_sublist: "built.ends_in H A [] bs \<longleftrightarrow> (\<exists>p \<in> set (ac_patterns A). split_fn H p \<noteq> [] \<and> sublist (split_fn H p) bs)"
proof -
  have "(\<exists>z. z \<noteq> [] \<and> prefix z bs \<and> suffix u z) \<longleftrightarrow> sublist u bs" if "u \<noteq> []" for u
    using that unfolding sublist_altdef by (metis suffix_Nil)
  then show ?thesis by (auto simp: built.ends_in_def)
qed

text \<open>C5: The matcher is exact and always returns. After any history of registrations and
  constructions, the construction of the automaton terminates, and the search with it
  terminates on every sample and answers whether some non-empty registered pattern occurs in
  the sample as a substring.\<close>

theorem ac_similar_correct:
  "\<exists>A B. ac_run default_callbacks cs ac_new = Some A \<and> ac_optimize default_callbacks A = Some B \<and>
     (\<forall>s. \<exists>collected. ac_similar default_callbacks B s =
        Some (\<exists>p. Add_Pattern p \<in> set cs \<and> p \<noteq> [] \<and> sublist p s, collected))"
proof -
  let ?H = "default_callbacks :: 'a ac_callbacks"
  have "registry_ok (ac_new :: 'a ac)" by (simp add: registry_ok_def ac_new_def)
  from ac_run_registry [OF this, of ?H cs] obtain A where A: "ac_run ?H cs ac_new = Some A"
    "set (ac_patterns A) = {p. Add_Pattern p \<in> set cs \<and> p \<noteq> []}" by (auto simp: ac_new_def)
  obtain B where B: "ac_optimize ?H A = Some B" "is_optimized B" by (rule ac_optimize_total)
  then have opt: "optimized ?H A = B" by (simp add: optimized_def)
  have "\<exists>col. ac_similar ?H B s = Some (\<exists>p. Add_Pattern p \<in> set cs \<and> p \<noteq> [] \<and> sublist p s, col)" for s
    using built.similar_loop_correct [OF built.at_longest_start, of ?H A "[]" "split_fn ?H s"] B(2) A(2)
    unfolding ends_in_sublist opt
    by (auto simp: ac_similar_def default_callbacks_def sublist_blocks)
  with A(1) B(1) show ?thesis by blast
qed

end
