(* ===== verification/Codec.thy ===== *)
theory Codec
  imports Prelude
begin

text \<open>
  The contract of a self-delimiting byte codec, and what a reader that keeps decoding from
  a growing buffer may conclude from it. The frame codec of the kernel transport and the
  \<open>u64\<close> chains of the storage layer are instances.
\<close>

section \<open>Decoding until the buffer runs dry\<close>

function decode_loop :: "(u8 list \<Rightarrow> ('a \<times> u8 list) option) \<Rightarrow> u8 list \<Rightarrow> 'a list \<times> u8 list" where
  "decode_loop dec bs =
     (case dec bs of
        None \<Rightarrow> ([], bs)
      | Some (x, rest) \<Rightarrow>
          if length rest < length bs
          then (let (xs, left) = decode_loop dec rest in (x # xs, left))
          else ([x], rest))"
  by pat_completeness auto
termination
  by (relation "measure (\<lambda>(dec, bs). length bs)") auto

declare decode_loop.simps [simp del]

locale prefix_codec =
  fixes enc :: "'a \<Rightarrow> u8 list"
    and dec :: "u8 list \<Rightarrow> ('a \<times> u8 list) option"
    and valid :: "'a \<Rightarrow> bool"
  assumes dec_enc: "valid x \<Longrightarrow> dec (enc x @ rest) = Some (x, rest)"
    and enc_nonempty: "valid x \<Longrightarrow> enc x \<noteq> []"
begin

lemma decode_loop_enc:
  assumes "valid x"
  shows "decode_loop dec (enc x @ rest) =
    (let (xs, left) = decode_loop dec rest in (x # xs, left))"
  using assms enc_nonempty [OF assms]
  by (simp add: decode_loop.simps [of dec "enc x @ rest"] dec_enc)

lemma decode_loop_stuck: "dec left = None \<Longrightarrow> decode_loop dec left = ([], left)"
  by (simp add: decode_loop.simps)

theorem decode_loop_concat:
  assumes "\<forall>x \<in> set xs. valid x" and "dec left = None"
  shows "decode_loop dec (concat (map enc xs) @ left) = (xs, left)"
  using assms(1)
proof (induction xs)
  case Nil
  with assms(2) show ?case by (simp add: decode_loop_stuck)
next
  case (Cons x xs)
  then show ?case by (simp add: decode_loop_enc)
qed

lemma enc_inj: "valid x \<Longrightarrow> valid y \<Longrightarrow> enc x = enc y \<Longrightarrow> x = y"
  using dec_enc [of x "[]"] dec_enc [of y "[]"] by simp

lemma concat_inj:
  assumes "\<forall>x \<in> set xs. valid x" and "\<forall>y \<in> set ys. valid y" and "dec [] = None"
    and "concat (map enc xs) = concat (map enc ys)"
  shows "xs = ys"
  using decode_loop_concat [OF assms(1) assms(3)] decode_loop_concat [OF assms(2) assms(3)] assms(4)
  by simp

end

end
