(* ===== verification/Frame_Codec.thy ===== *)
theory Frame_Codec
  imports Codec "HOL-Library.Sublist"
begin

text \<open>
  The length-prefixed frame codec of every host-kernel hop
  (\<open>crates/opsense-proto/src/frame.rs\<close>): tag byte, big-endian \<open>u32\<close> length, payload.
  The growing receive buffer (\<open>BytesMut\<close>) is a byte list; \<open>decode\<close> returns its result
  together with what is left in the buffer, in the error cases too. The protobuf codec of
  an envelope is not part of the repository and is a parameter.
\<close>

section \<open>Frames\<close>

definition TAG_CONTROL :: u8 where "TAG_CONTROL = 0x01"

definition TAG_ARROW :: u8 where "TAG_ARROW = 0x02"

definition MAX_FRAME_LEN :: u32 where "MAX_FRAME_LEN = 512 * 1024 * 1024"

definition HEADER_LEN :: nat where "HEADER_LEN = 5"

datatype frame_tag = Control | Arrow

fun frame_tag_as_u8 :: "frame_tag \<Rightarrow> u8" where
  "frame_tag_as_u8 Control = TAG_CONTROL"
| "frame_tag_as_u8 Arrow = TAG_ARROW"

definition frame_tag_from_u8 :: "u8 \<Rightarrow> frame_tag option" where
  "frame_tag_from_u8 raw =
     (if raw = TAG_CONTROL then Some Control
      else if raw = TAG_ARROW then Some Arrow
      else None)"

record frame =
  tag :: frame_tag
  payload :: "u8 list"

datatype frame_error =
    Frame_exceeds_u32_length
  | Declared_length_exceeds_cap nat
  | Unknown_frame_tag u8
  | Expected_control_frame u8

definition frame_control :: "('m \<Rightarrow> u8 list) \<Rightarrow> 'm \<Rightarrow> frame" where
  "frame_control encode_to_vec msg = \<lparr>tag = Control, payload = encode_to_vec msg\<rparr>"

definition frame_arrow :: "u8 list \<Rightarrow> frame" where
  "frame_arrow bytes = \<lparr>tag = Arrow, payload = bytes\<rparr>"

definition frame_envelope ::
    "(u8 list \<Rightarrow> 'e + 'm) \<Rightarrow> frame \<Rightarrow> (frame_error + 'e) + 'm" where
  "frame_envelope pb_decode f =
     (if tag f \<noteq> Control then Inl (Inl (Expected_control_frame (frame_tag_as_u8 (tag f))))
      else case pb_decode (payload f) of Inl e \<Rightarrow> Inl (Inr e) | Inr m \<Rightarrow> Inr m)"

section \<open>Encoder and decoder\<close>

definition frame_encode :: "frame \<Rightarrow> u8 list \<Rightarrow> frame_error + u8 list" where
  "frame_encode item dst =
     (if length (payload item) < 2 ^ 32
      then Inr (dst @ [frame_tag_as_u8 (tag item)]
                    @ u32_to_be_bytes (of_nat (length (payload item))) @ payload item)
      else Inl Frame_exceeds_u32_length)"

definition frame_decode :: "u8 list \<Rightarrow> (frame_error + frame option) \<times> u8 list" where
  "frame_decode src =
     (if length src < HEADER_LEN then (Inr None, src)
      else
        let raw = src ! 0;
            len = unat (u32_from_be_bytes [src ! 1, src ! 2, src ! 3, src ! 4])
        in if unat MAX_FRAME_LEN < len then (Inl (Declared_length_exceeds_cap len), src)
           else if length src < HEADER_LEN + len then (Inr None, src)
           else
             let full = take (HEADER_LEN + len) src;
                 rest = drop (HEADER_LEN + len) src;
                 body = drop HEADER_LEN full
             in case frame_tag_from_u8 raw of
                  None \<Rightarrow> (Inl (Unknown_frame_tag raw), rest)
                | Some t \<Rightarrow> (Inr (Some \<lparr>tag = t, payload = body\<rparr>), rest))"

text \<open>
  The read side keeps asking the decoder for frames until it reports that the buffer
  holds no complete one; \<open>next_frame\<close> is one such request that succeeded.
\<close>

definition next_frame :: "u8 list \<Rightarrow> (frame \<times> u8 list) option" where
  "next_frame src = (case frame_decode src of (Inr (Some f), rest) \<Rightarrow> Some (f, rest) | _ \<Rightarrow> None)"

definition wire :: "frame \<Rightarrow> u8 list" where
  "wire f = (case frame_encode f [] of Inr bs \<Rightarrow> bs | Inl _ \<Rightarrow> [])"

definition within_cap :: "frame \<Rightarrow> bool" where
  "within_cap f = (length (payload f) \<le> unat MAX_FRAME_LEN)"

section \<open>Correctness\<close>

lemma unat_MAX_FRAME_LEN: "unat MAX_FRAME_LEN = 536870912"
  by (simp add: MAX_FRAME_LEN_def)

lemma frame_tag_roundtrip [simp]: "frame_tag_from_u8 (frame_tag_as_u8 t) = Some t"
  by (cases t) (simp_all add: frame_tag_from_u8_def TAG_CONTROL_def TAG_ARROW_def)

lemma frame_tag_from_u8_Some: "frame_tag_from_u8 b = Some t \<Longrightarrow> b = frame_tag_as_u8 t"
  by (auto simp: frame_tag_from_u8_def split: if_splits)

lemma length_four: "length xs = 4 \<Longrightarrow> xs = [xs ! 0, xs ! 1, xs ! 2, xs ! 3]"
  by (auto simp: numeral_eq_Suc length_Suc_conv)

lemma wire_eq:
  "length (payload f) < 2 ^ 32 \<Longrightarrow>
   wire f = frame_tag_as_u8 (tag f) # u32_to_be_bytes (of_nat (length (payload f))) @ payload f"
  by (simp add: wire_def frame_encode_def)

lemma within_cap_u32: "within_cap f \<Longrightarrow> length (payload f) < 2 ^ 32"
  by (simp add: within_cap_def unat_MAX_FRAME_LEN)

lemma length_wire: "length (payload f) < 2 ^ 32 \<Longrightarrow> length (wire f) = HEADER_LEN + length (payload f)"
  by (simp add: wire_eq HEADER_LEN_def)

text \<open>The header of a buffer that starts with a frame declares that frame's length.\<close>

lemma header_of_wire:
  assumes "length (payload f) < 2 ^ 32" and "5 \<le> length buf" and "prefix buf (wire f @ rest)"
  shows "buf ! 0 = frame_tag_as_u8 (tag f)"
    and "unat (u32_from_be_bytes [buf ! 1, buf ! 2, buf ! 3, buf ! 4]) = length (payload f)"
proof -
  define hdr where "hdr = u32_to_be_bytes (of_nat (length (payload f)))"
  have len: "length hdr = 4" by (simp add: hdr_def)
  obtain t where "wire f @ rest = buf @ t"
    using assms(3) by (auto simp: prefix_def)
  then have nth: "buf ! i = (frame_tag_as_u8 (tag f) # hdr @ payload f @ rest) ! i" if "i < 5" for i
    using that assms(2) by (metis append.assoc append_Cons assms(1) hdr_def less_le_trans nth_append wire_eq)
  from nth [of 0] show "buf ! 0 = frame_tag_as_u8 (tag f)" by simp
  have "[buf ! 1, buf ! 2, buf ! 3, buf ! 4] = [hdr ! 0, hdr ! 1, hdr ! 2, hdr ! 3]"
    using nth [of 1] nth [of 2] nth [of 3] nth [of 4] len
    by (simp add: nth_append nth_Cons numeral_eq_Suc)
  also have "\<dots> = hdr" using length_four [OF len] by simp
  finally show "unat (u32_from_be_bytes [buf ! 1, buf ! 2, buf ! 3, buf ! 4]) = length (payload f)"
    using assms(1) by (simp add: hdr_def unat_of_nat)
qed

lemma frame_decode_wire:
  assumes "within_cap f"
  shows "frame_decode (wire f @ rest) = (Inr (Some f), rest)"
proof -
  have small: "length (payload f) < 2 ^ 32" by (rule within_cap_u32 [OF assms])
  note hdr = header_of_wire [OF small, of "wire f @ rest" rest]
  have "5 \<le> length (wire f @ rest)" by (simp add: length_wire [OF small] HEADER_LEN_def)
  then have "(wire f @ rest) ! 0 = frame_tag_as_u8 (tag f)"
    and "unat (u32_from_be_bytes [(wire f @ rest) ! 1, (wire f @ rest) ! 2,
           (wire f @ rest) ! 3, (wire f @ rest) ! 4]) = length (payload f)"
    using hdr by simp_all
  moreover have "take (HEADER_LEN + length (payload f)) (wire f @ rest) = wire f"
    and "drop (HEADER_LEN + length (payload f)) (wire f @ rest) = rest"
    by (simp_all add: length_wire [OF small, symmetric])
  moreover have "drop HEADER_LEN (wire f) = payload f"
    by (simp add: wire_eq [OF small] HEADER_LEN_def)
  ultimately show ?thesis
    using assms by (simp add: frame_decode_def length_wire [OF small] within_cap_def Let_def)
qed

lemma frame_decode_strict_prefix:
  assumes "within_cap f" and "strict_prefix buf (wire f)"
  shows "frame_decode buf = (Inr None, buf)"
proof (cases "length buf < HEADER_LEN")
  case True
  then show ?thesis by (simp add: frame_decode_def)
next
  case False
  have small: "length (payload f) < 2 ^ 32" by (rule within_cap_u32 [OF assms(1)])
  have "5 \<le> length buf" and "prefix buf (wire f @ [])"
    using False assms(2) by (simp_all add: HEADER_LEN_def strict_prefix_def)
  note header_of_wire(2) [OF small this]
  moreover have "length buf < HEADER_LEN + length (payload f)"
    using prefix_length_less [OF assms(2)] by (simp add: length_wire [OF small])
  ultimately show ?thesis
    using assms(1) by (simp add: frame_decode_def within_cap_def Let_def)
qed

interpretation frame_wire: prefix_codec wire next_frame within_cap
  by unfold_locales
    (auto simp: next_frame_def frame_decode_wire wire_eq dest: within_cap_u32)

lemma u32_be_bytes_of_bytes: "length bs = 4 \<Longrightarrow> u32_to_be_bytes (u32_from_be_bytes bs) = bs"
proof -
  assume len: "length bs = 4"
  have "nat_of_le (rev bs) < 256 ^ 4"
    using nat_of_le_less [of "rev bs"] len by simp
  then have "unat (u32_from_be_bytes bs) = nat_of_le (rev bs)"
    by (simp add: u32_from_be_bytes_def unat_of_nat)
  then show ?thesis
    using nat_to_le_of_le [of "rev bs"] len by (simp add: u32_to_be_bytes_def)
qed

lemma take_header:
  assumes "5 \<le> length src"
  shows "take 5 src = [src ! 0, src ! 1, src ! 2, src ! 3, src ! 4]"
  by (rule nth_equalityI) (use assms in \<open>auto simp: nth_Cons numeral_eq_Suc less_Suc_eq\<close>)

lemma frame_decode_SomeE:
  assumes "frame_decode src = (Inr (Some f), rest)"
  obtains t len where "5 \<le> length src"
    and "len = unat (u32_from_be_bytes [src ! 1, src ! 2, src ! 3, src ! 4])"
    and "len \<le> unat MAX_FRAME_LEN" and "HEADER_LEN + len \<le> length src"
    and "frame_tag_from_u8 (src ! 0) = Some t"
    and "f = \<lparr>tag = t, payload = drop HEADER_LEN (take (HEADER_LEN + len) src)\<rparr>"
    and "rest = drop (HEADER_LEN + len) src"
  using assms
  by (auto simp: frame_decode_def HEADER_LEN_def Let_def split: if_splits option.splits)

text \<open>C7: A byte stream that carries complete frames within the size cap, followed by a
  proper part of one more such frame, is decoded into exactly those frames in order; the
  incomplete rest stays in the buffer untouched, so how the transport cuts the stream into
  reads does not matter.\<close>

theorem frame_stream_roundtrip:
  assumes "\<forall>f \<in> set fs. length (payload f) \<le> unat MAX_FRAME_LEN"
    and "length (payload g) \<le> unat MAX_FRAME_LEN" and "strict_prefix part (wire g)"
  shows "decode_loop next_frame (concat (map wire fs) @ part) = (fs, part)
    \<and> frame_decode part = (Inr None, part)"
proof -
  have "within_cap g" using assms(2) by (simp add: within_cap_def)
  then have none: "frame_decode part = (Inr None, part)"
    by (rule frame_decode_strict_prefix [OF _ assms(3)])
  have "decode_loop next_frame (concat (map wire fs) @ part) = (fs, part)"
    using assms(1) none
    by (intro frame_wire.decode_loop_concat) (simp_all add: within_cap_def next_frame_def)
  with none show ?thesis by simp
qed

text \<open>Witness of C7 at two frames and the first bytes of a third.\<close>

theorem frame_stream_roundtrip_witness:
  "decode_loop next_frame
     (concat (map wire [\<lparr>tag = Control, payload = [7, 8]\<rparr>, \<lparr>tag = Arrow, payload = []\<rparr>]) @ [1])
   = ([\<lparr>tag = Control, payload = [7, 8]\<rparr>, \<lparr>tag = Arrow, payload = []\<rparr>], [1])
   \<and> frame_decode [1] = (Inr None, [1])"
proof -
  have "wire \<lparr>tag = Control, payload = [9]\<rparr> = 1 # u32_to_be_bytes 1 @ [9]"
    by (simp add: wire_eq TAG_CONTROL_def)
  then have "strict_prefix [1] (wire \<lparr>tag = Control, payload = [9]\<rparr>)"
    by (simp add: strict_prefix_def)
  then show ?thesis
    by (intro frame_stream_roundtrip [of _ "\<lparr>tag = Control, payload = [9]\<rparr>"])
      (simp_all add: unat_MAX_FRAME_LEN)
qed

text \<open>C28: Whatever the decoder accepts is exactly what the encoder writes: a decoded frame
  re-encodes to the bytes taken from the buffer, respects the size cap, and what is left
  in the buffer is the rest of the input.\<close>

theorem frame_decode_canonical:
  assumes "frame_decode src = (Inr (Some f), rest)"
  shows "\<exists>bs. frame_encode f [] = Inr bs \<and> src = bs @ rest
          \<and> length (payload f) \<le> unat MAX_FRAME_LEN"
proof -
  obtain t len where src: "5 \<le> length src"
    and len: "len = unat (u32_from_be_bytes [src ! 1, src ! 2, src ! 3, src ! 4])"
    and cap: "len \<le> unat MAX_FRAME_LEN" and enough: "HEADER_LEN + len \<le> length src"
    and t: "frame_tag_from_u8 (src ! 0) = Some t"
    and f: "f = \<lparr>tag = t, payload = drop HEADER_LEN (take (HEADER_LEN + len) src)\<rparr>"
    and rest: "rest = drop (HEADER_LEN + len) src"
    using frame_decode_SomeE [OF assms] by blast
  have plen: "length (payload f) = len" using f enough by simp
  then have "within_cap f" using cap by (simp add: within_cap_def)
  note small = within_cap_u32 [OF this]
  have "of_nat len = u32_from_be_bytes [src ! 1, src ! 2, src ! 3, src ! 4]"
    by (simp add: len)
  then have "wire f = [src ! 0, src ! 1, src ! 2, src ! 3, src ! 4] @ payload f"
    using t small plen by (simp add: wire_eq f u32_be_bytes_of_bytes frame_tag_from_u8_Some [OF t, symmetric])
  also have "\<dots> = take (HEADER_LEN + len) src"
    using f enough take_header [OF src]
    by (metis HEADER_LEN_def append_take_drop_id frame.select_convs(2) le_add1 min.absorb1 take_take)
  finally have "src = wire f @ rest" by (simp add: rest)
  moreover have "frame_encode f [] = Inr (wire f)"
    using small by (simp add: wire_def frame_encode_def)
  ultimately show ?thesis using plen cap by auto
qed

text \<open>Witness of C28 at a control frame followed by one more byte.\<close>

theorem frame_decode_canonical_witness:
  "frame_decode [1, 0, 0, 0, 1, 9, 2] = (Inr (Some \<lparr>tag = Control, payload = [9]\<rparr>), [2]) \<and>
   (\<exists>bs. frame_encode \<lparr>tag = Control, payload = [9]\<rparr> [] = Inr bs \<and> [1, 0, 0, 0, 1, 9, 2] = bs @ [2]
      \<and> length (payload \<lparr>tag = Control, payload = [9]\<rparr>) \<le> unat MAX_FRAME_LEN)"
proof -
  have dec: "frame_decode [1, 0, 0, 0, 1, 9, 2] = (Inr (Some \<lparr>tag = Control, payload = [9]\<rparr>), [2])"
    by (simp add: frame_decode_def HEADER_LEN_def MAX_FRAME_LEN_def frame_tag_from_u8_def
        TAG_CONTROL_def u32_from_be_bytes_def)
  with frame_decode_canonical [OF dec] show ?thesis by blast
qed

text \<open>The encoder does not check the cap the decoder enforces: a payload above
  \<open>MAX_FRAME_LEN\<close> that still fits a \<open>u32\<close> length is encoded without an error, and the
  peer's decoder rejects the result and keeps the whole buffer.\<close>

theorem frame_encode_cap_mismatch:
  assumes "unat MAX_FRAME_LEN < length (payload f)" and "length (payload f) < 2 ^ 32"
  shows "\<exists>bs. frame_encode f [] = Inr bs
    \<and> frame_decode (bs @ rest) = (Inl (Declared_length_exceeds_cap (length (payload f))), bs @ rest)"
proof -
  have enc: "frame_encode f [] = Inr (wire f)"
    using assms(2) by (simp add: wire_def frame_encode_def)
  have "5 \<le> length (wire f @ rest)" using assms(2) by (simp add: length_wire HEADER_LEN_def)
  from header_of_wire(2) [OF assms(2) this prefix_order.refl] this
  have "frame_decode (wire f @ rest) = (Inl (Declared_length_exceeds_cap (length (payload f))), wire f @ rest)"
    using assms(1) by (simp add: frame_decode_def HEADER_LEN_def Let_def)
  with enc show ?thesis by blast
qed

text \<open>An instance at a payload one byte above the cap.\<close>

theorem frame_encode_cap_mismatch_witness:
  "\<exists>bs. frame_encode \<lparr>tag = Arrow, payload = replicate 536870913 0\<rparr> [] = Inr bs
    \<and> frame_decode (bs @ []) =
        (Inl (Declared_length_exceeds_cap (length (payload \<lparr>tag = Arrow, payload = replicate 536870913 0\<rparr>))),
         bs @ [])"
  by (rule frame_encode_cap_mismatch) (simp_all only: frame.select_convs length_replicate unat_MAX_FRAME_LEN, simp_all)

end
