(* ===== verification/Snowflake.thy ===== *)
theory Snowflake
  imports Prelude
begin

text \<open>
  The lock-free id generator \<open>SnowflakeId\<close> (\<open>crates/opsense-mlib/src/snowflake_id.rs\<close>).
  The atomic \<open>state\<close> packs a timestamp (52 bits) and a sequence number (12 bits). One
  round of the loop in \<open>generate\<close> reads the clock, loads the state, computes the
  successor (\<open>sf_next\<close>) and tries a compare-exchange. \<open>sf_generate\<close> is the loop of one
  thread; \<open>sf_step\<close> interleaves the three atomic actions of any number of threads.
\<close>

section \<open>State and one round\<close>

record snowflake =
  start_time :: u64
  machine_id :: u16
  state :: u64

definition sf_new :: "u16 \<Rightarrow> u64 \<Rightarrow> snowflake option" where
  "sf_new m start =
     (if m \<ge> push_bit 10 1 then None
      else Some \<lparr>start_time = start, machine_id = m, state = 0\<rparr>)"

definition sf_get_machine_id :: "snowflake \<Rightarrow> u16" where
  "sf_get_machine_id s = machine_id s"

definition sf_get_start_time :: "snowflake \<Rightarrow> u64" where
  "sf_get_start_time s = start_time s"

definition sf_current_ts :: "snowflake \<Rightarrow> u64 \<Rightarrow> u64" where
  "sf_current_ts s now_ms = saturating_sub now_ms (start_time s)"

text \<open>\<open>None\<close> is the \<open>continue\<close> of an exhausted sequence number.\<close>

definition sf_next :: "u64 \<Rightarrow> u64 \<Rightarrow> u64 option" where
  "sf_next current_ts old_state =
     (let old_ts = drop_bit 12 old_state;
          old_seq = old_state AND 0xFFF
      in if old_ts < current_ts then Some (push_bit 12 current_ts OR 0)
         else let next_seq = (old_seq + 1) AND 0xFFF
              in if next_seq = 0 then None
                 else Some (push_bit 12 old_ts OR next_seq))"

definition sf_id :: "u16 \<Rightarrow> u64 \<Rightarrow> u64" where
  "sf_id m new_state =
     (let new_ts = drop_bit 12 new_state; new_seq = new_state AND 0xFFF
      in push_bit 22 (new_ts AND 0xFFFFFFFFFF)
         OR push_bit 10 (new_seq AND 0xFFF)
         OR (ucast m AND 0x3FF))"

section \<open>The loop of one thread\<close>

text \<open>
  Each round consumes one clock reading (\<open>None\<close> when the system clock is before the
  epoch, where \<open>expect\<close> panics) and one bit telling whether the weak compare-exchange
  fails spuriously. \<open>Sf_pending\<close>: the readings ran out and the loop is still spinning.
\<close>

datatype sf_result = Sf_panic | Sf_pending | Sf_id u64 snowflake

fun sf_generate :: "snowflake \<Rightarrow> (u64 option \<times> bool) list \<Rightarrow> sf_result" where
  "sf_generate s [] = Sf_pending"
| "sf_generate s ((None, spurious) # rs) = Sf_panic"
| "sf_generate s ((Some now_ms, spurious) # rs) =
     (case sf_next (sf_current_ts s now_ms) (state s) of
        None \<Rightarrow> sf_generate s rs
      | Some new_state \<Rightarrow>
          if spurious then sf_generate s rs
          else Sf_id (sf_id (machine_id s) new_state) (s\<lparr>state := new_state\<rparr>))"

section \<open>Interleaved threads\<close>

datatype sf_pc = Idle | Clocked u64 | Loaded u64 u64

record sf_sys =
  shared :: snowflake
  pcs :: "nat \<Rightarrow> sf_pc"
  issued :: "u64 list"   \<comment> \<open>packed states handed out so far, latest first\<close>

definition sf_init :: "snowflake \<Rightarrow> sf_sys" where
  "sf_init s = \<lparr>shared = s, pcs = (\<lambda>_. Idle), issued = []\<rparr>"

inductive sf_step :: "(u64 \<Rightarrow> bool) \<Rightarrow> sf_sys \<Rightarrow> sf_sys \<Rightarrow> bool" for window where
  clock: "pcs s i = Idle \<Longrightarrow> ts = sf_current_ts (shared s) now_ms \<Longrightarrow> window ts \<Longrightarrow>
     sf_step window s (s\<lparr>pcs := (pcs s)(i := Clocked ts)\<rparr>)"
| load: "pcs s i = Clocked ts \<Longrightarrow>
     sf_step window s (s\<lparr>pcs := (pcs s)(i := Loaded ts (state (shared s)))\<rparr>)"
| exhausted: "pcs s i = Loaded ts old \<Longrightarrow> sf_next ts old = None \<Longrightarrow>
     sf_step window s (s\<lparr>pcs := (pcs s)(i := Idle)\<rparr>)"
| cas_fail: "pcs s i = Loaded ts old \<Longrightarrow> sf_next ts old = Some new \<Longrightarrow>
     sf_step window s (s\<lparr>pcs := (pcs s)(i := Idle)\<rparr>)"
| cas_ok: "pcs s i = Loaded ts old \<Longrightarrow> sf_next ts old = Some new \<Longrightarrow> state (shared s) = old \<Longrightarrow>
     sf_step window s (s\<lparr>shared := (shared s)\<lparr>state := new\<rparr>,
                         pcs := (pcs s)(i := Idle), issued := new # issued s\<rparr>)"

inductive sf_reachable :: "(u64 \<Rightarrow> bool) \<Rightarrow> snowflake \<Rightarrow> sf_sys \<Rightarrow> bool" for window g where
  start: "sf_reachable window g (sf_init g)"
| step: "sf_reachable window g s \<Longrightarrow> sf_step window s t \<Longrightarrow> sf_reachable window g t"

section \<open>The packed words as numbers\<close>

lemma unat_pack:
  fixes a b :: u64
  assumes "unat a < 2 ^ (64 - k)" and "unat b < 2 ^ k" and "k \<le> 64"
  shows "unat (push_bit k a OR b) = unat a * 2 ^ k + unat b"
proof -
  have "push_bit k (unat a) = unat a * 2 ^ k" by (simp add: push_bit_eq_mult)
  moreover have "unat a * 2 ^ k < 2 ^ 64"
    using assms(1,3) by (metis le_add_diff_inverse2 mult_less_cancel2 power_add zero_less_numeral zero_less_power)
  ultimately have 1: "unat (push_bit k a) = push_bit k (unat a)"
    by (simp add: unsigned_push_bit_eq take_bit_nat_eq_self)
  have b: "unat b = take_bit k (unat b)"
    using assms(2) by (simp add: take_bit_nat_eq_self)
  have "push_bit k (unat a) AND take_bit k (unat b) = 0"
    by (rule bit_eqI) (auto simp: bit_simps)
  then have "push_bit k (unat a) AND unat b = 0"
    using b by simp
  then have "push_bit k (unat a) OR unat b = push_bit k (unat a) + unat b"
    by (rule disjunctive_add_eq_or [symmetric])
  with 1 show ?thesis by (simp add: unsigned_or_eq push_bit_eq_mult)
qed

lemma unat_low_bits: "unat (w AND (mask n)) = unat w mod 2 ^ n" for w :: u64
  by (subst take_bit_eq_mask [symmetric], subst unsigned_take_bit_eq) (simp add: take_bit_eq_mod)

lemma low12: "unat (w AND 0xFFF) = unat w mod 4096" for w :: u64
  using unat_low_bits [of w 12] by (simp add: mask_eq_exp_minus_1)

lemma low40: "unat (w AND 0xFFFFFFFFFF) = unat w mod 2 ^ 40" for w :: u64
  using unat_low_bits [of w 40] by (simp add: mask_eq_exp_minus_1)

lemma low10: "unat (w AND 0x3FF) = unat w mod 1024" for w :: u64
  using unat_low_bits [of w 10] by (simp add: mask_eq_exp_minus_1)

lemma high52: "unat (drop_bit 12 w) = unat w div 4096" for w :: u64
  by (subst unat_drop_bit_eq) (simp add: drop_bit_eq_div)

lemma sf_next_ts:
  assumes "sf_next ts old = Some new" and "unat ts < 2 ^ 52"
  shows "unat new div 4096 = max (unat ts) (unat old div 4096)"
    and "unat old < unat new"
proof -
  have old: "unat old = unat old div 4096 * 4096 + unat old mod 4096" by simp
  have ts52: "unat old div 4096 < 2 ^ 52"
    using unat_less_pow [of old] by (simp add: less_mult_imp_div_less)
  have "unat new div 4096 = max (unat ts) (unat old div 4096) \<and> unat old < unat new"
  proof (cases "drop_bit 12 old < ts")
    case True
    then have "unat new = unat ts * 4096"
      using assms unat_pack [of ts 12 0] by (simp add: sf_next_def Let_def)
    moreover have "unat old div 4096 < unat ts"
      using True by (simp only: word_less_nat_alt high52)
    ultimately show ?thesis
      using div_less_iff_less_mult [of 4096 "unat old" "unat ts"] by simp
  next
    case False
    define seq where "seq = (old AND 0xFFF) + 1 AND (0xFFF :: u64)"
    have "unat (old AND 0xFFF) + 1 < 2 ^ 64" by (simp add: low12)
    then have "unat ((old AND 0xFFF) + 1) = unat old mod 4096 + 1"
      by (simp add: unat_word_ariths low12)
    then have seq: "unat seq = (unat old mod 4096 + 1) mod 4096"
      by (simp add: seq_def low12)
    from False assms(1) have "seq \<noteq> 0" and new: "new = push_bit 12 (drop_bit 12 old) OR seq"
      by (auto simp: sf_next_def seq_def Let_def split: if_splits)
    then have "unat seq \<noteq> 0" by (simp add: unat_eq_0)
    with seq have seq': "unat seq = unat old mod 4096 + 1"
      using mod_Suc [of "unat old mod 4096" 4096] by (simp split: if_splits)
    have "unat new = unat old div 4096 * 4096 + unat seq"
      using new unat_pack [of "drop_bit 12 old" 12 seq] ts52 seq by (simp add: high52)
    moreover have "unat seq < 4096" using seq by simp
    ultimately have "unat new div 4096 = unat old div 4096" and "unat old < unat new"
      using seq' old by (simp_all only: div_mult_self3 div_less)
    moreover have "unat ts \<le> unat old div 4096"
      using False by (simp only: word_less_nat_alt high52 not_less)
    ultimately show ?thesis by simp
  qed
  then show "unat new div 4096 = max (unat ts) (unat old div 4096)" and "unat old < unat new"
    by simp_all
qed

lemma unat_sf_id:
  "unat (sf_id m w) =
     (unat w div 4096) mod 2 ^ 40 * 2 ^ 22 + (unat w mod 4096) * 2 ^ 10 + unat m mod 1024"
proof -
  define hi where "hi = (drop_bit 12 w AND 0xFFFFFFFFFF)"
  define mid where "mid = ((w AND 0xFFF) AND (0xFFF :: u64))"
  define lo where "lo = (ucast m AND (0x3FF :: u64))"
  have hi: "unat hi = (unat w div 4096) mod 2 ^ 40" by (simp only: hi_def low40 high52)
  have mid: "unat mid = unat w mod 4096" by (simp add: mid_def low12)
  have lo: "unat lo = unat m mod 1024"
    using unat_less_pow [of m] by (simp add: lo_def low10 unsigned_ucast_eq take_bit_nat_eq_self)
  have 1: "unat (push_bit 10 mid OR lo) = unat mid * 2 ^ 10 + unat lo"
    by (rule unat_pack) (simp_all add: mid lo)
  then have "unat (push_bit 10 mid OR lo) < 2 ^ 22"
    using mid lo by simp
  then have "unat (push_bit 22 hi OR (push_bit 10 mid OR lo)) = unat hi * 2 ^ 22 + unat (push_bit 10 mid OR lo)"
    by (intro unat_pack) (simp_all add: hi)
  moreover have "sf_id m w = push_bit 22 hi OR (push_bit 10 mid OR lo)"
    by (simp add: sf_id_def hi_def mid_def lo_def Let_def or.assoc)
  ultimately show ?thesis using 1 hi mid lo by simp
qed

section \<open>Uniqueness under interleaving\<close>

definition in_window :: "nat \<Rightarrow> nat \<Rightarrow> u64 \<Rightarrow> bool" where
  "in_window lo hi ts = (lo \<le> unat ts \<and> unat ts < hi)"

definition sf_inv :: "nat \<Rightarrow> nat \<Rightarrow> sf_sys \<Rightarrow> bool" where
  "sf_inv lo hi s =
     ((case issued s of [] \<Rightarrow> state (shared s) = 0 | w # _ \<Rightarrow> state (shared s) = w)
      \<and> sorted_wrt (\<lambda>v w. unat w < unat v) (issued s)
      \<and> (\<forall>w \<in> set (issued s). lo \<le> unat w div 4096 \<and> unat w div 4096 < hi)
      \<and> (\<forall>i ts. (pcs s i = Clocked ts \<or> (\<exists>old. pcs s i = Loaded ts old)) \<longrightarrow> in_window lo hi ts))"

lemma sf_inv_init: "state g = 0 \<Longrightarrow> sf_inv lo hi (sf_init g)"
  by (simp add: sf_inv_def sf_init_def)

lemma sf_inv_pcs:
  assumes "sf_inv lo hi s" and "\<And>ts. pc = Clocked ts \<or> (\<exists>old. pc = Loaded ts old) \<Longrightarrow> in_window lo hi ts"
  shows "sf_inv lo hi (s\<lparr>pcs := (pcs s)(i := pc)\<rparr>)"
  using assms by (auto simp: sf_inv_def split: list.splits)

lemma sf_inv_issue:
  assumes inv: "sf_inv lo hi s" and hi: "hi \<le> 2 ^ 52"
    and pc: "pcs s i = Loaded ts (state (shared s))" and new: "sf_next ts (state (shared s)) = Some new"
  shows "sf_inv lo hi (s\<lparr>shared := (shared s)\<lparr>state := new\<rparr>,
                         pcs := (pcs s)(i := Idle), issued := new # issued s\<rparr>)"
proof -
  have ts: "lo \<le> unat ts" "unat ts < hi"
    using inv pc by (auto simp: sf_inv_def in_window_def)
  with hi have "unat ts < 2 ^ 52" by linarith
  note nxt = sf_next_ts [OF new this]
  have "unat (state (shared s)) div 4096 < hi"
    using inv ts by (auto simp: sf_inv_def split: list.splits)
  then have window: "lo \<le> unat new div 4096 \<and> unat new div 4096 < hi"
    using ts nxt(1) by simp
  have "\<forall>w \<in> set (issued s). unat w < unat new"
    using inv nxt(2) by (auto simp: sf_inv_def split: list.splits)
  with window inv show ?thesis by (auto simp: sf_inv_def)
qed

lemma sf_step_inv:
  assumes "sf_step (in_window lo hi) s t" and "sf_inv lo hi s" and "hi \<le> 2 ^ 52"
  shows "sf_inv lo hi t"
  using assms
proof (induction rule: sf_step.induct)
  case (load s i ts)
  then have "in_window lo hi ts" by (auto simp: sf_inv_def)
  with load show ?case by (auto intro!: sf_inv_pcs)
next
  case (cas_ok s i ts old new)
  then show ?case by (auto intro!: sf_inv_issue)
qed (auto intro!: sf_inv_pcs)

lemma sf_reachable_inv:
  assumes "sf_reachable (in_window lo hi) g s" and "state g = 0" and "hi \<le> 2 ^ 52"
  shows "sf_inv lo hi s"
  using assms by (induction rule: sf_reachable.induct) (auto intro: sf_inv_init sf_step_inv)

lemma digit_unique:
  fixes x y q a b :: nat
  assumes "x < q" and "y < q" and "a * q + x = b * q + y"
  shows "a = b \<and> x = y"
proof -
  have "a = (a * q + x) div q" using assms(1) by simp
  also have "\<dots> = b" using assms(2,3) by simp
  finally show ?thesis using assms(3) by simp
qed

lemma window_mod_le:
  fixes x y lo n :: nat
  assumes "lo \<le> x" and "y < lo + n" and "x \<le> y" and "x mod n = y mod n"
  shows "x = y"
proof -
  have "n dvd y - x" using assms(3,4) mod_eq_dvd_iff_nat [of x y n] by metis
  moreover have "y - x < n" using assms(1,2,3) by linarith
  ultimately have "y - x = 0" using dvd_imp_le not_less by blast
  with assms(3) show ?thesis by simp
qed

lemma window_mod_inj:
  fixes x y lo n :: nat
  assumes "lo \<le> x" "x < lo + n" "lo \<le> y" "y < lo + n" "x mod n = y mod n"
  shows "x = y"
  using window_mod_le [of lo x y n] window_mod_le [of lo y x n] assms by (metis linear)

lemma sf_id_inj:
  assumes eq: "sf_id m v = sf_id m w" and "hi \<le> lo + 2 ^ 40"
    and "lo \<le> unat v div 4096" "unat v div 4096 < hi" "lo \<le> unat w div 4096" "unat w div 4096 < hi"
  shows "v = w"
proof -
  define a b c d where "a = (unat v div 4096) mod 2 ^ 40" and "b = (unat w div 4096) mod 2 ^ 40"
    and "c = unat v mod 4096" and "d = unat w mod 4096"
  have "a * 2 ^ 22 + c * 2 ^ 10 = b * 2 ^ 22 + d * 2 ^ 10"
    using arg_cong [OF eq, of unat] unfolding unat_sf_id a_def b_def c_def d_def by simp
  then have "a * 4096 + c = b * 4096 + d" by simp
  moreover have "c < 4096" and "d < 4096" by (simp_all add: c_def d_def)
  ultimately have "a = b" and cd: "c = d" using digit_unique by blast+
  then have "unat v div 4096 = unat w div 4096"
    using window_mod_inj [of lo "unat v div 4096" "2 ^ 40" "unat w div 4096"] assms(2-6)
    unfolding a_def b_def by linarith
  with cd have "unat v = unat w" unfolding c_def d_def by (metis div_mult_mod_eq)
  then show ?thesis by (simp add: unsigned_word_eqI)
qed

lemma strictly_sorted_distinct: "sorted_wrt (\<lambda>v w. f w < (f v :: nat)) xs \<Longrightarrow> distinct xs"
  by (induction xs) auto

lemma sf_new_Some: "sf_new m start = Some g \<Longrightarrow> g = \<lparr>start_time = start, machine_id = m, state = 0\<rparr> \<and> unat m < 1024"
  by (auto simp: sf_new_def word_le_nat_alt not_le split: if_splits)

text \<open>C8: No two ids handed out by one generator coincide, and the packed states behind them
  strictly increase, however the clock reads, loads and compare-exchanges of any number of
  threads interleave; the only condition is that the timestamps used span at most the 40
  bits of the id's timestamp field (the generator of the pattern station starts at 1, so
  the field has already wrapped once today).\<close>

theorem sf_ids_unique:
  assumes "sf_new m start = Some g" and "sf_reachable (in_window lo hi) g s"
    and "hi \<le> 2 ^ 52" and "hi \<le> lo + 2 ^ 40"
  shows "distinct (map (sf_id m) (issued s)) \<and> sorted_wrt (\<lambda>v w. w < v) (issued s)"
proof -
  have "state g = 0" using sf_new_Some [OF assms(1)] by simp
  from sf_reachable_inv [OF assms(2) this assms(3)]
  have sorted: "sorted_wrt (\<lambda>v w. unat w < unat v) (issued s)"
    and window: "\<forall>w \<in> set (issued s). lo \<le> unat w div 4096 \<and> unat w div 4096 < hi"
    by (simp_all add: sf_inv_def)
  have "distinct (issued s)"
    using sorted by (rule strictly_sorted_distinct)
  moreover have "inj_on (sf_id m) (set (issued s))"
    by (rule inj_onI) (use window sf_id_inj [OF _ assms(4)] in blast)
  moreover have "sorted_wrt (\<lambda>v w. w < v) (issued s)"
    using sorted by (simp add: word_less_nat_alt)
  ultimately show ?thesis by (simp add: distinct_map)
qed

definition sf_demo :: snowflake where
  "sf_demo = \<lparr>start_time = 1, machine_id = 1, state = 0\<rparr>"

lemma sf_demo_run:
  "sf_reachable (in_window 0 (2 ^ 40)) sf_demo
     ((sf_init sf_demo)\<lparr>shared := sf_demo\<lparr>state := 16384\<rparr>,
        pcs := (\<lambda>_. Idle)(0 := Loaded 4 0, 1 := Idle), issued := [16384]\<rparr>)"
proof -
  let ?w = "in_window 0 (2 ^ 40)"
  let ?s0 = "sf_init sf_demo"
  let ?s1 = "?s0\<lparr>pcs := (pcs ?s0)(0 := Clocked 4)\<rparr>"
  let ?s2 = "?s1\<lparr>pcs := (pcs ?s1)(1 := Clocked 4)\<rparr>"
  let ?s3 = "?s2\<lparr>pcs := (pcs ?s2)(0 := Loaded 4 (state (shared ?s2)))\<rparr>"
  let ?s4 = "?s3\<lparr>pcs := (pcs ?s3)(1 := Loaded 4 (state (shared ?s3)))\<rparr>"
  let ?s5 = "?s4\<lparr>shared := (shared ?s4)\<lparr>state := 16384\<rparr>, pcs := (pcs ?s4)(1 := Idle), issued := 16384 # issued ?s4\<rparr>"
  have next1: "sf_next 4 0 = Some 16384" by (simp add: sf_next_def)
  have clk: "4 = sf_current_ts sf_demo 5" by (simp add: sf_current_ts_def saturating_sub_def sf_demo_def)
  have win: "?w 4" by (simp add: in_window_def)
  have "sf_reachable ?w sf_demo ?s1"
    by (rule sf_reachable.step [OF sf_reachable.start], rule sf_step.clock [of _ 0 _ 5])
      (use clk win in \<open>auto simp: sf_init_def\<close>)
  then have "sf_reachable ?w sf_demo ?s2"
    by (rule sf_reachable.step, intro sf_step.clock [of _ 1 _ 5])
      (use clk win in \<open>auto simp: sf_init_def\<close>)
  then have "sf_reachable ?w sf_demo ?s3"
    by (rule sf_reachable.step, intro sf_step.load) (simp add: sf_init_def)
  then have "sf_reachable ?w sf_demo ?s4"
    by (rule sf_reachable.step, intro sf_step.load) (simp add: sf_init_def)
  then have "sf_reachable ?w sf_demo ?s5"
    by (rule sf_reachable.step, intro sf_step.cas_ok [of _ _ 4 0])
      (simp_all add: sf_init_def sf_demo_def next1)
  moreover have "?s5 = (?s0\<lparr>shared := sf_demo\<lparr>state := 16384\<rparr>,
        pcs := (\<lambda>_. Idle)(0 := Loaded 4 0, 1 := Idle), issued := [16384]\<rparr>)"
    by (simp add: sf_init_def sf_demo_def fun_eq_iff)
  ultimately show ?thesis by simp
qed

text \<open>Witness of C8: two threads race, both load the initial state, the second one wins.\<close>

theorem sf_ids_unique_witness:
  "distinct (map (sf_id 1) [16384]) \<and> sorted_wrt (\<lambda>v w. w < v) [16384 :: u64]"
proof -
  have "sf_new 1 1 = Some sf_demo" by (simp add: sf_new_def sf_demo_def word_le_nat_alt)
  from sf_ids_unique [OF this sf_demo_run] show ?thesis by simp
qed

lemma sint_nonneg_if_small: "unat w < 2 ^ 63 \<Longrightarrow> 0 \<le> sint w" for w :: u64
proof -
  assume "unat w < 2 ^ 63"
  then have "uint w < 2 ^ 63" by (metis nat_less_iff nat_numeral nat_power_eq of_nat_less_numeral_power_cancel_iff uint_nat)
  then have "\<not> bit (uint w) 63" by (simp add: bit_iff_odd)
  then show ?thesis by (simp add: sint_uint)
qed

text \<open>The id's bit fields: the low ten bits are the machine id, the next twelve the
  sequence number, the upper ones the low forty bits of the timestamp; the sign bit of the
  \<open>i64\<close> stays clear, and generators with different machine ids never produce equal ids.\<close>

theorem sf_id_layout:
  assumes "sf_new m start = Some g" and "sf_new m' start' = Some g'"
  shows "unat (sf_id m w) mod 2 ^ 10 = unat m
    \<and> unat (sf_id m w) div 2 ^ 10 mod 2 ^ 12 = unat w mod 4096
    \<and> unat (sf_id m w) div 2 ^ 22 = unat w div 4096 mod 2 ^ 40
    \<and> 0 \<le> sint (sf_id m w)
    \<and> (m \<noteq> m' \<longrightarrow> sf_id m w \<noteq> sf_id m' w')"
proof -
  define hi mid lo q where "hi = unat w div 4096 mod 2 ^ 40" and "mid = unat w mod 4096"
    and "lo = unat m" and "q = hi * 4096 + mid"
  have m: "unat m < 1024" and m': "unat m' < 1024"
    using sf_new_Some [OF assms(1)] sf_new_Some [OF assms(2)] by simp_all
  have id: "unat (sf_id m w) = q * 1024 + lo"
    using m unfolding unat_sf_id q_def hi_def mid_def lo_def by simp
  have b: "hi < 2 ^ 40" "mid < 4096" "lo < 1024"
    using m unfolding hi_def mid_def lo_def by simp_all
  have mod: "unat (sf_id m w) mod 1024 = lo" and div: "unat (sf_id m w) div 1024 = q"
    unfolding id using b(3) by simp_all
  have "unat (sf_id m w) div 2 ^ 22 = unat (sf_id m w) div 1024 div 4096"
    by (simp add: div_mult2_eq [symmetric])
  with div b(2) have top: "unat (sf_id m w) div 2 ^ 22 = hi" and midq: "q mod 4096 = mid"
    by (simp_all add: q_def)
  have "unat (sf_id m w) < 2 ^ 63"
    unfolding id q_def using b by simp
  then have "0 \<le> sint (sf_id m w)"
    by (simp add: sint_nonneg_if_small)
  moreover have "unat (sf_id m' w') mod 1024 = unat m'"
    using m' unfolding unat_sf_id by (simp add: mod_add_eq [symmetric])
  ultimately show ?thesis
    using mod div top midq unfolding hi_def mid_def lo_def by (auto dest: unsigned_word_eqI)
qed

text \<open>An instance for the machines 1 and 2.\<close>

theorem sf_id_layout_witness:
  "unat (sf_id 1 16385) mod 2 ^ 10 = unat (1 :: u16)
    \<and> unat (sf_id 1 16385) div 2 ^ 10 mod 2 ^ 12 = unat (16385 :: u64) mod 4096
    \<and> unat (sf_id 1 16385) div 2 ^ 22 = unat (16385 :: u64) div 4096 mod 2 ^ 40
    \<and> 0 \<le> sint (sf_id 1 16385)
    \<and> sf_id 1 16385 \<noteq> sf_id 2 16385"
proof -
  have "sf_new 1 1 = Some sf_demo" and "sf_new 2 1 = Some (sf_demo\<lparr>machine_id := 2\<rparr>)"
    by (simp_all add: sf_new_def sf_demo_def word_le_nat_alt)
  moreover have "(1 :: u16) \<noteq> 2" by simp
  ultimately show ?thesis using sf_id_layout [of 1 1 sf_demo 2 1 "sf_demo\<lparr>machine_id := 2\<rparr>" 16385 16385] by blast
qed

text \<open>C25: The loop returns an id: as soon as a clock reading is later than the stored
  timestamp and the compare-exchange is not disturbed, \<open>generate\<close> answers, whatever
  readings came before, provided none of them was a clock error.\<close>

theorem sf_generate_returns:
  assumes "\<forall>r \<in> set before. fst r \<noteq> None"
    and "drop_bit 12 (state s) < sf_current_ts s now_ms"
  shows "\<exists>id s'. sf_generate s (before @ (Some now_ms, False) # later) = Sf_id id s'"
  using assms(1)
proof (induction before)
  case Nil
  with assms(2) show ?case by (simp add: sf_next_def Let_def)
next
  case (Cons r before)
  then show ?case by (cases r) (auto split: option.splits)
qed

text \<open>Witness of C25: the sequence number is exhausted, the clock ticks, an id comes out.\<close>

theorem sf_generate_returns_witness:
  "\<exists>id s'. sf_generate (sf_demo\<lparr>state := 20479\<rparr>) ([(Some 5, False), (Some 5, True)] @ (Some 6, False) # []) = Sf_id id s'"
  by (rule sf_generate_returns) (simp_all add: sf_current_ts_def saturating_sub_def sf_demo_def)

end
