(* ===== verification/Gossip.thy ===== *)
theory Gossip
  imports Prelude "HOL-Library.Product_Lexorder" "HOL-Library.Multiset"
begin

text \<open>
  The gossip layer of a cluster node (\<open>crates/opsense-mlib/src/gossip.rs\<close>): the info
  every node publishes, merged last-writer-wins by a Lamport version, and the node's view
  of its peers (\<open>Alive\<close>, \<open>Suspect\<close>, \<open>Dead\<close>). The two \<open>BTreeMap\<close>s are ordered maps,
  clocks and counters are machine words, and loops over a map are \<open>bt_map\<close> or folds in
  key order.
\<close>

section \<open>Published info\<close>

record version =
  lamport :: u64
  author :: string

definition version_new :: "u64 \<Rightarrow> string \<Rightarrow> version" where
  "version_new l a = \<lparr>lamport = l, author = a\<rparr>"

definition is_newer_than :: "version \<Rightarrow> version \<Rightarrow> bool" where
  "is_newer_than v w = ((lamport v, author v) > (lamport w, author w))"

record info =
  info_version :: string
  started_at :: u64
  info_note :: string

definition info_default :: info where
  "info_default = \<lparr>info_version = [], started_at = 0, info_note = []\<rparr>"

record info_state =
  clock :: u64
  entries :: "(string, info \<times> version) btree"

definition info_state_new :: info_state where
  "info_state_new = \<lparr>clock = 0, entries = []\<rparr>"

definition info_state_info :: "info_state \<Rightarrow> string \<Rightarrow> info option" where
  "info_state_info s node_id = map_option fst (bt_get (entries s) node_id)"

definition info_state_set_local :: "string \<Rightarrow> info \<Rightarrow> info_state \<Rightarrow> info_state" where
  "info_state_set_local node_id i s =
     (let l = saturating_add (clock s) 1
      in s\<lparr>clock := l, entries := bt_insert node_id (i, version_new l node_id) (entries s)\<rparr>)"

text \<open>One round of the merge loop, on the local entries and the \<open>changed\<close> flag.\<close>

fun merge_entry ::
    "string \<times> info \<times> version \<Rightarrow> (string, info \<times> version) btree \<times> bool
     \<Rightarrow> (string, info \<times> version) btree \<times> bool" where
  "merge_entry (node, i, v) (mine, changed) =
     (case bt_get mine node of
        None \<Rightarrow> (bt_insert node (i, v) mine, True)
      | Some (_, w) \<Rightarrow>
          if is_newer_than v w then (bt_insert node (i, v) mine, True) else (mine, changed))"

definition info_state_apply :: "info_state \<Rightarrow> info_state \<Rightarrow> bool \<times> info_state" where
  "info_state_apply remote s =
     (let l = max (clock s) (clock remote);
          (es, changed) = fold merge_entry (entries remote) (entries s, False)
      in (changed, \<lparr>clock = (if changed then saturating_add l 1 else l), entries = es\<rparr>))"

definition info_state_snapshot :: "info_state \<Rightarrow> (string, info) btree" where
  "info_state_snapshot s = bt_map (\<lambda>_. fst) (entries s)"

section \<open>The view of the mesh\<close>

datatype node_state = Alive | Suspect | Dead

record peer =
  peer_url :: string
  peer_state :: node_state
  last_seen_ms :: u64
  confirmations :: u32

record node_info =
  ni_node_id :: string
  ni_url :: string
  ni_alive :: bool
  ni_suspect :: bool
  ni_info :: info

record gossip =
  node_id :: string
  own_url :: string
  published :: info
  known :: info_state
  peers :: "(string, peer) btree"
  quorum :: u32
  settled_since_ms :: u64
  dirty :: bool

definition gossip_new :: "string \<Rightarrow> string \<Rightarrow> u32 \<Rightarrow> u64 \<Rightarrow> gossip" where
  "gossip_new nid url q now_ms =
     \<lparr>node_id = nid, own_url = url, published = info_default, known = info_state_new, peers = [],
      quorum = max q 1, settled_since_ms = now_ms, dirty = False\<rparr>"

definition is_settled :: "gossip \<Rightarrow> u64 \<Rightarrow> u64 \<Rightarrow> bool" where
  "is_settled g now_ms settle_secs =
     (saturating_sub now_ms (settled_since_ms g) \<ge> saturating_mul settle_secs 1000)"

definition publish :: "info \<Rightarrow> gossip \<Rightarrow> gossip" where
  "publish i g =
     g\<lparr>published := i, known := info_state_set_local (node_id g) i (known g), dirty := True\<rparr>"

definition gossip_apply :: "info_state \<Rightarrow> gossip \<Rightarrow> bool \<times> gossip" where
  "gossip_apply remote g =
     (let (changed, k) = info_state_apply remote (known g)
      in (changed, g\<lparr>known := k, dirty := dirty g \<or> changed\<rparr>))"

definition take_dirty :: "gossip \<Rightarrow> bool \<times> gossip" where
  "take_dirty g = (dirty g, g\<lparr>dirty := False\<rparr>)"

definition mark_alive :: "string \<Rightarrow> string \<Rightarrow> u64 \<Rightarrow> gossip \<Rightarrow> gossip" where
  "mark_alive url nid now_ms g =
     (if nid = node_id g then g
      else
        let fresh = \<lparr>peer_url = url, peer_state = Alive, last_seen_ms = now_ms, confirmations = 0\<rparr>;
            changed = (case bt_get (peers g) nid of Some p \<Rightarrow> peer_state p \<noteq> Alive | None \<Rightarrow> True);
            g' = g\<lparr>peers := bt_insert nid fresh (peers g)\<rparr>
        in if changed then g'\<lparr>settled_since_ms := now_ms\<rparr> else g')"

definition add_peer :: "string \<Rightarrow> string \<Rightarrow> u64 \<Rightarrow> gossip \<Rightarrow> gossip" where
  "add_peer url nid now_ms g = mark_alive url nid now_ms g"

definition nodes :: "gossip \<Rightarrow> node_info list" where
  "nodes g =
     sort_key ni_node_id
       (map (\<lambda>(nid, p). \<lparr>ni_node_id = nid, ni_url = peer_url p,
           ni_alive = (peer_state p = Alive), ni_suspect = (peer_state p = Suspect),
           ni_info = (case info_state_info (known g) nid of None \<Rightarrow> info_default | Some i \<Rightarrow> i)\<rparr>)
         (peers g))"

definition roster :: "gossip \<Rightarrow> node_info list" where
  "roster g =
     sort_key ni_node_id
       (\<lparr>ni_node_id = node_id g, ni_url = own_url g, ni_alive = True, ni_suspect = False,
         ni_info = published g\<rparr> # nodes g)"

definition handle_join :: "string \<Rightarrow> string \<Rightarrow> u64 \<Rightarrow> gossip \<Rightarrow> node_info list \<times> gossip" where
  "handle_join url nid now_ms g = (let g' = add_peer url nid now_ms g in (roster g', g'))"

definition is_stale :: "u64 \<Rightarrow> u64 \<Rightarrow> peer \<Rightarrow> bool" where
  "is_stale window_ms now_ms p =
     (peer_state p = Alive \<and> saturating_sub now_ms (last_seen_ms p) > window_ms)"

definition suspect_stale :: "u64 \<Rightarrow> u64 \<Rightarrow> gossip \<Rightarrow> string list \<times> gossip" where
  "suspect_stale window_ms now_ms g =
     (map fst (filter (\<lambda>(_, p). is_stale window_ms now_ms p) (peers g)),
      g\<lparr>peers := bt_map (\<lambda>_ p. if is_stale window_ms now_ms p
                             then p\<lparr>peer_state := Suspect, confirmations := 0\<rparr> else p) (peers g)\<rparr>)"

definition tick_suspects :: "u64 \<Rightarrow> u64 \<Rightarrow> gossip \<Rightarrow> string list \<times> gossip" where
  "tick_suspects window_ms now_ms g =
     (let (newly, g') = suspect_stale window_ms now_ms g
      in (newly, if newly \<noteq> [] then g'\<lparr>settled_since_ms := now_ms\<rparr> else g'))"

definition is_reapable :: "u32 \<Rightarrow> u64 \<Rightarrow> u64 \<Rightarrow> peer \<Rightarrow> bool" where
  "is_reapable q dead_after_ms now_ms p =
     (peer_state p = Suspect \<and>
      (saturating_sub now_ms (last_seen_ms p) > dead_after_ms \<or> confirmations p \<ge> q))"

definition tick_reap :: "u64 \<Rightarrow> u64 \<Rightarrow> gossip \<Rightarrow> string list \<times> gossip" where
  "tick_reap dead_after_ms now_ms g =
     (let reap = is_reapable (quorum g) dead_after_ms now_ms;
          newly = map fst (filter (\<lambda>(_, p). reap p) (peers g));
          g' = g\<lparr>peers := bt_map (\<lambda>_ p. if reap p then p\<lparr>peer_state := Dead\<rparr> else p) (peers g)\<rparr>
      in (newly, if newly \<noteq> [] then g'\<lparr>settled_since_ms := now_ms\<rparr> else g'))"

definition report_missing :: "string \<Rightarrow> string \<Rightarrow> gossip \<Rightarrow> gossip" where
  "report_missing reporter target g =
     (if (case bt_get (peers g) reporter of Some p \<Rightarrow> peer_state p = Dead | None \<Rightarrow> False) then g
      else case bt_get (peers g) target of
        None \<Rightarrow> g
      | Some p \<Rightarrow>
          if peer_state p = Suspect
          then g\<lparr>peers := bt_insert target (p\<lparr>confirmations := confirmations p + 1\<rparr>) (peers g)\<rparr>
          else g)"

definition probe_targets :: "gossip \<Rightarrow> string list" where
  "probe_targets g = map (\<lambda>(_, p). peer_url p) (filter (\<lambda>(_, p). peer_state p \<noteq> Dead) (peers g))"

definition alive_peers :: "gossip \<Rightarrow> string list" where
  "alive_peers g = map fst (filter (\<lambda>(nid, p). peer_state p = Alive \<and> nid \<noteq> node_id g) (peers g))"

definition dead_peers :: "gossip \<Rightarrow> string list" where
  "dead_peers g = map fst (filter (\<lambda>(_, p). peer_state p = Dead) (peers g))"

definition indirect_probe_targets :: "gossip \<Rightarrow> (string \<times> string) list" where
  "indirect_probe_targets g =
     (let suspects = map fst (filter (\<lambda>(_, p). peer_state p = Suspect) (peers g));
          reporters = map fst (filter (\<lambda>(nid, p). peer_state p = Alive \<and> nid \<noteq> node_id g) (peers g))
      in concat (map (\<lambda>suspect. map (\<lambda>reporter. (reporter, suspect))
                                    (filter (\<lambda>reporter. reporter \<noteq> suspect) reporters)) suspects))"

definition gossip_remove :: "string \<Rightarrow> gossip \<Rightarrow> gossip" where
  "gossip_remove nid g = g\<lparr>peers := bt_remove nid (peers g)\<rparr>"

section \<open>Last writer wins\<close>

text \<open>
  The merge of two optional records: the one with the newer version, the left one on a
  tie. The locale asks only that versions are totally ordered.
\<close>

fun lww_join :: "('v \<Rightarrow> 'v \<Rightarrow> bool) \<Rightarrow> ('a \<times> 'v) option \<Rightarrow> ('a \<times> 'v) option \<Rightarrow> ('a \<times> 'v) option" where
  "lww_join newer a None = a"
| "lww_join newer None b = b"
| "lww_join newer (Some (i, v)) (Some (j, w)) = (if newer w v then Some (j, w) else Some (i, v))"

definition lww_agree :: "('a \<times> 'v) option \<Rightarrow> ('a \<times> 'v) option \<Rightarrow> bool" where
  "lww_agree a b = (\<forall>i j v. a = Some (i, v) \<longrightarrow> b = Some (j, v) \<longrightarrow> i = j)"

locale lww =
  fixes newer :: "'v \<Rightarrow> 'v \<Rightarrow> bool"
  assumes newer_irrefl: "\<not> newer v v"
    and newer_trans: "newer u v \<Longrightarrow> newer v w \<Longrightarrow> newer u w"
    and newer_total: "newer v w \<or> v = w \<or> newer w v"
begin

lemma join_idem: "lww_join newer a a = a"
  by (cases "(newer, a, a)" rule: lww_join.cases) auto

lemma newer_asym: "newer v w \<Longrightarrow> \<not> newer w v"
  using newer_trans [of v w v] newer_irrefl by blast

lemma not_newer_eq: "\<not> newer v w \<Longrightarrow> \<not> newer w v \<Longrightarrow> v = w"
  using newer_total by blast

lemma newer_antimono: "newer w v \<Longrightarrow> \<not> newer w u \<Longrightarrow> newer u v"
  using newer_trans newer_total by blast

lemma join_commute:
  assumes "lww_agree a b"
  shows "lww_join newer a b = lww_join newer b a"
proof (cases "a = None \<or> b = None")
  case True
  then show ?thesis by (cases a; cases b) simp_all
next
  case False
  then obtain i v j w where eqs: "a = Some (i, v)" "b = Some (j, w)" by auto
  show ?thesis
  proof (cases "v = w")
    case True
    with assms eqs show ?thesis by (simp add: lww_agree_def)
  next
    case False
    with newer_total [of v w] newer_asym [of v w] newer_asym [of w v] eqs show ?thesis by auto
  qed
qed

lemma join_max:
  assumes "lww_join newer a x = Some (i, u)" and "\<not> newer u v"
    and "a = Some (j, w) \<or> x = Some (j, w)"
  shows "\<not> newer w v"
proof -
  have "\<not> newer w u"
    using assms(1,3) by (cases "(newer, a, x)" rule: lww_join.cases)
      (auto simp: newer_irrefl split: if_splits dest: newer_asym)
  with assms(2) show ?thesis using newer_antimono by blast
qed

lemma join_None: "lww_join newer a x = None \<Longrightarrow> a = None \<and> x = None"
  by (cases "(newer, a, x)" rule: lww_join.cases) (auto split: if_splits)

lemma join_mem: "lww_join newer a x = a \<or> lww_join newer a x = x"
  by (cases "(newer, a, x)" rule: lww_join.cases) auto

lemma fold_join_None:
  "fold (\<lambda>x a. lww_join newer a x) xs a = None \<Longrightarrow> \<forall>y \<in> set (a # xs). y = None"
proof (induction xs arbitrary: a)
  case Nil
  then show ?case by simp
next
  case (Cons x xs)
  from Cons.IH [of "lww_join newer a x"] Cons.prems have "lww_join newer a x = None"
    and rest: "\<forall>y \<in> set xs. y = None" by simp_all
  from join_None [OF this(1)] rest show ?case by simp
qed

lemma fold_join_mem:
  "fold (\<lambda>x a. lww_join newer a x) xs a \<in> set (a # xs)"
proof (induction xs arbitrary: a)
  case Nil
  then show ?case by simp
next
  case (Cons x xs)
  from Cons [of "lww_join newer a x"] join_mem [of a x] show ?case by auto
qed

lemma fold_join_max:
  "fold (\<lambda>x a. lww_join newer a x) xs a = Some (i, v) \<Longrightarrow> Some (j, w) \<in> set (a # xs) \<Longrightarrow> \<not> newer w v"
proof (induction xs arbitrary: a j w)
  case Nil
  then show ?case by (simp add: newer_irrefl)
next
  case (Cons x xs)
  let ?b = "lww_join newer a x"
  have f: "fold (\<lambda>x a. lww_join newer a x) xs ?b = Some (i, v)" using Cons.prems(1) by simp
  show ?case
  proof (cases "Some (j, w) \<in> set xs")
    case True
    with Cons.IH [OF f, of j w] show ?thesis by simp
  next
    case False
    with Cons.prems(2) have ax: "a = Some (j, w) \<or> x = Some (j, w)" by auto
    then obtain l u where b: "?b = Some (l, u)" using join_None [of a x] by (cases ?b) auto
    then have "\<not> newer u v" using Cons.IH [OF f, of l u] by simp
    with join_max [OF b] ax show ?thesis by blast
  qed
qed

lemma fold_join_unique:
  assumes eq: "set (a # xs) = set (b # ys)"
    and agree: "\<And>x y. x \<in> set (a # xs) \<Longrightarrow> y \<in> set (a # xs) \<Longrightarrow> lww_agree x y"
  shows "fold (\<lambda>x a. lww_join newer a x) xs a = fold (\<lambda>x a. lww_join newer a x) ys b"
    (is "?f = ?g")
proof -
  have f: "?f \<in> set (a # xs)" by (rule fold_join_mem)
  have g: "?g \<in> set (a # xs)" unfolding eq by (rule fold_join_mem)
  show ?thesis
  proof (cases "?f = None \<or> ?g = None")
    case True
    then show ?thesis
      using fold_join_None [of xs a] fold_join_None [of ys b] f g eq by metis
  next
    case False
    then obtain i v j w where fg: "?f = Some (i, v)" "?g = Some (j, w)" by auto
    have "\<not> newer w v" using fold_join_max [OF fg(1)] g fg(2) by simp
    moreover have "\<not> newer v w" using fold_join_max [OF fg(2)] f fg(1) eq by metis
    ultimately have "v = w" using not_newer_eq by blast
    moreover have "lww_agree ?f ?g" by (rule agree [OF f g])
    ultimately show ?thesis using fg by (simp add: lww_agree_def)
  qed
qed

end

interpretation lamport_order: lww is_newer_than
  by unfold_locales (auto simp: is_newer_than_def intro: version.equality)

section \<open>Merging info states\<close>

definition info_wf :: "info_state \<Rightarrow> bool" where
  "info_wf s = bt_wf (entries s)"

lemma merge_entry_get:
  "bt_get (fst (merge_entry (node, i, v) (es, c))) n =
     (if n = node then lww_join is_newer_than (bt_get es node) (Some (i, v)) else bt_get es n)"
  by (auto split: option.splits)

lemma merge_entry_wf: "bt_wf es \<Longrightarrow> bt_wf (fst (merge_entry e (es, c)))"
  by (cases e) (auto split: option.splits)

lemma fold_merge_entry_get:
  assumes "distinct (map fst rs)"
  shows "bt_get (fst (fold merge_entry rs (es, c))) n = lww_join is_newer_than (bt_get es n) (map_of rs n)"
  using assms
proof (induction rs arbitrary: es c)
  case Nil
  then show ?case by simp
next
  case (Cons r rs)
  obtain node i v where r: "r = (node, i, v)" by (cases r)
  obtain es' c' where m: "merge_entry r (es, c) = (es', c')" by fastforce
  have get: "bt_get es' n = (if n = node then lww_join is_newer_than (bt_get es node) (Some (i, v)) else bt_get es n)"
    using merge_entry_get [of node i v es c n] m r by simp
  moreover have "n = node \<Longrightarrow> map_of rs n = None"
    using Cons.prems r by (simp add: map_of_eq_None_iff)
  moreover have "fold merge_entry (r # rs) (es, c) = fold merge_entry rs (es', c')"
    by (simp only: fold_simps m)
  ultimately show ?case
    using Cons.IH [of es' c'] Cons.prems r by auto
qed

lemma fold_merge_entry_wf: "bt_wf es \<Longrightarrow> bt_wf (fst (fold merge_entry rs (es, c)))"
proof (induction rs arbitrary: es c)
  case Nil
  then show ?case by simp
next
  case (Cons r rs)
  from merge_entry_wf [OF Cons.prems, of r c] Cons.IH show ?case
    by (cases "merge_entry r (es, c)") simp
qed

lemma info_apply_get:
  assumes "info_wf remote"
  shows "bt_get (entries (snd (info_state_apply remote s))) n =
           lww_join is_newer_than (bt_get (entries s) n) (bt_get (entries remote) n)"
  using fold_merge_entry_get [OF bt_wf_distinct, of "entries remote" "entries s" False n] assms
  by (simp add: info_state_apply_def info_wf_def bt_get_def case_prod_beta Let_def)

lemma info_apply_wf: "info_wf s \<Longrightarrow> info_wf (snd (info_state_apply remote s))"
  using fold_merge_entry_wf [of "entries s" "entries remote" False]
  by (simp add: info_state_apply_def info_wf_def case_prod_beta Let_def)

definition info_apply_all :: "info_state list \<Rightarrow> info_state \<Rightarrow> info_state" where
  "info_apply_all rs s = fold (\<lambda>r s. snd (info_state_apply r s)) rs s"

lemma info_apply_all_get:
  assumes "\<forall>r \<in> set rs. info_wf r"
  shows "bt_get (entries (info_apply_all rs s)) n =
    fold (\<lambda>x a. lww_join is_newer_than a x) (map (\<lambda>r. bt_get (entries r) n) rs) (bt_get (entries s) n)"
  using assms unfolding info_apply_all_def
  by (induction rs arbitrary: s) (simp_all add: info_apply_get)

lemma info_apply_all_wf: "info_wf s \<Longrightarrow> info_wf (info_apply_all rs s)"
  unfolding info_apply_all_def by (induction rs arbitrary: s) (simp_all add: info_apply_wf)

text \<open>
  The versions in circulation identify what they were written for: two copies of one
  node's record with the same version carry the same info.
\<close>

definition info_consistent :: "info_state set \<Rightarrow> bool" where
  "info_consistent S =
     (\<forall>r \<in> S. \<forall>r' \<in> S. \<forall>n. lww_agree (bt_get (entries r) n) (bt_get (entries r') n))"

text \<open>Merging is independent of the order and of repetitions, for states in which versions identify
  infos.\<close>

lemma info_convergence:
  assumes "\<forall>r \<in> set (s # rs). info_wf r" and "set (s # rs) = set (t # ts)"
    and "info_consistent (set (s # rs))"
  shows "entries (info_apply_all rs s) = entries (info_apply_all ts t)
    \<and> info_state_snapshot (info_apply_all rs s) = info_state_snapshot (info_apply_all ts t)"
proof -
  have "\<forall>r \<in> set (t # ts). info_wf r" using assms(1) unfolding assms(2) .
  with assms(1) have wf: "\<forall>r \<in> set rs. info_wf r" "\<forall>r \<in> set ts. info_wf r" "info_wf s" "info_wf t"
    by simp_all
  have "entries (info_apply_all rs s) = entries (info_apply_all ts t)"
  proof (rule bt_ext)
    fix n
    let ?g = "\<lambda>r. bt_get (entries r) n"
    have "set (?g s # map ?g rs) = ?g ` set (s # rs)" by simp
    also have "\<dots> = set (?g t # map ?g ts)" unfolding assms(2) by simp
    finally have "set (?g s # map ?g rs) = set (?g t # map ?g ts)" .
    moreover have "lww_agree x y" if "x \<in> set (?g s # map ?g rs)" "y \<in> set (?g s # map ?g rs)" for x y
      using that assms(3) by (auto simp: info_consistent_def)
    ultimately show "?g (info_apply_all rs s) = ?g (info_apply_all ts t)"
      unfolding info_apply_all_get [OF wf(1)] info_apply_all_get [OF wf(2)]
      by (rule lamport_order.fold_join_unique)
  qed (use wf info_apply_all_wf in \<open>simp_all add: info_wf_def\<close>)
  then show ?thesis by (simp add: info_state_snapshot_def)
qed

text \<open>
  A node's clock bounds every version it holds, which is what makes a new publication
  newer than all of them.
\<close>

definition clock_bounds :: "u64 \<Rightarrow> info_state \<Rightarrow> bool" where
  "clock_bounds l s = (\<forall>n i v. bt_get (entries s) n = Some (i, v) \<longrightarrow> lamport v \<le> l)"

lemma clock_bounds_apply:
  assumes "info_wf remote" and "clock_bounds (clock s) s" and "clock_bounds (clock remote) remote"
  shows "clock_bounds (clock (snd (info_state_apply remote s))) (snd (info_state_apply remote s))"
proof -
  let ?l = "max (clock s) (clock remote)"
  have "?l \<le> clock (snd (info_state_apply remote s))"
    using saturating_add_ge [of ?l 1] by (simp add: info_state_apply_def case_prod_beta Let_def del: max.bounded_iff)
  moreover have "lamport v \<le> ?l"
    if "bt_get (entries (snd (info_state_apply remote s))) n = Some (i, v)" for n i v
    using that assms(2,3) lamport_order.join_mem [of "bt_get (entries s) n" "bt_get (entries remote) n"]
    unfolding info_apply_get [OF assms(1)] clock_bounds_def by (metis le_max_iff_disj)
  ultimately show ?thesis by (meson clock_bounds_def order_trans)
qed

text \<open>C22: A node's own publication wins: as long as the Lamport clock has not saturated, info
  published now is what every later merge keeps for that node, on condition that the
  merged states carry no version of it beyond the publisher's clock.\<close>

theorem gossip_publish_wins:
  assumes "info_wf s" and "clock s < - 1"
    and "\<forall>r \<in> set rs. info_wf r \<and> (\<forall>j v. bt_get (entries r) n = Some (j, v) \<longrightarrow> lamport v \<le> clock s)"
  shows "info_state_info (info_apply_all rs (info_state_set_local n i s)) n = Some i"
proof -
  let ?s = "info_state_set_local n i s"
  let ?g = "\<lambda>r. bt_get (entries r) n"
  let ?v = "version_new (saturating_add (clock s) 1) n"
  have own: "?g ?s = Some (i, ?v)" by (simp add: info_state_set_local_def Let_def)
  have "unat (clock s) < 2 ^ 64 - 1"
    using assms(2) by (simp add: word_less_nat_alt unat_minus_one_word)
  then have "clock s < saturating_add (clock s) 1"
    by (simp add: word_less_nat_alt unat_saturating_add)
  then have newer: "is_newer_than ?v v" if "lamport v \<le> clock s" for v
    using le_less_trans [OF that] unfolding is_newer_than_def version_new_def
    by (simp add: less_prod_def)
  have "fold (\<lambda>x a. lww_join is_newer_than a x) xs (Some (i, ?v)) = Some (i, ?v)"
    if "\<forall>x \<in> set xs. \<forall>j v. x = Some (j, v) \<longrightarrow> lamport v \<le> clock s" for xs
    using that
  proof (induction xs)
    case Nil
    then show ?case by simp
  next
    case (Cons x xs)
    then have "lww_join is_newer_than (Some (i, ?v)) x = Some (i, ?v)"
      using newer lamport_order.newer_asym by (cases x) auto
    with Cons show ?case by simp
  qed
  from this [of "map ?g rs"] have "?g (info_apply_all rs ?s) = Some (i, ?v)"
    using assms(3) own by (simp add: info_apply_all_get)
  then show ?thesis by (simp add: info_state_info_def)
qed

text \<open>Witness of C22: an older publication of the same node is still in circulation.\<close>

theorem gossip_publish_wins_witness:
  "let old = info_state_set_local ''a'' info_default info_state_new
   in info_state_info (info_apply_all [old]
        (info_state_set_local ''a'' (info_default\<lparr>started_at := 7\<rparr>) old)) ''a'' = Some (info_default\<lparr>started_at := 7\<rparr>)"
  unfolding Let_def
  by (rule gossip_publish_wins)
    (auto simp: info_wf_def info_state_set_local_def info_state_new_def Let_def bt_wf_Cons
      bt_get_def saturating_add_def version_new_def word_less_nat_alt unat_minus_one_word
      split: if_splits)

section \<open>The peer state machine\<close>

datatype gossip_op =
    Publish info
  | Apply info_state
  | Take_dirty
  | Mark_alive string string u64
  | Join string string u64
  | Tick_suspects u64 u64
  | Tick_reap u64 u64
  | Report_missing string string
  | Remove string

fun gossip_exec :: "gossip_op \<Rightarrow> gossip \<Rightarrow> gossip" where
  "gossip_exec (Publish i) g = publish i g"
| "gossip_exec (Apply r) g = snd (gossip_apply r g)"
| "gossip_exec Take_dirty g = snd (take_dirty g)"
| "gossip_exec (Mark_alive url nid now) g = mark_alive url nid now g"
| "gossip_exec (Join url nid now) g = snd (handle_join url nid now g)"
| "gossip_exec (Tick_suspects w now) g = snd (tick_suspects w now g)"
| "gossip_exec (Tick_reap d now) g = snd (tick_reap d now g)"
| "gossip_exec (Report_missing r t) g = report_missing r t g"
| "gossip_exec (Remove nid) g = gossip_remove nid g"

definition peer_of :: "gossip \<Rightarrow> string \<Rightarrow> peer option" where
  "peer_of g nid = bt_get (peers g) nid"

lemma peer_of_frame [simp]:
  "peer_of (publish i g) n = peer_of g n" "peer_of (snd (gossip_apply r g)) n = peer_of g n"
  "peer_of (snd (take_dirty g)) n = peer_of g n"
  by (simp_all add: peer_of_def publish_def gossip_apply_def take_dirty_def case_prod_beta Let_def)

lemma snd_handle_join [simp]: "snd (handle_join url nid now g) = mark_alive url nid now g"
  by (simp add: handle_join_def add_peer_def Let_def)

lemma node_id_mark_alive [simp]: "node_id (mark_alive url nid now g) = node_id g"
  by (simp add: mark_alive_def Let_def)

lemma peer_of_mark_alive:
  "peer_of (mark_alive url nid now g) n =
     (if n = nid \<and> nid \<noteq> node_id g
      then Some \<lparr>peer_url = url, peer_state = Alive, last_seen_ms = now, confirmations = 0\<rparr>
      else peer_of g n)"
  by (auto simp: mark_alive_def peer_of_def Let_def)

lemma peer_of_tick_suspects:
  "peer_of (snd (tick_suspects w now g)) n =
     map_option (\<lambda>p. if is_stale w now p then p\<lparr>peer_state := Suspect, confirmations := 0\<rparr> else p)
       (peer_of g n)"
  by (simp add: tick_suspects_def suspect_stale_def peer_of_def Let_def)

lemma peer_of_tick_reap:
  "peer_of (snd (tick_reap d now g)) n =
     map_option (\<lambda>p. if is_reapable (quorum g) d now p then p\<lparr>peer_state := Dead\<rparr> else p) (peer_of g n)"
  by (simp add: tick_reap_def peer_of_def Let_def)

lemma peer_of_report_missing:
  "peer_of (report_missing r t g) n =
     map_option (\<lambda>p. if n = t \<and> peer_state p = Suspect \<and>
                       \<not> (\<exists>q. peer_of g r = Some q \<and> peer_state q = Dead)
                     then p\<lparr>confirmations := confirmations p + 1\<rparr> else p) (peer_of g n)"
  by (cases "bt_get (peers g) n") (auto simp: report_missing_def peer_of_def split: option.splits)

lemma peer_of_remove: "peer_of (gossip_remove nid g) n = (if n = nid then None else peer_of g n)"
  by (simp add: gossip_remove_def peer_of_def)

lemmas peer_of_simps = peer_of_mark_alive peer_of_tick_suspects peer_of_tick_reap
  peer_of_report_missing peer_of_remove

lemma node_id_exec [simp]: "node_id (gossip_exec op g) = node_id g"
  by (cases op) (auto simp: publish_def gossip_apply_def take_dirty_def mark_alive_def handle_join_def
      add_peer_def tick_suspects_def suspect_stale_def tick_reap_def report_missing_def
      gossip_remove_def case_prod_beta Let_def split: option.splits)

lemma quorum_exec [simp]: "quorum (gossip_exec op g) = quorum g"
  by (cases op) (auto simp: publish_def gossip_apply_def take_dirty_def mark_alive_def handle_join_def
      add_peer_def tick_suspects_def suspect_stale_def tick_reap_def report_missing_def
      gossip_remove_def case_prod_beta Let_def split: option.splits)

definition gossip_inv :: "gossip \<Rightarrow> bool" where
  "gossip_inv g = (bt_wf (peers g) \<and> bt_wf (entries (known g)) \<and> bt_get (peers g) (node_id g) = None
     \<and> 1 \<le> quorum g)"

lemma gossip_inv_new: "gossip_inv (gossip_new nid url q now)"
  by (simp add: gossip_inv_def gossip_new_def info_state_new_def)

lemma gossip_inv_exec: "gossip_inv g \<Longrightarrow> gossip_inv (gossip_exec op g)"
proof (cases op)
  case (Apply r)
  assume "gossip_inv g"
  with Apply info_apply_wf [of "known g" r] show ?thesis
    by (simp add: gossip_inv_def gossip_apply_def info_wf_def case_prod_beta Let_def)
next
  case (Report_missing r t)
  assume "gossip_inv g"
  with Report_missing show ?thesis
    by (auto simp: gossip_inv_def report_missing_def split: option.splits)
qed (auto simp: mark_alive_def handle_join_def add_peer_def gossip_inv_def publish_def
    info_state_set_local_def take_dirty_def tick_suspects_def suspect_stale_def tick_reap_def
    gossip_remove_def Let_def)

text \<open>C17: The failure detector takes no shortcut: whatever operation runs, a peer leaves the view
  only by its own removal and enters it only alive, by an answer or a join under its id; it turns
  suspect only from alive, at a tick past the window since it was last seen; it turns dead only
  from suspect, at a tick past the second window or with a quorum of reports; and from any state
  it comes back to alive only by an answer or a join under its id.\<close>

theorem peer_transitions:
  "case (peer_of g n, peer_of (gossip_exec op g) n) of
     (None, None) \<Rightarrow> True
   | (Some _, None) \<Rightarrow> op = Remove n
   | (None, Some q) \<Rightarrow> peer_state q = Alive \<and> (\<exists>url now. op = Mark_alive url n now \<or> op = Join url n now)
   | (Some p, Some q) \<Rightarrow>
       peer_state q = peer_state p
       \<or> peer_state q = Alive \<and> (\<exists>url now. op = Mark_alive url n now \<or> op = Join url n now)
       \<or> peer_state p = Alive \<and> peer_state q = Suspect \<and>
           (\<exists>w now. op = Tick_suspects w now \<and> unat now > unat (last_seen_ms p) + unat w)
       \<or> peer_state p = Suspect \<and> peer_state q = Dead \<and>
           (\<exists>d now. op = Tick_reap d now \<and>
              (unat now > unat (last_seen_ms p) + unat d \<or> quorum g \<le> confirmations p))"
proof (cases op)
  case (Tick_suspects w now)
  then show ?thesis
    by (auto simp: peer_of_simps is_stale_def word_less_nat_alt unat_saturating_sub split: option.splits)
next
  case (Tick_reap d now)
  then show ?thesis
    by (auto simp: peer_of_simps is_reapable_def word_less_nat_alt unat_saturating_sub split: option.splits)
qed (auto simp: peer_of_simps split: option.splits if_splits)

definition gossip_run :: "gossip_op list \<Rightarrow> gossip \<Rightarrow> gossip" where
  "gossip_run ops g = fold gossip_exec ops g"

text \<open>
  The operations of a schedule that does not give up on \<open>n\<close> within the window: no tick finds
  \<open>n\<close> silent for longer than its window since \<open>t\<close>, no older answer overwrites the one at \<open>t\<close>,
  and \<open>n\<close> does not leave.
\<close>

fun within_window :: "string \<Rightarrow> u64 \<Rightarrow> gossip_op \<Rightarrow> bool" where
  "within_window n t (Tick_suspects w now) = (unat now \<le> unat t + unat w)"
| "within_window n t (Mark_alive url nid now) = (nid = n \<longrightarrow> t \<le> now)"
| "within_window n t (Join url nid now) = (nid = n \<longrightarrow> t \<le> now)"
| "within_window n t (Remove nid) = (nid \<noteq> n)"
| "within_window n t op = True"

definition seen_since :: "u64 \<Rightarrow> peer option \<Rightarrow> bool" where
  "seen_since t p = (case p of None \<Rightarrow> False | Some p \<Rightarrow> peer_state p = Alive \<and> t \<le> last_seen_ms p)"

lemma seen_since_exec:
  assumes "seen_since t (peer_of g n)" and "within_window n t op"
  shows "seen_since t (peer_of (gossip_exec op g) n)"
proof (cases op)
  case (Tick_suspects w now)
  with assms show ?thesis
    by (auto simp: seen_since_def peer_of_simps is_stale_def word_less_nat_alt word_le_nat_alt
        unat_saturating_sub split: option.splits)
next
  case (Tick_reap d now)
  with assms show ?thesis
    by (auto simp: seen_since_def peer_of_simps is_reapable_def split: option.splits)
qed (use assms in \<open>auto simp: seen_since_def peer_of_simps split: option.splits if_splits\<close>)

lemma seen_since_run:
  "seen_since t (peer_of g n) \<Longrightarrow> \<forall>op \<in> set ops. within_window n t op
   \<Longrightarrow> seen_since t (peer_of (gossip_run ops g) n)"
  unfolding gossip_run_def by (induction ops arbitrary: g) (simp_all add: seen_since_exec)

lemma seen_since_alive:
  assumes "gossip_inv g" and "seen_since t (peer_of g n)"
  shows "n \<in> set (alive_peers g)"
proof -
  obtain p where p: "bt_get (peers g) n = Some p" "peer_state p = Alive"
    using assms(2) by (auto simp: seen_since_def peer_of_def split: option.splits)
  with assms(1) have "(n, p) \<in> set (peers g)" by (simp add: gossip_inv_def bt_get_Some_iff)
  moreover have "n \<noteq> node_id g" using assms(1) p(1) by (auto simp: gossip_inv_def)
  ultimately show ?thesis using p(2) by (force simp: alive_peers_def)
qed

lemma gossip_inv_run: "gossip_inv g \<Longrightarrow> gossip_inv (gossip_run ops g)"
  unfolding gossip_run_def by (induction ops arbitrary: g) (simp_all add: gossip_inv_exec)

text \<open>C21: No false suspicion: from the moment a peer answers, through any interleaving of
  operations in which every suspicion tick falls within its window of that answer, the peer
  stays in the list of live peers, whatever other nodes report about it.\<close>

theorem gossip_no_false_suspicion:
  assumes "gossip_inv g" and "n \<noteq> node_id g" and "\<forall>op \<in> set ops. within_window n t op"
  shows "n \<in> set (alive_peers (gossip_run (Mark_alive url n t # ops) g))"
proof (rule seen_since_alive [where t = t])
  show "gossip_inv (gossip_run (Mark_alive url n t # ops) g)"
    by (rule gossip_inv_run [OF assms(1)])
  have "seen_since t (peer_of (mark_alive url n t g) n)"
    using assms(2) by (simp add: seen_since_def peer_of_simps)
  from seen_since_run [OF this assms(3)]
  show "seen_since t (peer_of (gossip_run (Mark_alive url n t # ops) g) n)"
    by (simp add: gossip_run_def)
qed

text \<open>Witness of C21: two reports and two ticks inside a window of ten milliseconds.\<close>

theorem gossip_no_false_suspicion_witness:
  "''b'' \<in> set (alive_peers (gossip_run
     [Mark_alive ''u'' ''b'' 5, Report_missing ''c'' ''b'', Tick_suspects 10 15,
      Report_missing ''c'' ''b'', Tick_reap 1 15] (gossip_new ''a'' ''v'' 1 0)))"
  by (rule gossip_no_false_suspicion [OF gossip_inv_new]) (auto simp: gossip_new_def)

lemma report_missing_repeat:
  assumes "peer_of g t = Some p" and "peer_state p = Suspect"
    and "\<forall>q. peer_of g r = Some q \<longrightarrow> peer_state q \<noteq> Dead"
  shows "peer_of ((report_missing r t ^^ k) g) t = Some (p\<lparr>confirmations := confirmations p + of_nat k\<rparr>)
    \<and> (\<forall>q. peer_of ((report_missing r t ^^ k) g) r = Some q \<longrightarrow> peer_state q \<noteq> Dead)
    \<and> quorum ((report_missing r t ^^ k) g) = quorum g"
proof (induction k)
  case 0
  with assms show ?case by simp
next
  case (Suc k)
  let ?g = "(report_missing r t ^^ k) g"
  have "quorum (report_missing r t ?g) = quorum ?g"
    using quorum_exec [of "Report_missing r t" ?g] by simp
  with Suc assms(2) show ?case
    by (auto simp: peer_of_report_missing split: if_splits)
qed

text \<open>Reports are counted per message, not per peer: a single reporter that repeats its
  report as often as the quorum asks makes the next reap declare the target dead, however
  recently it was seen. (The field is documented as the number of peers that reported.)\<close>

theorem gossip_single_reporter_quorum:
  assumes "gossip_inv g" and "peer_of g t = Some p" and "peer_state p = Suspect"
    and "confirmations p = 0" and "peer_of g r = Some q" and "peer_state q = Alive"
  shows "t \<in> set (dead_peers (snd (tick_reap dead_after now
           ((report_missing r t ^^ unat (quorum g)) g))))"
proof -
  let ?g = "(report_missing r t ^^ unat (quorum g)) g"
  have exec: "gossip_exec (Report_missing r t) = report_missing r t" by (rule ext) simp
  have ops: "(report_missing r t ^^ k) g = gossip_run (replicate k (Report_missing r t)) g" for k
    unfolding gossip_run_def by (simp add: fold_replicate flip: exec)
  have "gossip_inv ?g" unfolding ops by (rule gossip_inv_run [OF assms(1)])
  then have inv: "gossip_inv (snd (tick_reap dead_after now ?g))"
    using gossip_inv_exec [of ?g "Tick_reap dead_after now"] by simp
  have "peer_of ?g t = Some (p\<lparr>confirmations := quorum g\<rparr>)" and "quorum ?g = quorum g"
    using report_missing_repeat [OF assms(2,3), of r "unat (quorum g)"] assms(4-6) by auto
  then have "peer_of (snd (tick_reap dead_after now ?g)) t = Some (p\<lparr>confirmations := quorum g, peer_state := Dead\<rparr>)"
    using assms(3) by (simp add: peer_of_tick_reap is_reapable_def)
  then have "(t, p\<lparr>confirmations := quorum g, peer_state := Dead\<rparr>) \<in> set (peers (snd (tick_reap dead_after now ?g)))"
    using inv by (simp add: peer_of_def gossip_inv_def bt_get_Some_iff)
  then show ?thesis by (force simp: dead_peers_def)
qed

text \<open>An instance: with a quorum of two and two live peers, the first peer reports the second
  twice and it is declared dead five milliseconds after it was last seen.\<close>

theorem gossip_single_reporter_quorum_witness:
  "let g = gossip_run [Mark_alive ''u'' ''b'' 10, Mark_alive ''v'' ''c'' 14, Tick_suspects 3 15]
             (gossip_new ''a'' ''w'' 2 0)
   in ''b'' \<in> set (dead_peers (snd (tick_reap 1000 15
        ((report_missing ''c'' ''b'' ^^ unat (quorum g)) g))))"
  unfolding Let_def
  by (rule gossip_single_reporter_quorum
      [where p = "\<lparr>peer_url = ''u'', peer_state = Suspect, last_seen_ms = 10, confirmations = 0\<rparr>"
         and q = "\<lparr>peer_url = ''v'', peer_state = Alive, last_seen_ms = 14, confirmations = 0\<rparr>",
       OF gossip_inv_run [OF gossip_inv_new]])
    (simp_all add: gossip_run_def peer_of_simps is_stale_def gossip_new_def saturating_sub_def
      word_less_nat_alt word_le_nat_alt)

end
