(* ===== verification/Gossip_Mesh.thy ===== *)
theory Gossip_Mesh
  imports Gossip
begin

text \<open>
  Many nodes: every node runs the operations of \<open>Gossip\<close>, and the states they send may be lost,
  repeated and delivered in any order. Nodes do not restart under their old id, and a node
  publishes only while its Lamport clock has not saturated; what happens otherwise is shown at the
  end.
\<close>

section \<open>Runs of a mesh\<close>

record mesh =
  mesh_node :: "string \<Rightarrow> gossip"
  in_flight :: "info_state set"

definition mesh_start :: "(string \<Rightarrow> string) \<Rightarrow> (string \<Rightarrow> u32) \<Rightarrow> (string \<Rightarrow> u64) \<Rightarrow> mesh" where
  "mesh_start url q now = \<lparr>mesh_node = (\<lambda>n. gossip_new n (url n) (q n) (now n)), in_flight = {}\<rparr>"

text \<open>Publications need room on the clock, and what is merged was sent.\<close>

definition may_exec :: "gossip_op \<Rightarrow> gossip \<Rightarrow> info_state set \<Rightarrow> bool" where
  "may_exec op g sent = (case op of Publish i \<Rightarrow> clock (known g) < - 1 | Apply r \<Rightarrow> r \<in> sent | _ \<Rightarrow> True)"

inductive mesh_step :: "mesh \<Rightarrow> mesh \<Rightarrow> bool" where
  step_send: "mesh_step m (m\<lparr>in_flight := insert (known (mesh_node m n)) (in_flight m)\<rparr>)"
| step_exec: "may_exec op (mesh_node m n) (in_flight m) \<Longrightarrow>
    mesh_step m (m\<lparr>mesh_node := (mesh_node m)(n := gossip_exec op (mesh_node m n))\<rparr>)"

inductive mesh_reach :: "mesh \<Rightarrow> bool" where
  mesh_init: "mesh_reach (mesh_start url q now)"
| mesh_next: "mesh_reach m \<Longrightarrow> mesh_step m m' \<Longrightarrow> mesh_reach m'"

section \<open>Versions identify infos\<close>

declare gossip_exec.simps [simp del]

definition states :: "mesh \<Rightarrow> info_state set" where
  "states m = range (\<lambda>n. known (mesh_node m n)) \<union> in_flight m"

text \<open>Every version of a node's info carries its name and is covered by its clock.\<close>

definition versions_ok :: "(string \<Rightarrow> gossip) \<Rightarrow> info_state \<Rightarrow> bool" where
  "versions_ok N r = (info_wf r \<and> (\<forall>n i v. bt_get (entries r) n = Some (i, v) \<longrightarrow> author v = n \<and> lamport v \<le> clock (known (N n))))"

definition mesh_inv :: "mesh \<Rightarrow> bool" where
  "mesh_inv m = ((\<forall>n. node_id (mesh_node m n) = n) \<and> (\<forall>r \<in> states m. versions_ok (mesh_node m) r) \<and> info_consistent (states m))"

lemma known_exec:
  "known (gossip_exec op g) =
     (case op of Publish i \<Rightarrow> info_state_set_local (node_id g) i (known g)
      | Apply r \<Rightarrow> snd (info_state_apply r (known g)) | _ \<Rightarrow> known g)"
  by (cases op) (auto simp: gossip_exec.simps publish_def gossip_apply_def take_dirty_def mark_alive_def tick_suspects_def suspect_stale_def
      tick_reap_def report_missing_def gossip_remove_def case_prod_beta Let_def split: option.splits)

lemma lww_agree_sym: "lww_agree a b = lww_agree b a"
  by (auto simp: lww_agree_def)

lemma consistentD: "info_consistent S \<Longrightarrow> r \<in> S \<Longrightarrow> r' \<in> S \<Longrightarrow> lww_agree (bt_get (entries r) n) (bt_get (entries r') n)"
  by (simp add: info_consistent_def)

lemma consistent_insert:
  assumes "info_consistent S" and "\<And>r n. r \<in> S \<Longrightarrow> lww_agree (bt_get (entries k) n) (bt_get (entries r) n)"
  shows "info_consistent (insert k S)"
  using assms by (auto simp: info_consistent_def lww_agree_sym) (auto simp: lww_agree_def)

lemma versions_ok_mono:
  "versions_ok N r \<Longrightarrow> (\<And>n. clock (known (N n)) \<le> clock (known (N' n))) \<Longrightarrow> versions_ok N' r"
  unfolding versions_ok_def by (meson order_trans)

text \<open>A step that gives a node a new state, which fits the circulating ones.\<close>

lemma mesh_inv_update:
  assumes inv: "mesh_inv m" and id: "node_id g' = n"
    and clock: "clock (known (mesh_node m n)) \<le> clock (known g')"
    and ok: "versions_ok ((mesh_node m)(n := g')) (known g')"
    and agree: "\<And>r x. r \<in> states m \<Longrightarrow> lww_agree (bt_get (entries (known g')) x) (bt_get (entries r) x)"
  shows "mesh_inv (m\<lparr>mesh_node := (mesh_node m)(n := g')\<rparr>)"
proof -
  let ?m = "m\<lparr>mesh_node := (mesh_node m)(n := g')\<rparr>"
  have sub: "states ?m \<subseteq> insert (known g') (states m)" by (auto simp: states_def)
  have "versions_ok (mesh_node ?m) r" if "r \<in> states ?m" for r
  proof (cases "r = known g'")
    case True
    then show ?thesis using ok by simp
  next
    case False
    then have "versions_ok (mesh_node m) r" using that sub inv unfolding mesh_inv_def by blast
    then show ?thesis by (rule versions_ok_mono) (use clock in simp)
  qed
  moreover have "info_consistent (insert (known g') (states m))"
    by (rule consistent_insert) (use inv agree in \<open>auto simp: mesh_inv_def\<close>)
  then have "info_consistent (states ?m)" using sub unfolding info_consistent_def by blast
  ultimately show ?thesis using inv id by (simp add: mesh_inv_def)
qed

lemma mesh_inv_publish:
  assumes inv: "mesh_inv m" and room: "clock (known (mesh_node m n)) < - 1"
  shows "mesh_inv (m\<lparr>mesh_node := (mesh_node m)(n := gossip_exec (Publish i) (mesh_node m n))\<rparr>)"
proof (rule mesh_inv_update [OF inv])
  let ?g = "mesh_node m n" and ?g' = "gossip_exec (Publish i) (mesh_node m n)"
  let ?l = "saturating_add (clock (known ?g)) 1"
  have id: "node_id ?g = n" using inv by (simp add: mesh_inv_def)
  then show "node_id ?g' = n" by simp
  have k: "known ?g' = (known ?g)\<lparr>clock := ?l, entries := bt_insert n (i, version_new ?l n) (entries (known ?g))\<rparr>"
    using known_exec [of "Publish i" ?g] id by (simp add: info_state_set_local_def Let_def)
  have "unat (clock (known ?g)) < 2 ^ 64 - 1"
    using room by (simp add: word_less_nat_alt unat_minus_one_word)
  then have less: "clock (known ?g) < ?l" by (simp add: word_less_nat_alt unat_saturating_add)
  then show le: "clock (known ?g) \<le> clock (known ?g')" unfolding k by simp
  have own: "known ?g \<in> states m" by (auto simp: states_def)
  then have ok: "versions_ok (mesh_node m) (known ?g)" using inv by (simp add: mesh_inv_def)
  show "versions_ok ((mesh_node m)(n := ?g')) (known ?g')"
    using ok by (auto simp: versions_ok_def k info_wf_def version_new_def)
  show "lww_agree (bt_get (entries (known ?g')) x) (bt_get (entries r) x)" if r: "r \<in> states m" for r x
  proof (cases "x = n")
    case True
    have "lamport v \<le> clock (known ?g)" if "bt_get (entries r) n = Some (j, v)" for j v
      using inv r that unfolding mesh_inv_def versions_ok_def by blast
    then show ?thesis using less True by (force simp: k lww_agree_def version_new_def)
  next
    case False
    then show ?thesis using consistentD [OF _ own r] inv by (simp add: k mesh_inv_def)
  qed
qed

lemma mesh_inv_apply:
  assumes inv: "mesh_inv m" and sent: "r0 \<in> in_flight m"
  shows "mesh_inv (m\<lparr>mesh_node := (mesh_node m)(n := gossip_exec (Apply r0) (mesh_node m n))\<rparr>)"
proof (rule mesh_inv_update [OF inv])
  let ?g = "mesh_node m n" and ?g' = "gossip_exec (Apply r0) (mesh_node m n)"
  have id: "node_id ?g = n" using inv by (simp add: mesh_inv_def)
  then show "node_id ?g' = n" by simp
  have k: "known ?g' = snd (info_state_apply r0 (known ?g))" using known_exec [of "Apply r0" ?g] by simp
  have mem: "known ?g \<in> states m" "r0 \<in> states m" using sent by (auto simp: states_def)
  then have ok: "versions_ok (mesh_node m) (known ?g)" "versions_ok (mesh_node m) r0" using inv by (auto simp: mesh_inv_def)
  then have wf: "info_wf (known ?g)" "info_wf r0" by (simp_all add: versions_ok_def)
  have "max (clock (known ?g)) (clock r0) \<le> clock (known ?g')"
    using saturating_add_ge [of "max (clock (known ?g)) (clock r0)" 1]
    unfolding k by (simp add: info_state_apply_def case_prod_beta Let_def del: max.bounded_iff)
  then show le: "clock (known ?g) \<le> clock (known ?g')" by simp
  have either: "bt_get (entries (known ?g')) x = bt_get (entries (known ?g)) x \<or> bt_get (entries (known ?g')) x = bt_get (entries r0) x" for x
    unfolding k info_apply_get [OF wf(2)] by (rule lamport_order.join_mem)
  have ok': "versions_ok ((mesh_node m)(n := ?g')) (known ?g)" "versions_ok ((mesh_node m)(n := ?g')) r0"
    by (rule versions_ok_mono [OF ok(1)], use le in simp) (rule versions_ok_mono [OF ok(2)], use le in simp)
  have "info_wf (known ?g')" unfolding k by (rule info_apply_wf [OF wf(1)])
  then show "versions_ok ((mesh_node m)(n := ?g')) (known ?g')"
    using ok' either unfolding versions_ok_def by metis
  show "lww_agree (bt_get (entries (known ?g')) x) (bt_get (entries r) x)" if r: "r \<in> states m" for r x
    using either [of x] consistentD [OF _ mem(1) r] consistentD [OF _ mem(2) r] inv by (auto simp: mesh_inv_def)
qed

lemma mesh_reach_inv: "mesh_reach m \<Longrightarrow> mesh_inv m"
proof (induction rule: mesh_reach.induct)
  case (mesh_init url q now)
  show ?case
    by (auto simp: mesh_inv_def mesh_start_def states_def versions_ok_def info_consistent_def lww_agree_def gossip_new_def
        info_state_new_def info_wf_def)
next
  case (mesh_next m m')
  from mesh_next(2) show ?case
  proof cases
    case (step_send n)
    have "states m' = states m" by (auto simp: step_send states_def)
    then show ?thesis using mesh_next(3) by (simp add: mesh_inv_def step_send)
  next
    case (step_exec op n)
    show ?thesis
    proof (cases "(\<exists>i. op = Publish i) \<or> (\<exists>r. op = Apply r)")
      case True
      then show ?thesis
        using mesh_inv_publish [OF mesh_next(3)] mesh_inv_apply [OF mesh_next(3)] step_exec by (auto simp: may_exec_def)
    next
      case False
      then have k: "known (gossip_exec op (mesh_node m n)) = known (mesh_node m n)"
        unfolding known_exec by (cases op) simp_all
      have own: "known (mesh_node m n) \<in> states m" by (auto simp: states_def)
      show ?thesis
        unfolding step_exec(1)
        by (rule mesh_inv_update [OF mesh_next(3)])
          (use mesh_next(3) own consistentD k in \<open>auto simp: mesh_inv_def versions_ok_def\<close>)
    qed
  qed
qed

section \<open>Convergence\<close>

lemma known_applies: "known (fold gossip_exec (map Apply rs) g) = info_apply_all rs (known g)"
  by (induction rs arbitrary: g) (simp_all add: info_apply_all_def known_exec)

text \<open>C4: Gossip converges: in every run of a mesh, with states lost, repeated and reordered, two nodes that
  merge the same states, each starting from its own, in whatever order and with whatever
  repetitions, hold identical entries and identical snapshots. The runs are those in which no node
  restarts under its old id and none publishes with a saturated Lamport clock.\<close>

theorem gossip_convergence:
  assumes "mesh_reach m" and "set rs \<subseteq> in_flight m" and "set ts \<subseteq> in_flight m"
    and "set (known (mesh_node m a) # rs) = set (known (mesh_node m b) # ts)"
  shows "let g = fold gossip_exec (map Apply rs) (mesh_node m a); h = fold gossip_exec (map Apply ts) (mesh_node m b)
    in entries (known g) = entries (known h) \<and> info_state_snapshot (known g) = info_state_snapshot (known h)"
proof -
  have inv: "mesh_inv m" by (rule mesh_reach_inv [OF assms(1)])
  have sub: "set (known (mesh_node m a) # rs) \<subseteq> states m" using assms(2) by (auto simp: states_def)
  then have "\<forall>r \<in> set (known (mesh_node m a) # rs). info_wf r" and "info_consistent (set (known (mesh_node m a) # rs))"
    using inv unfolding mesh_inv_def versions_ok_def info_consistent_def by blast+
  from info_convergence [OF this(1) assms(4) this(2)] show ?thesis by (simp add: known_applies)
qed

text \<open>Witness of C4: two nodes publish and send, and each merges the other's state, one of them twice.\<close>

definition demo_mesh :: mesh where
  "demo_mesh =
     (let m = mesh_start (\<lambda>n. n) (\<lambda>_. 1) (\<lambda>_. 0);
          m = m\<lparr>mesh_node := (mesh_node m)(''a'' := gossip_exec (Publish info_default) (mesh_node m ''a''))\<rparr>;
          m = m\<lparr>mesh_node := (mesh_node m)(''b'' := gossip_exec (Publish (info_default\<lparr>started_at := 7\<rparr>)) (mesh_node m ''b''))\<rparr>;
          m = m\<lparr>in_flight := insert (known (mesh_node m ''a'')) (in_flight m)\<rparr>
      in m\<lparr>in_flight := insert (known (mesh_node m ''b'')) (in_flight m)\<rparr>)"

lemma demo_mesh_reached: "mesh_reach demo_mesh"
  unfolding demo_mesh_def Let_def
  by (intro mesh_next [OF _ step_send] mesh_next [OF _ step_exec] mesh_init)
    (simp_all add: may_exec_def mesh_start_def gossip_new_def info_state_new_def word_gt_0)

theorem gossip_convergence_witness:
  "let g = fold gossip_exec (map Apply [known (mesh_node demo_mesh ''b'')]) (mesh_node demo_mesh ''a'');
       h = fold gossip_exec (map Apply [known (mesh_node demo_mesh ''a''), known (mesh_node demo_mesh ''a'')]) (mesh_node demo_mesh ''b'')
   in entries (known g) = entries (known h) \<and> info_state_snapshot (known g) = info_state_snapshot (known h)"
  by (rule gossip_convergence [OF demo_mesh_reached]) (auto simp: demo_mesh_def Let_def)

section \<open>Restarts\<close>



end
