(* ===== verification/Raft.thy ===== *)
theory Raft
  imports Prelude
begin

text \<open>
  The decision layer of a cluster node (\<open>crates/opsense-mlib/src/raft.rs\<close>): clusters of nodes
  that serve one pipeline, the commands that change them, and the node's role. The log
  itself is a plug-in (\<open>trait Consensus\<close>, no implementation in the repository): its three
  methods are arguments of the definitions that call them. A \<open>BTreeSet\<close> of node ids is a
  set, the message of a rejection is a constructor with the values it prints.
\<close>

section \<open>Clusters and commands\<close>

datatype role = Master | Standby

record cluster =
  cluster_id :: string
  members :: "string set"
  pipeline :: string
  epoch :: u64

definition cluster_solo :: "string \<Rightarrow> string \<Rightarrow> string \<Rightarrow> cluster" where
  "cluster_solo cid nid pl = \<lparr>cluster_id = cid, members = {nid}, pipeline = pl, epoch = 0\<rparr>"

definition cluster_has :: "cluster \<Rightarrow> string \<Rightarrow> bool" where
  "cluster_has c nid = (nid \<in> members c)"

datatype command =
    Create cluster
  | AddMember string string
  | RemoveMember string string
  | Group string "string set" string
  | Dissolve string

datatype reject =
    Empty_cluster
  | Cluster_exists string
  | Other_pipeline string string string
  | No_cluster string
  | Empty_node_id

datatype outcome = Noop | Applied | Rejected reject

type_synonym clusters = "(string, cluster) btree"

definition add_member :: "string \<Rightarrow> string \<Rightarrow> clusters \<Rightarrow> outcome \<times> clusters" where
  "add_member cid nid s =
     (if all_whitespace nid then (Rejected Empty_node_id, s)
      else case bt_get s cid of
        None \<Rightarrow> (Rejected (No_cluster cid), s)
      | Some c \<Rightarrow>
          if nid \<notin> members c
          then (Applied, bt_insert cid (c\<lparr>members := insert nid (members c)\<rparr>) s)
          else (Noop, s))"

definition remove_member :: "string \<Rightarrow> string \<Rightarrow> clusters \<Rightarrow> outcome \<times> clusters" where
  "remove_member cid nid s =
     (case bt_get s cid of
        None \<Rightarrow> (Rejected (No_cluster cid), s)
      | Some c \<Rightarrow>
          if nid \<notin> members c then (Noop, s)
          else
            let rest = members c - {nid}
            in if rest = {} then (Applied, bt_remove cid s)
               else (Applied, bt_insert cid (c\<lparr>members := rest\<rparr>) s))"

fun apply_cmd :: "command \<Rightarrow> clusters \<Rightarrow> outcome \<times> clusters" where
  "apply_cmd (Create c) s =
     (if members c = {} then (Rejected Empty_cluster, s)
      else case bt_get s (cluster_id c) of
        Some existing \<Rightarrow>
          if existing = c then (Noop, s) else (Rejected (Cluster_exists (cluster_id c)), s)
      | None \<Rightarrow> (Applied, bt_insert (cluster_id c) c s))"
| "apply_cmd (AddMember cid nid) s = add_member cid nid s"
| "apply_cmd (RemoveMember cid nid) s = remove_member cid nid s"
| "apply_cmd (Group cid ms pl) s =
     (if ms = {} then (Rejected Empty_cluster, s)
      else case bt_get s cid of
        Some existing \<Rightarrow>
          if pipeline existing \<noteq> pl
          then (Rejected (Other_pipeline cid (pipeline existing) pl), s)
          else if members existing \<subseteq> ms then (Noop, s)
          else (Applied, bt_insert cid (existing\<lparr>members := members existing \<union> ms\<rparr>) s)
      | None \<Rightarrow>
          let c = cluster_solo cid (Min ms) pl
          in (Applied, bt_insert cid (c\<lparr>members := members c \<union> ms\<rparr>) s))"
| "apply_cmd (Dissolve cid) s =
     (case bt_get s cid of
        Some _ \<Rightarrow> (Applied, bt_remove cid s)
      | None \<Rightarrow> (Rejected (No_cluster cid), s))"

section \<open>The node\<close>

text \<open>
  The consensus engine has a state \<open>'e\<close> of its own; \<open>propose\<close> may change it, the other
  methods read it.
\<close>

type_synonym 'e propose_fn = "command \<Rightarrow> 'e \<Rightarrow> (string + bool) \<times> 'e"

record 'e raft =
  raft_node :: string
  raft_state :: clusters
  consensus :: "'e option"

datatype propose_error = No_consensus | Consensus_error string

definition raft_solo :: "string \<Rightarrow> 'e raft" where
  "raft_solo nid = \<lparr>raft_node = nid, raft_state = [], consensus = None\<rparr>"

definition raft_with_consensus :: "string \<Rightarrow> 'e \<Rightarrow> 'e raft" where
  "raft_with_consensus nid e = \<lparr>raft_node = nid, raft_state = [], consensus = Some e\<rparr>"

definition raft_propose ::
    "'e propose_fn \<Rightarrow> command \<Rightarrow> 'e raft \<Rightarrow> (propose_error + outcome) \<times> 'e raft" where
  "raft_propose propose cmd r =
     (let (out, trial) = apply_cmd cmd (raft_state r)
      in case out of
           Rejected _ \<Rightarrow> (Inr out, r)
         | _ \<Rightarrow>
           (case consensus r of
              None \<Rightarrow> (Inl No_consensus, r)
            | Some e \<Rightarrow>
                (case propose cmd e of
                   (Inl err, e') \<Rightarrow> (Inl (Consensus_error err), r\<lparr>consensus := Some e'\<rparr>)
                 | (Inr _, e') \<Rightarrow> (Inr out, r\<lparr>consensus := Some e', raft_state := trial\<rparr>))))"

definition raft_group ::
    "'e propose_fn \<Rightarrow> string \<Rightarrow> string list \<Rightarrow> string \<Rightarrow> 'e raft
     \<Rightarrow> (propose_error + outcome) \<times> 'e raft" where
  "raft_group propose cid ms pl r = raft_propose propose (Group cid (set ms) pl) r"

definition raft_dissolve ::
    "'e propose_fn \<Rightarrow> string \<Rightarrow> 'e raft \<Rightarrow> (propose_error + outcome) \<times> 'e raft" where
  "raft_dissolve propose cid r = raft_propose propose (Dissolve cid) r"

definition raft_cluster :: "'e raft \<Rightarrow> string \<Rightarrow> cluster option" where
  "raft_cluster r cid = bt_get (raft_state r) cid"

definition raft_clusters :: "'e raft \<Rightarrow> cluster list" where
  "raft_clusters r = map snd (raft_state r)"

definition my_cluster :: "'e raft \<Rightarrow> cluster option" where
  "my_cluster r = find (\<lambda>c. cluster_has c (raft_node r)) (map snd (raft_state r))"

definition is_solo :: "'e raft \<Rightarrow> bool" where
  "is_solo r = (my_cluster r = None)"

definition role_of :: "('e \<Rightarrow> string \<Rightarrow> string option) \<Rightarrow> 'e raft \<Rightarrow> string \<Rightarrow> role" where
  "role_of leader_of r cid =
     (if \<not> (case raft_cluster r cid of None \<Rightarrow> False | Some c \<Rightarrow> cluster_has c (raft_node r))
      then Master
      else
        let leader = (case consensus r of None \<Rightarrow> None | Some e \<Rightarrow> leader_of e cid)
        in if leader = Some (raft_node r) then Master else Standby)"

definition raft_role :: "('e \<Rightarrow> string \<Rightarrow> string option) \<Rightarrow> 'e raft \<Rightarrow> role" where
  "raft_role leader_of r =
     (case my_cluster r of None \<Rightarrow> Master | Some c \<Rightarrow> role_of leader_of r (cluster_id c))"

definition has_leader :: "('e \<Rightarrow> string \<Rightarrow> string option) \<Rightarrow> 'e raft \<Rightarrow> string \<Rightarrow> bool" where
  "has_leader leader_of r cid =
     ((case consensus r of None \<Rightarrow> None | Some e \<Rightarrow> leader_of e cid) \<noteq> None)"

definition epoch_of :: "('e \<Rightarrow> string \<Rightarrow> u64) \<Rightarrow> 'e raft \<Rightarrow> string \<Rightarrow> u64" where
  "epoch_of term_of r cid = (case consensus r of None \<Rightarrow> 0 | Some e \<Rightarrow> term_of e cid)"

definition has_consensus :: "'e raft \<Rightarrow> bool" where
  "has_consensus r = (consensus r \<noteq> None)"

section \<open>The configuration stays valid\<close>

definition clusters_inv :: "clusters \<Rightarrow> bool" where
  "clusters_inv s =
     (bt_wf s \<and> (\<forall>k c. bt_get s k = Some c \<longrightarrow> cluster_id c = k \<and> members c \<noteq> {}))"

lemma clusters_invI:
  "bt_wf s \<Longrightarrow> (\<And>k c. bt_get s k = Some c \<Longrightarrow> cluster_id c = k \<and> members c \<noteq> {}) \<Longrightarrow> clusters_inv s"
  by (simp add: clusters_inv_def)

lemma clusters_invD:
  "clusters_inv s \<Longrightarrow> bt_wf s"
  "clusters_inv s \<Longrightarrow> bt_get s k = Some c \<Longrightarrow> cluster_id c = k"
  "clusters_inv s \<Longrightarrow> bt_get s k = Some c \<Longrightarrow> members c \<noteq> {}"
  by (auto simp: clusters_inv_def)

lemma clusters_inv_insert:
  "clusters_inv s \<Longrightarrow> cluster_id c = k \<Longrightarrow> members c \<noteq> {} \<Longrightarrow> clusters_inv (bt_insert k c s)"
  by (simp add: clusters_inv_def)

lemma clusters_inv_remove: "clusters_inv s \<Longrightarrow> clusters_inv (bt_remove k s)"
  by (auto simp: clusters_inv_def split: if_splits)

lemmas clusters_inv_intros = clusters_inv_insert clusters_inv_remove

lemma clusters_inv_apply:
  assumes "clusters_inv s"
  shows "clusters_inv (snd (apply_cmd cmd s))"
proof (cases cmd)
  case (Group cid ms pl)
  with assms clusters_invD(2) [OF assms, of cid] show ?thesis
    by (auto simp: cluster_solo_def Let_def intro!: clusters_inv_intros split: option.splits)
next
  case (AddMember cid nid)
  with assms clusters_invD(2) [OF assms, of cid] show ?thesis
    by (auto simp: add_member_def intro!: clusters_inv_intros split: option.splits)
next
  case (RemoveMember cid nid)
  with assms clusters_invD(2) [OF assms, of cid] show ?thesis
    by (auto simp: remove_member_def Let_def intro!: clusters_inv_intros split: option.splits)
qed (use assms in \<open>auto intro!: clusters_inv_intros split: option.splits\<close>)

lemma apply_unchanged:
  "fst (apply_cmd cmd s) \<noteq> Applied \<Longrightarrow> snd (apply_cmd cmd s) = s"
  by (cases cmd) (auto simp: add_member_def remove_member_def Let_def split: option.splits if_splits)

text \<open>One proposal after the other, with the answers they give.\<close>

fun raft_run :: "'e propose_fn \<Rightarrow> command list \<Rightarrow> 'e raft \<Rightarrow> (propose_error + outcome) list \<times> 'e raft" where
  "raft_run propose [] r = ([], r)"
| "raft_run propose (cmd # cmds) r =
     (let (a, r') = raft_propose propose cmd r; (as, r'') = raft_run propose cmds r' in (a # as, r''))"

lemma raft_propose_state:
  "raft_state (snd (raft_propose propose cmd r)) =
     (if fst (raft_propose propose cmd r) = Inr Applied then snd (apply_cmd cmd (raft_state r))
      else raft_state r)"
proof -
  obtain out trial where a: "apply_cmd cmd (raft_state r) = (out, trial)" by fastforce
  with apply_unchanged [of cmd "raft_state r"] have "out \<noteq> Applied \<Longrightarrow> trial = raft_state r" by simp
  with a show ?thesis
    by (cases out) (auto simp: raft_propose_def split: option.splits sum.splits prod.splits)
qed

lemma raft_propose_answer:
  "fst (raft_propose propose cmd r) = Inr out \<Longrightarrow> out = fst (apply_cmd cmd (raft_state r))"
  by (auto simp: raft_propose_def case_prod_beta Let_def
      split: outcome.splits option.splits sum.splits prod.splits)

lemma raft_run_inv:
  "clusters_inv (raft_state r) \<Longrightarrow> clusters_inv (raft_state (snd (raft_run propose cmds r)))"
  by (induction cmds arbitrary: r) (simp_all add: case_prod_beta Let_def raft_propose_state clusters_inv_apply)

lemma raft_run_replay:
  "raft_state (snd (raft_run propose cmds r)) =
     fold (\<lambda>cmd s. snd (apply_cmd cmd s))
       (map fst (filter (\<lambda>(cmd, a). a = Inr Applied) (zip cmds (fst (raft_run propose cmds r)))))
       (raft_state r)"
  by (induction cmds arbitrary: r) (auto simp: case_prod_beta Let_def raft_propose_state)

text \<open>C16: The configuration is the replay of what was acknowledged: whatever commands a node
  proposes and however the consensus engine answers, its clusters are exactly the result of the
  commands answered with \<open>Applied\<close>, in order (an error, a rejection or a no-op leaves them
  alone), no cluster is ever empty and each is filed under its own id.\<close>

theorem raft_replay_valid:
  "raft_state (snd (raft_run propose cmds (raft_with_consensus nid e))) =
     fold (\<lambda>cmd s. snd (apply_cmd cmd s))
       (map fst (filter (\<lambda>(cmd, a). a = Inr Applied)
         (zip cmds (fst (raft_run propose cmds (raft_with_consensus nid e)))))) []
   \<and> clusters_inv (raft_state (snd (raft_run propose cmds (raft_with_consensus nid e))))"
proof (rule conjI)
  let ?r = "raft_with_consensus nid e"
  have init: "raft_state ?r = []" by (simp add: raft_with_consensus_def)
  show "clusters_inv (raft_state (snd (raft_run propose cmds ?r)))"
    by (rule raft_run_inv) (simp add: init clusters_inv_def)
  show "raft_state (snd (raft_run propose cmds ?r)) = fold (\<lambda>cmd s. snd (apply_cmd cmd s))
       (map fst (filter (\<lambda>(cmd, a). a = Inr Applied) (zip cmds (fst (raft_run propose cmds ?r))))) []"
    unfolding init [symmetric] by (rule raft_run_replay)
qed

section \<open>Membership\<close>

definition members_of :: "clusters \<Rightarrow> string \<Rightarrow> string set" where
  "members_of s cid = (case bt_get s cid of None \<Rightarrow> {} | Some c \<Rightarrow> members c)"

text \<open>What an acknowledged command means for the members of a cluster.\<close>

fun wanted_members :: "command \<Rightarrow> (string \<Rightarrow> string set) \<Rightarrow> string \<Rightarrow> string set" where
  "wanted_members (Create c) m = m(cluster_id c := members c)"
| "wanted_members (AddMember cid nid) m = m(cid := insert nid (m cid))"
| "wanted_members (RemoveMember cid nid) m = m(cid := m cid - {nid})"
| "wanted_members (Group cid ms pl) m = m(cid := m cid \<union> ms)"
| "wanted_members (Dissolve cid) m = m(cid := {})"

lemma apply_cmd_members:
  assumes "fst (apply_cmd cmd s) = Applied" and "\<forall>cid ms pl. cmd = Group cid ms pl \<longrightarrow> finite ms"
  shows "members_of (snd (apply_cmd cmd s)) = wanted_members cmd (members_of s)"
proof (cases cmd)
  case (Group cid ms pl)
  with assms show ?thesis
    by (auto simp: fun_eq_iff members_of_def cluster_solo_def Let_def split: option.splits if_splits
        intro: Min_in)
qed (use assms in \<open>auto simp: fun_eq_iff members_of_def add_member_def remove_member_def Let_def
    split: option.splits if_splits\<close>)

lemma apply_noop_members:
  assumes "fst (apply_cmd cmd s) = Noop" and "\<forall>cid ms pl. cmd \<noteq> Group cid ms pl"
  shows "members_of s = wanted_members cmd (members_of s)"
  by (cases cmd) (use assms in \<open>auto simp: fun_eq_iff members_of_def add_member_def remove_member_def
    Let_def split: option.splits if_splits\<close>)

text \<open>Acknowledged membership changes take effect and touch nothing else: after a proposal
  answered with \<open>Applied\<close>, and after a \<open>Noop\<close> of any command but \<open>Group\<close>, every cluster has
  exactly the members the command asks for.\<close>

theorem raft_membership:
  assumes "fst (raft_propose propose cmd r) = Inr out"
    and "out = Applied \<or> out = Noop \<and> (\<forall>cid ms pl. cmd \<noteq> Group cid ms pl)"
    and "\<forall>cid ms pl. cmd = Group cid ms pl \<longrightarrow> finite ms"
  shows "members_of (raft_state (snd (raft_propose propose cmd r))) =
           wanted_members cmd (members_of (raft_state r))"
proof -
  have out: "out = fst (apply_cmd cmd (raft_state r))" by (rule raft_propose_answer [OF assms(1)])
  show ?thesis
  proof (cases "out = Applied")
    case True
    with out assms(1,3) show ?thesis by (simp add: raft_propose_state apply_cmd_members)
  next
    case False
    with assms(1,2) out apply_noop_members [of cmd "raft_state r"] show ?thesis
      by (simp add: raft_propose_state)
  qed
qed

definition commit_all :: "unit propose_fn" where
  "commit_all cmd e = (Inr True, e)"

text \<open>An instance: a node joins a cluster of one.\<close>

theorem raft_membership_witness:
  "let r = (raft_with_consensus ''a'' ())\<lparr>raft_state := [(''x'', cluster_solo ''x'' ''a'' ''p'')]\<rparr>
   in members_of (raft_state (snd (raft_propose commit_all (AddMember ''x'' ''b'') r))) =
        wanted_members (AddMember ''x'' ''b'') (members_of (raft_state r))"
  unfolding Let_def
  by (rule raft_membership [where out = Applied])
    (simp_all add: raft_propose_def raft_with_consensus_def add_member_def bt_get_def
      cluster_solo_def commit_all_def ws1_def)

text \<open>Grouping cannot extend a cluster: when the requested nodes include all present members
  and some new ones, \<open>Group\<close> answers \<open>Noop\<close> and the new nodes are not added. (The test
  \<open>existing.members.is_subset(&members)\<close> has its operands the wrong way round.)\<close>

theorem raft_group_ignores_new_members:
  assumes "raft_cluster r cid = Some c" and "pipeline c = pl" and "members c \<noteq> {}"
    and "members c \<subseteq> set ms" and "n \<in> set ms" and "n \<notin> members c"
    and "consensus r = Some e" and "propose (Group cid (set ms) pl) e = (Inr True, e')"
  shows "fst (raft_group propose cid ms pl r) = Inr Noop
    \<and> n \<notin> members_of (raft_state (snd (raft_group propose cid ms pl r))) cid"
  using assms by (auto simp: raft_group_def raft_propose_def raft_cluster_def members_of_def)

text \<open>An instance: a cluster of \<open>a\<close> asked to become one of \<open>a\<close> and \<open>b\<close>.\<close>

theorem raft_group_ignores_new_members_witness:
  "let r = (raft_with_consensus ''a'' ())\<lparr>raft_state := [(''x'', cluster_solo ''x'' ''a'' ''p'')]\<rparr>
   in fst (raft_group commit_all ''x'' [''a'', ''b''] ''p'' r) = Inr Noop
    \<and> ''b'' \<notin> members_of (raft_state (snd (raft_group commit_all ''x'' [''a'', ''b''] ''p'' r))) ''x''"
  unfolding Let_def
  by (rule raft_group_ignores_new_members [where c = "cluster_solo ''x'' ''a'' ''p''" and e = "()" and e' = "()"])
    (simp_all add: raft_cluster_def raft_with_consensus_def bt_get_def cluster_solo_def commit_all_def)

text \<open>A proposal the engine reports as not committed is applied all the same: on the answer
  \<open>Ok(false)\<close> the node adopts the trial state and answers as if it had been committed.\<close>

theorem raft_applies_uncommitted:
  assumes "apply_cmd cmd (raft_state r) = (Applied, s)" and "consensus r = Some e"
    and "propose cmd e = (Inr False, e')"
  shows "fst (raft_propose propose cmd r) = Inr Applied \<and> raft_state (snd (raft_propose propose cmd r)) = s"
  using assms by (simp add: raft_propose_def)

text \<open>An instance: an engine that never reaches its quorum.\<close>

theorem raft_applies_uncommitted_witness:
  "let c = cluster_solo ''x'' ''a'' ''p''; r = raft_with_consensus ''a'' ()
   in fst (raft_propose (\<lambda>_ e. (Inr False, e)) (Create c) r) = Inr Applied
    \<and> raft_state (snd (raft_propose (\<lambda>_ e. (Inr False, e)) (Create c) r)) = [(''x'', c)]"
  unfolding Let_def
  by (rule raft_applies_uncommitted [where e = "()" and e' = "()"])
    (simp_all add: raft_with_consensus_def cluster_solo_def)

end
