(* ===== verification/Storage.thy ===== *)
theory Storage
  imports Prelude Codec "HOL-Library.Multiset"
begin

text \<open>
  The persistence surface of the radix tree (\<open>crates/opsense-mlib/src/storage.rs\<close>) and its
  in-memory backend (\<open>storage/in_memory.rs\<close>). All state sits behind one lock, so every
  operation is a function on the whole record; the id counter, an atomic of its own in the
  code, is the field \<open>next_id\<close>. A poisoned lock (a panic of another thread while writing)
  is outside the model. A \<open>HashMap\<close> is a partial function, a \<open>HashSet\<close> a set; a
  \<open>BTreeMap\<close> is an ordered map of the prelude.
\<close>

section \<open>State\<close>

type_synonym bytes = "u8 list"

datatype storage_error = BranchOutOfRange nat | Internal string

definition EMPTY :: nat where "EMPTY = 0"

record mem =
  mem_nodes :: "(bytes \<times> nat) list"
  mem_children :: "nat list list"
  mem_roots :: "nat list"
  mem_meta :: "nat \<rightharpoonup> bytes"
  mem_key_lens :: "nat \<rightharpoonup> nat"
  mem_shortcuts :: "(bytes \<rightharpoonup> nat set) list"
  mem_edges :: "nat \<rightharpoonup> bytes"
  mem_node_meta :: "nat \<rightharpoonup> bytes"
  mem_blooms :: "nat \<rightharpoonup> bytes"
  mem_chains :: "nat \<rightharpoonup> bytes"
  mem_timeseries :: "bytes \<rightharpoonup> (u64 \<times> bytes) list"
  mem_patterns :: "(string, nat) btree"
  next_id :: nat

definition mem_new :: mem where
  "mem_new = \<lparr>mem_nodes = [([], EMPTY)], mem_children = [[]], mem_roots = [], mem_meta = Map.empty,
     mem_key_lens = Map.empty, mem_shortcuts = [], mem_edges = Map.empty, mem_node_meta = Map.empty,
     mem_blooms = Map.empty, mem_chains = Map.empty, mem_timeseries = Map.empty, mem_patterns = [],
     next_id = 1\<rparr>"

text \<open>\<open>Vec::resize\<close> where it is only used to grow.\<close>

definition grow :: "nat \<Rightarrow> 'a \<Rightarrow> 'a list \<Rightarrow> 'a list" where
  "grow n x xs = xs @ replicate (n - length xs) x"

definition alloc_id :: "mem \<Rightarrow> nat \<times> mem" where
  "alloc_id s = (next_id s, s\<lparr>next_id := next_id s + 1\<rparr>)"

text \<open>Writing a reserved node, as \<open>new_node\<close> and \<open>commit\<close> both do.\<close>

definition put_node :: "nat \<times> bytes \<times> nat \<Rightarrow> mem \<Rightarrow> mem" where
  "put_node = (\<lambda>(i, prefix, r) s.
     let s = (if length (mem_nodes s) \<le> i
              then s\<lparr>mem_nodes := grow (i + 1) ([], EMPTY) (mem_nodes s),
                     mem_children := grow (i + 1) [] (mem_children s)\<rparr>
              else s)
     in s\<lparr>mem_nodes := (mem_nodes s)[i := (prefix, r)]\<rparr>)"

section \<open>Nodes and roots\<close>

definition mem_new_node :: "bytes \<Rightarrow> nat \<Rightarrow> mem \<Rightarrow> nat \<times> mem" where
  "mem_new_node prefix r s = (let (i, s) = alloc_id s in (i, put_node (i, prefix, r) s))"

definition set_node :: "nat \<Rightarrow> bytes option \<Rightarrow> nat option \<Rightarrow> mem \<Rightarrow> mem" where
  "set_node i prefix r s =
     s\<lparr>mem_nodes := (mem_nodes s)
         [i := (case prefix of Some p \<Rightarrow> p | None \<Rightarrow> fst (mem_nodes s ! i),
                case r of Some r \<Rightarrow> r | None \<Rightarrow> snd (mem_nodes s ! i))]\<rparr>"

definition mem_update_node ::
    "nat \<Rightarrow> bytes option \<Rightarrow> nat option \<Rightarrow> mem \<Rightarrow> storage_error + mem" where
  "mem_update_node i prefix r s =
     (if i \<ge> length (mem_nodes s) then Inl (BranchOutOfRange i) else Inr (set_node i prefix r s))"

definition mem_get_node :: "nat \<Rightarrow> mem \<Rightarrow> storage_error + (bytes \<times> nat)" where
  "mem_get_node i s =
     (if i \<ge> length (mem_nodes s) then Inl (BranchOutOfRange i) else Inr (mem_nodes s ! i))"

definition mem_get_children :: "nat \<Rightarrow> mem \<Rightarrow> nat list" where
  "mem_get_children i s = (if i < length (mem_children s) then mem_children s ! i else [])"

definition mem_set_root :: "nat \<Rightarrow> nat \<Rightarrow> mem \<Rightarrow> mem" where
  "mem_set_root shard root s =
     s\<lparr>mem_roots := (if shard \<ge> length (mem_roots s) then grow (shard + 1) EMPTY (mem_roots s)
                    else mem_roots s)[shard := root]\<rparr>"

definition mem_get_root :: "nat \<Rightarrow> mem \<Rightarrow> nat" where
  "mem_get_root shard s = (if shard < length (mem_roots s) then mem_roots s ! shard else EMPTY)"

section \<open>Transactions\<close>

datatype tx_op =
    AddChild nat nat
  | MoveChild nat nat nat
  | UpdateNode nat "bytes option" "nat option"

record tx =
  tx_nodes :: "(nat \<times> bytes \<times> nat) list"
  tx_ops :: "tx_op list"

definition new_tx :: tx where
  "new_tx = \<lparr>tx_nodes = [], tx_ops = []\<rparr>"

definition tx_new_node :: "bytes \<Rightarrow> nat \<Rightarrow> tx \<Rightarrow> mem \<Rightarrow> nat \<times> tx \<times> mem" where
  "tx_new_node prefix r t s =
     (let (i, s) = alloc_id s in (i, t\<lparr>tx_nodes := tx_nodes t @ [(i, prefix, r)]\<rparr>, s))"

definition tx_update_node :: "nat \<Rightarrow> bytes option \<Rightarrow> nat option \<Rightarrow> tx \<Rightarrow> tx" where
  "tx_update_node i prefix r t = t\<lparr>tx_ops := tx_ops t @ [UpdateNode i prefix r]\<rparr>"

definition tx_add_child :: "nat \<Rightarrow> nat \<Rightarrow> tx \<Rightarrow> tx" where
  "tx_add_child parent child t = t\<lparr>tx_ops := tx_ops t @ [AddChild parent child]\<rparr>"

definition tx_move_child :: "nat \<Rightarrow> nat \<Rightarrow> nat \<Rightarrow> tx \<Rightarrow> tx" where
  "tx_move_child src dst child t = t\<lparr>tx_ops := tx_ops t @ [MoveChild src dst child]\<rparr>"

definition push_child :: "nat \<Rightarrow> nat \<Rightarrow> mem \<Rightarrow> mem" where
  "push_child parent child s =
     (if parent < length (mem_children s) \<and> child \<notin> set (mem_children s ! parent)
      then s\<lparr>mem_children := (mem_children s)[parent := mem_children s ! parent @ [child]]\<rparr> else s)"

definition drop_child :: "nat \<Rightarrow> nat \<Rightarrow> mem \<Rightarrow> mem" where
  "drop_child parent child s =
     (if parent < length (mem_children s)
      then s\<lparr>mem_children := (mem_children s)[parent := filter (\<lambda>c. c \<noteq> child) (mem_children s ! parent)]\<rparr>
      else s)"

fun apply_op :: "tx_op \<Rightarrow> mem \<Rightarrow> mem" where
  "apply_op (AddChild parent child) s = push_child parent child s"
| "apply_op (MoveChild src dst child) s = push_child dst child (drop_child src child s)"
| "apply_op (UpdateNode i prefix r) s = (if i < length (mem_nodes s) then set_node i prefix r s else s)"

definition tx_commit :: "tx \<Rightarrow> mem \<Rightarrow> mem" where
  "tx_commit t s = fold apply_op (tx_ops t) (fold put_node (tx_nodes t) s)"

section \<open>Side tables\<close>

definition mem_set_edge_data :: "nat \<Rightarrow> bytes \<Rightarrow> mem \<Rightarrow> mem" where
  "mem_set_edge_data e d s = s\<lparr>mem_edges := (mem_edges s)(e \<mapsto> d)\<rparr>"

definition mem_get_edge_data :: "nat \<Rightarrow> mem \<Rightarrow> bytes option" where
  "mem_get_edge_data e s = mem_edges s e"

definition mem_clear_edges :: "mem \<Rightarrow> mem" where
  "mem_clear_edges s = s\<lparr>mem_edges := Map.empty\<rparr>"

definition encode_chain :: "u64 list \<Rightarrow> bytes" where
  "encode_chain es = concat (map u64_to_le_bytes es)"

fun decode_chain :: "bytes \<Rightarrow> u64 list" where
  "decode_chain bs =
     (if length bs < 8 then [] else u64_from_le_bytes (take 8 bs) # decode_chain (drop 8 bs))"

declare decode_chain.simps [simp del]

definition mem_set_chain :: "nat \<Rightarrow> u64 list \<Rightarrow> mem \<Rightarrow> mem" where
  "mem_set_chain r es s = s\<lparr>mem_chains := (mem_chains s)(r \<mapsto> encode_chain es)\<rparr>"

definition mem_get_chain :: "nat \<Rightarrow> mem \<Rightarrow> u64 list option" where
  "mem_get_chain r s = map_option decode_chain (mem_chains s r)"

definition mem_clear_chains :: "mem \<Rightarrow> mem" where
  "mem_clear_chains s = s\<lparr>mem_chains := Map.empty\<rparr>"

definition mem_add_shortcut_node :: "nat \<Rightarrow> bytes \<Rightarrow> nat \<Rightarrow> mem \<Rightarrow> mem" where
  "mem_add_shortcut_node shard e nid s =
     (let sc = (if shard \<ge> length (mem_shortcuts s) then grow (shard + 1) Map.empty (mem_shortcuts s)
                else mem_shortcuts s);
          m = sc ! shard
      in s\<lparr>mem_shortcuts := sc[shard := m(e \<mapsto> insert nid (case m e of Some ns \<Rightarrow> ns | None \<Rightarrow> {}))]\<rparr>)"

definition mem_get_shortcut_nodes :: "nat \<Rightarrow> bytes \<Rightarrow> mem \<Rightarrow> nat set" where
  "mem_get_shortcut_nodes shard e s =
     (if shard < length (mem_shortcuts s)
      then (case (mem_shortcuts s ! shard) e of Some ns \<Rightarrow> ns | None \<Rightarrow> {}) else {})"

definition mem_clear_shortcuts :: "mem \<Rightarrow> mem" where
  "mem_clear_shortcuts s = s\<lparr>mem_shortcuts := map (\<lambda>_. Map.empty) (mem_shortcuts s)\<rparr>"

definition mem_set_node_meta :: "nat \<Rightarrow> bytes \<Rightarrow> mem \<Rightarrow> mem" where
  "mem_set_node_meta e d s = s\<lparr>mem_node_meta := (mem_node_meta s)(e \<mapsto> d)\<rparr>"

definition mem_get_node_meta :: "nat \<Rightarrow> mem \<Rightarrow> bytes option" where
  "mem_get_node_meta e s = mem_node_meta s e"

definition mem_clear_node_meta :: "mem \<Rightarrow> mem" where
  "mem_clear_node_meta s = s\<lparr>mem_node_meta := Map.empty\<rparr>"

definition mem_set_meta :: "nat \<Rightarrow> bytes \<Rightarrow> mem \<Rightarrow> mem" where
  "mem_set_meta r d s = s\<lparr>mem_meta := (mem_meta s)(r \<mapsto> d)\<rparr>"

definition mem_get_meta :: "nat \<Rightarrow> mem \<Rightarrow> bytes option" where
  "mem_get_meta r s = mem_meta s r"

definition mem_set_key_len :: "nat \<Rightarrow> nat \<Rightarrow> mem \<Rightarrow> mem" where
  "mem_set_key_len r n s = s\<lparr>mem_key_lens := (mem_key_lens s)(r \<mapsto> n)\<rparr>"

definition mem_get_key_len :: "nat \<Rightarrow> mem \<Rightarrow> nat option" where
  "mem_get_key_len r s = mem_key_lens s r"

definition mem_set_node_bloom :: "nat \<Rightarrow> bytes \<Rightarrow> mem \<Rightarrow> mem" where
  "mem_set_node_bloom i d s = s\<lparr>mem_blooms := (mem_blooms s)(i \<mapsto> d)\<rparr>"

definition mem_get_node_bloom :: "nat \<Rightarrow> mem \<Rightarrow> bytes option" where
  "mem_get_node_bloom i s = mem_blooms s i"

section \<open>Timeseries\<close>

type_synonym point = "u64 \<times> bytes"

definition points :: "bytes \<Rightarrow> mem \<Rightarrow> point list" where
  "points series s = (case mem_timeseries s series of Some pts \<Rightarrow> pts | None \<Rightarrow> [])"

definition ts_append :: "bytes \<Rightarrow> u64 \<Rightarrow> bytes \<Rightarrow> mem \<Rightarrow> mem" where
  "ts_append series t v s =
     s\<lparr>mem_timeseries := (mem_timeseries s)(series \<mapsto> points series s @ [(t, v)])\<rparr>"

definition ts_range :: "bytes \<Rightarrow> u64 \<Rightarrow> u64 \<Rightarrow> mem \<Rightarrow> point list" where
  "ts_range series start_ts end_ts s =
     filter (\<lambda>(t, _). t \<ge> start_ts \<and> t \<le> end_ts) (points series s)"

definition ts_latest :: "bytes \<Rightarrow> nat \<Rightarrow> mem \<Rightarrow> point list" where
  "ts_latest series limit s = (let pts = points series s in drop (length pts - limit) pts)"

definition ts_first :: "bytes \<Rightarrow> mem \<Rightarrow> point option" where
  "ts_first series s = (case points series s of [] \<Rightarrow> None | p # _ \<Rightarrow> Some p)"

definition ts_last :: "bytes \<Rightarrow> mem \<Rightarrow> point option" where
  "ts_last series s = (let pts = points series s in if pts = [] then None else Some (last pts))"

definition ts_clear_series :: "bytes \<Rightarrow> mem \<Rightarrow> mem" where
  "ts_clear_series series s = s\<lparr>mem_timeseries := (mem_timeseries s)(series := None)\<rparr>"

definition ts_clear_all_series :: "mem \<Rightarrow> mem" where
  "ts_clear_all_series s = s\<lparr>mem_timeseries := Map.empty\<rparr>"

section \<open>Patterns\<close>

definition pat_contains :: "string \<Rightarrow> mem \<Rightarrow> bool" where
  "pat_contains p s = (bt_get (mem_patterns s) p \<noteq> None)"

definition pat_add :: "string \<Rightarrow> mem \<Rightarrow> mem" where
  "pat_add p s =
     (if p = [] then s
      else if bt_get (mem_patterns s) p = None
      then s\<lparr>mem_patterns := bt_insert p (length (mem_patterns s)) (mem_patterns s)\<rparr> else s)"

definition pat_get_all :: "mem \<Rightarrow> string list" where
  "pat_get_all s = map snd (sort_key fst (map (\<lambda>(k, i). (i, k)) (mem_patterns s)))"

definition pat_count :: "mem \<Rightarrow> nat" where
  "pat_count s = length (mem_patterns s)"

definition pat_remove :: "string \<Rightarrow> mem \<Rightarrow> bool \<times> mem" where
  "pat_remove p s =
     (bt_get (mem_patterns s) p \<noteq> None, s\<lparr>mem_patterns := bt_remove p (mem_patterns s)\<rparr>)"

definition pat_clear :: "mem \<Rightarrow> mem" where
  "pat_clear s = s\<lparr>mem_patterns := []\<rparr>"

section \<open>What the tree relies on\<close>

text \<open>
  The contract between a backend and the radix tree: what reading a node or its children gives
  after a reserved node is written and after each buffered mutation of a transaction.
\<close>

locale category_store =
  fixes node :: "'s \<Rightarrow> nat \<Rightarrow> (bytes \<times> nat) option"
    and kids :: "'s \<Rightarrow> nat \<Rightarrow> nat list"
    and put :: "nat \<times> bytes \<times> nat \<Rightarrow> 's \<Rightarrow> 's"
    and step :: "tx_op \<Rightarrow> 's \<Rightarrow> 's"
    and ok :: "'s \<Rightarrow> bool"
  assumes ok_put: "ok s \<Longrightarrow> ok (put e s)"
    and ok_step: "ok s \<Longrightarrow> ok (step op s)"
    and node_put: "ok s \<Longrightarrow> node (put (i, p, r) s) i = Some (p, r)"
    and node_put_other: "ok s \<Longrightarrow> j \<noteq> i \<Longrightarrow> node s j \<noteq> None \<Longrightarrow> node (put (i, p, r) s) j = node s j"
    and kids_put: "ok s \<Longrightarrow> kids (put e s) j = kids s j"
    and node_add: "ok s \<Longrightarrow> node (step (AddChild a c) s) j = node s j"
    and kids_add: "ok s \<Longrightarrow> node s a \<noteq> None \<Longrightarrow> c \<notin> set (kids s a) \<Longrightarrow>
      kids (step (AddChild a c) s) j = (if j = a then kids s a @ [c] else kids s j)"
    and node_move: "ok s \<Longrightarrow> node (step (MoveChild a b c) s) j = node s j"
    and kids_move: "ok s \<Longrightarrow> a \<noteq> b \<Longrightarrow> node s a \<noteq> None \<Longrightarrow> node s b \<noteq> None \<Longrightarrow> c \<notin> set (kids s b) \<Longrightarrow>
      kids (step (MoveChild a b c) s) j =
        (if j = a then filter (\<lambda>d. d \<noteq> c) (kids s a) else if j = b then kids s b @ [c] else kids s j)"
    and node_update: "ok s \<Longrightarrow> node s i = Some (q, u) \<Longrightarrow>
      node (step (UpdateNode i np nr) s) j =
        (if j = i then Some (case np of Some p \<Rightarrow> p | None \<Rightarrow> q, case nr of Some r \<Rightarrow> r | None \<Rightarrow> u)
         else node s j)"
    and kids_update: "ok s \<Longrightarrow> kids (step (UpdateNode i np nr) s) j = kids s j"
begin

lemma ok_steps: "ok s \<Longrightarrow> ok (fold step ops s)"
  by (induction ops arbitrary: s) (simp_all add: ok_step)

lemma ok_puts: "ok s \<Longrightarrow> ok (fold put es s)"
  by (induction es arbitrary: s) (simp_all add: ok_put)

lemma node_moves: "ok s \<Longrightarrow> node (fold step (map (MoveChild a b) cs) s) j = node s j"
  by (induction cs arbitrary: s) (simp_all add: ok_step node_move)

text \<open>Moving a list of children one by one appends it to the new parent.\<close>

lemma kids_moves:
  assumes "ok s" and "a \<noteq> b" and "node s a \<noteq> None" and "node s b \<noteq> None"
    and "distinct cs" and "set cs \<inter> set (kids s b) = {}"
  shows "kids (fold step (map (MoveChild a b) cs) s) j =
    (if j = a then filter (\<lambda>d. d \<notin> set cs) (kids s a) else if j = b then kids s b @ cs else kids s j)"
  using assms
proof (induction cs arbitrary: s)
  case Nil
  then show ?case by simp
next
  case (Cons c cs)
  let ?s = "step (MoveChild a b c) s"
  have kids: "kids ?s i = (if i = a then filter (\<lambda>d. d \<noteq> c) (kids s a) else if i = b then kids s b @ [c] else kids s i)" for i
    by (rule kids_move) (use Cons.prems in auto)
  have "kids (fold step (map (MoveChild a b) cs) ?s) j =
      (if j = a then filter (\<lambda>d. d \<notin> set cs) (kids ?s a) else if j = b then kids ?s b @ cs else kids ?s j)"
    by (rule Cons.IH) (use Cons.prems in \<open>auto simp: ok_step node_move kids\<close>)
  then show ?case using Cons.prems(2) by (simp add: kids conj_commute)
qed

end

definition mem_node :: "mem \<Rightarrow> nat \<Rightarrow> (bytes \<times> nat) option" where
  "mem_node s i = (if i < length (mem_nodes s) then Some (mem_nodes s ! i) else None)"

definition mem_kids :: "mem \<Rightarrow> nat \<Rightarrow> nat list" where
  "mem_kids s i = mem_get_children i s"

definition mem_ok :: "mem \<Rightarrow> bool" where
  "mem_ok s = (length (mem_children s) = length (mem_nodes s))"

lemma length_grow [simp]: "length (grow n x xs) = max n (length xs)"
  by (simp add: grow_def max_def)

lemma grow_nth: "i < length xs \<Longrightarrow> grow n x xs ! i = xs ! i"
  by (simp add: grow_def nth_append)

lemma grow_nth_new: "length xs \<le> i \<Longrightarrow> i < n \<Longrightarrow> grow n x xs ! i = x"
  by (simp add: grow_def nth_append)

lemmas mem_views = mem_node_def mem_kids_def mem_get_children_def mem_ok_def

interpretation mem_store: category_store mem_node mem_kids put_node apply_op mem_ok
proof unfold_locales
  fix s i j p r e
  show "mem_ok s \<Longrightarrow> mem_ok (put_node e s)"
    by (cases e) (auto simp: mem_ok_def put_node_def Let_def)
  show "mem_ok s \<Longrightarrow> mem_node (put_node (i, p, r) s) i = Some (p, r)"
    by (auto simp: mem_node_def put_node_def Let_def)
  show "mem_ok s \<Longrightarrow> j \<noteq> i \<Longrightarrow> mem_node s j \<noteq> None \<Longrightarrow> mem_node (put_node (i, p, r) s) j = mem_node s j"
    by (auto simp: mem_node_def put_node_def Let_def grow_nth split: if_splits)
  show "mem_ok s \<Longrightarrow> mem_kids (put_node e s) j = mem_kids s j"
    by (cases e) (auto simp: mem_views put_node_def Let_def grow_nth grow_nth_new)
next
  fix s i j p r q u
  show "mem_ok s \<Longrightarrow> mem_node s i = Some (q, u) \<Longrightarrow>
      mem_node (apply_op (UpdateNode i p r) s) j =
        (if j = i then Some (case p of Some p \<Rightarrow> p | None \<Rightarrow> q, case r of Some r \<Rightarrow> r | None \<Rightarrow> u)
         else mem_node s j)"
    by (auto simp: mem_node_def set_node_def split: if_splits option.splits)
  show "mem_ok s \<Longrightarrow> mem_kids (apply_op (UpdateNode i p r) s) j = mem_kids s j"
    by (simp add: mem_views set_node_def)
next
  fix s a b c j op
  show "mem_ok s \<Longrightarrow> mem_ok (apply_op op s)"
    by (cases op) (auto simp: mem_ok_def push_child_def drop_child_def set_node_def)
  show "mem_ok s \<Longrightarrow> mem_node (apply_op (AddChild a c) s) j = mem_node s j"
    by (simp add: mem_node_def push_child_def)
  show "mem_ok s \<Longrightarrow> mem_node s a \<noteq> None \<Longrightarrow> c \<notin> set (mem_kids s a) \<Longrightarrow>
      mem_kids (apply_op (AddChild a c) s) j = (if j = a then mem_kids s a @ [c] else mem_kids s j)"
    by (auto simp: mem_views push_child_def split: if_splits)
  show "mem_ok s \<Longrightarrow> mem_node (apply_op (MoveChild a b c) s) j = mem_node s j"
    by (simp add: mem_node_def push_child_def drop_child_def)
  show "mem_ok s \<Longrightarrow> a \<noteq> b \<Longrightarrow> mem_node s a \<noteq> None \<Longrightarrow> mem_node s b \<noteq> None \<Longrightarrow> c \<notin> set (mem_kids s b) \<Longrightarrow>
      mem_kids (apply_op (MoveChild a b c) s) j =
        (if j = a then filter (\<lambda>d. d \<noteq> c) (mem_kids s a) else if j = b then mem_kids s b @ [c] else mem_kids s j)"
    by (auto simp: mem_views push_child_def drop_child_def split: if_splits)
qed

section \<open>Chains survive storage\<close>

definition next_u64 :: "bytes \<Rightarrow> (u64 \<times> bytes) option" where
  "next_u64 bs = (if length bs < 8 then None else Some (u64_from_le_bytes (take 8 bs), drop 8 bs))"

interpretation u64_wire: prefix_codec u64_to_le_bytes next_u64 "\<lambda>_. True"
proof unfold_locales
  fix x rest
  show "next_u64 (u64_to_le_bytes x @ rest) = Some (x, rest)" by (simp add: next_u64_def)
  have "length (u64_to_le_bytes x) \<noteq> 0" by simp
  then show "u64_to_le_bytes x \<noteq> []" unfolding length_0_conv .
qed

lemma decode_chain_loop: "decode_chain bs = fst (decode_loop next_u64 bs)"
proof (induction bs rule: decode_chain.induct)
  case (1 bs)
  have "next_u64 bs = (if length bs < 8 then None else Some (u64_from_le_bytes (take 8 bs), drop 8 bs))"
    by (simp add: next_u64_def)
  with 1 show ?case
    by (cases "length bs < 8")
      (auto simp: decode_chain.simps [of bs] decode_loop.simps [of next_u64 bs] case_prod_beta)
qed

lemma decode_encode_chain: "length left < 8 \<Longrightarrow> decode_chain (encode_chain es @ left) = es"
  using u64_wire.decode_loop_concat [of es left]
  by (simp add: decode_chain_loop encode_chain_def next_u64_def)

lemma get_set_chain: "mem_get_chain r (mem_set_chain r' es s) = (if r = r' then Some es else mem_get_chain r s)"
  using decode_encode_chain [of "[]"] by (simp add: mem_get_chain_def mem_set_chain_def)

text \<open>A stored chain reads back: the chain of a record is the one last stored under it,
  element for element, other records keep theirs, and stray bytes shorter than an element at the
  end of the stream are ignored.\<close>

theorem chain_roundtrip:
  "mem_get_chain r (mem_set_chain r' es s) = (if r = r' then Some es else mem_get_chain r s)
   \<and> decode_chain (encode_chain es @ drop (length stray div 8 * 8) stray) = es"
proof
  show "mem_get_chain r (mem_set_chain r' es s) = (if r = r' then Some es else mem_get_chain r s)"
    by (rule get_set_chain)
  have "length stray - length stray div 8 * 8 < 8"
    using mod_less_divisor [of 8 "length stray"] by (simp add: minus_div_mult_eq_mod)
  then show "decode_chain (encode_chain es @ drop (length stray div 8 * 8) stray) = es"
    by (intro decode_encode_chain) simp
qed

section \<open>Timeseries keep the order of arrival\<close>

definition ts_append_all :: "(bytes \<times> point) list \<Rightarrow> mem \<Rightarrow> mem" where
  "ts_append_all log s = fold (\<lambda>(series, t, v). ts_append series t v) log s"

definition log_of :: "bytes \<Rightarrow> (bytes \<times> point) list \<Rightarrow> point list" where
  "log_of series log = map snd (filter (\<lambda>(ser, _). ser = series) log)"

lemma points_append:
  "points series (ts_append ser t v s) = (if series = ser then points series s @ [(t, v)] else points series s)"
  by (simp add: points_def ts_append_def)

lemma points_append_all: "points series (ts_append_all log s) = points series s @ log_of series log"
  unfolding ts_append_all_def log_of_def
  by (induction log arbitrary: s) (auto simp: points_append)

text \<open>A timeseries is the log of what was appended to it: \<open>range\<close> gives exactly the points of
  that series within the bounds, \<open>latest\<close> the last ones, both in the order of arrival; so the full
  range is ascending by timestamp exactly when the points arrived that way. (The interface
  documents it as always ascending.)\<close>

theorem timeseries_log:
  "ts_range series a b (ts_append_all log mem_new) = filter (\<lambda>(t, _). a \<le> t \<and> t \<le> b) (log_of series log)
   \<and> rev (ts_latest series n (ts_append_all log mem_new)) = take n (rev (log_of series log))
   \<and> sorted (map fst (ts_range series 0 (- 1) (ts_append_all log mem_new))) = sorted (map fst (log_of series log))"
proof -
  have pts: "points series (ts_append_all log mem_new) = log_of series log"
    by (simp add: points_append_all) (simp add: points_def mem_new_def)
  have full: "filter (\<lambda>(t, _). 0 \<le> t \<and> t \<le> - 1) xs = xs" for xs :: "point list"
    by (rule filter_True) (auto simp: word_order.extremum)
  show ?thesis
    unfolding ts_range_def ts_latest_def pts full Let_def by (cases "n \<le> length (log_of series log)") (simp_all add: rev_drop)
qed

section \<open>The pattern registry\<close>

definition pat_inv :: "string list \<Rightarrow> mem \<Rightarrow> bool" where
  "pat_inv ord s =
     (bt_wf (mem_patterns s) \<and> distinct ord \<and> length (mem_patterns s) = length ord
      \<and> (\<forall>k i. bt_get (mem_patterns s) k = Some i \<longleftrightarrow> i < length ord \<and> ord ! i = k))"

lemma pat_inv_get_all:
  assumes "pat_inv ord s"
  shows "pat_get_all s = ord"
proof -
  let ?xs = "map (\<lambda>(k, i). (i, k)) (mem_patterns s)"
  let ?ys = "map (\<lambda>i. (i, ord ! i)) [0..<length ord]"
  have wf: "bt_wf (mem_patterns s)" using assms by (simp add: pat_inv_def)
  have "set ?xs = set ?ys"
    using assms by (auto simp: pat_inv_def bt_get_Some_iff [OF wf, symmetric] image_iff)
  moreover have "distinct ?xs"
    using bt_wf_distinct [OF wf] by (auto simp: distinct_map inj_on_def)
  moreover have "distinct ?ys" by (simp add: distinct_map inj_on_def)
  ultimately have "mset ?xs = mset ?ys" by (metis set_eq_iff_mset_eq_distinct)
  moreover have "inj_on fst (set ?xs)" unfolding \<open>set ?xs = set ?ys\<close> by (auto simp: inj_on_def)
  moreover have "sorted (map fst ?ys)" by (simp add: comp_def)
  ultimately have "sort_key fst ?xs = ?ys" by (rule sort_key_inj_key_eq)
  then show ?thesis by (simp add: pat_get_all_def comp_def map_nth)
qed

lemma pat_inv_contains: "pat_inv ord s \<Longrightarrow> pat_contains p s \<longleftrightarrow> p \<in> set ord"
  by (auto simp: pat_inv_def pat_contains_def in_set_conv_nth)

lemma length_bt_insert: "bt_get m k = None \<Longrightarrow> length (bt_insert k v m) = Suc (length m)"
  by (induction k v m rule: bt_insert.induct) (auto simp: bt_get_def)

lemma pat_inv_add:
  assumes "pat_inv ord s"
  shows "pat_inv (if p = [] \<or> p \<in> set ord then ord else ord @ [p]) (pat_add p s)"
proof (cases "p = [] \<or> p \<in> set ord")
  case True
  with assms pat_inv_contains [OF assms, of p] show ?thesis by (auto simp: pat_add_def pat_contains_def)
next
  case False
  then have new: "bt_get (mem_patterns s) p = None"
    using pat_inv_contains [OF assms, of p] by (simp add: pat_contains_def)
  with False assms show ?thesis
    by (auto simp: pat_inv_def pat_add_def length_bt_insert nth_append less_Suc_eq)
qed

text \<open>The registration order with blanks and repetitions left out.\<close>

definition registered :: "string list \<Rightarrow> string list" where
  "registered ps = fold (\<lambda>p ord. if p = [] \<or> p \<in> set ord then ord else ord @ [p]) ps []"

lemma pat_inv_fold:
  "pat_inv ord s \<Longrightarrow>
   pat_inv (fold (\<lambda>p ord. if p = [] \<or> p \<in> set ord then ord else ord @ [p]) ps ord) (fold pat_add ps s)"
  by (induction ps arbitrary: ord s) (simp_all only: fold_simps pat_inv_add)

text \<open>The registry lists patterns in the order they were first registered, each once, and
  counts and finds exactly those, as long as none was removed.\<close>

theorem pattern_registration_order:
  "pat_get_all (fold pat_add ps mem_new) = registered ps
   \<and> pat_count (fold pat_add ps mem_new) = length (registered ps)
   \<and> pat_contains p (fold pat_add ps mem_new) = (p \<in> set (registered ps))"
proof -
  have "pat_inv [] mem_new" by (simp add: pat_inv_def mem_new_def)
  from pat_inv_fold [OF this, of ps] have inv: "pat_inv (registered ps) (fold pat_add ps mem_new)"
    by (simp add: registered_def)
  from pat_inv_get_all [OF inv] pat_inv_contains [OF inv] inv show ?thesis
    by (simp add: pat_count_def pat_inv_def)
qed

text \<open>After a removal the order is lost: the next id is the number of patterns left, so it can
  repeat one in use, and the later registration is listed before the earlier one.\<close>

theorem pattern_order_after_remove:
  "pat_get_all (pat_add ''a'' (snd (pat_remove ''b'' (fold pat_add [''b'', ''c''] mem_new)))) = [''a'', ''c'']"
  by (simp add: pat_get_all_def pat_add_def pat_remove_def mem_new_def bt_remove_def bt_get_def
      list_less_def)

end
