(* ===== verification/Bloom.thy ===== *)
theory Bloom
  imports Codec
begin

text \<open>
  The Bloom filter that prunes branches of the trie search
  (\<open>crates/opsense-mlib/src/bloom.rs\<close>). The bit array is a list of 64-bit words; an
  out-of-range index is a panic, which the operations return as \<open>None\<close>, so that the
  absence of panics is something to prove. Sizes of type \<open>usize\<close> are natural numbers
  with the 64-bit wrap-around written out. The float estimate \<open>estimated_fpr\<close> is not
  modelled.
\<close>

section \<open>State and operations\<close>

record bloom =
  bits :: "u64 list"
  bloom_k :: u64
  bloom_m :: u64
  m_mask :: u64

function pow2_from :: "nat \<Rightarrow> nat \<Rightarrow> nat" where
  "pow2_from p n = (if p = 0 \<or> n \<le> p then p else pow2_from (2 * p) n)"
  by pat_completeness auto
termination
  by (relation "measure (\<lambda>(p, n). n - p)") auto

declare pow2_from.simps [simp del]

definition next_power_of_two :: "nat \<Rightarrow> nat" where
  "next_power_of_two n = pow2_from 1 n mod 2 ^ 64"

definition bloom_new :: "nat \<Rightarrow> nat \<Rightarrow> bloom" where
  "bloom_new n_bits hashes =
     (let size' = max (next_power_of_two n_bits) 64;
          words = size' div 64
      in \<lparr>bits = replicate words 0, bloom_k = of_nat hashes, bloom_m = of_nat size', m_mask = of_nat (size' - 1)\<rparr>)"

definition FX_PRIME :: u64 where "FX_PRIME = 0x517cc1b727220a95"

definition fx_hash :: "u64 \<Rightarrow> u8 list \<Rightarrow> u64" where
  "fx_hash seed data = fold (\<lambda>byte h. (h XOR ucast byte) * FX_PRIME) data seed"

definition hash128 :: "u8 list \<Rightarrow> u64 \<times> u64" where
  "hash128 data =
     (let h1 = fx_hash 0 data;
          h2 = fx_hash 0xa5a5a5a5a5a5a5a5 data
      in (h1 XOR drop_bit 32 h1, h2 XOR drop_bit 32 h2))"

definition bit_positions :: "bloom \<Rightarrow> u64 \<Rightarrow> u64 \<Rightarrow> nat list" where
  "bit_positions b h1 h2 = map (\<lambda>i. unat ((h1 + of_nat i * h2) AND m_mask b)) [0..<unat (bloom_k b)]"

definition set_bit :: "nat \<Rightarrow> bloom \<Rightarrow> bloom option" where
  "set_bit pos b =
     (let idx = pos div 64; off = pos mod 64
      in if idx < length (bits b)
         then Some (b\<lparr>bits := (bits b)[idx := bits b ! idx OR push_bit off 1]\<rparr>)
         else None)"

definition get_bit :: "bloom \<Rightarrow> nat \<Rightarrow> bool option" where
  "get_bit b pos =
     (let idx = pos div 64; off = pos mod 64
      in if idx < length (bits b) then Some (drop_bit off (bits b ! idx) AND 1 = 1) else None)"

fun set_bits :: "nat list \<Rightarrow> bloom \<Rightarrow> bloom option" where
  "set_bits [] b = Some b"
| "set_bits (p # ps) b = (case set_bit p b of None \<Rightarrow> None | Some b' \<Rightarrow> set_bits ps b')"

fun all_bits_set :: "bloom \<Rightarrow> nat list \<Rightarrow> bool option" where
  "all_bits_set b [] = Some True"
| "all_bits_set b (p # ps) =
     (case get_bit b p of
        None \<Rightarrow> None
      | Some False \<Rightarrow> Some False
      | Some True \<Rightarrow> all_bits_set b ps)"

definition bloom_insert :: "u8 list \<Rightarrow> bloom \<Rightarrow> bloom option" where
  "bloom_insert data b = (let (h1, h2) = hash128 data in set_bits (bit_positions b h1 h2) b)"

definition bloom_contains :: "bloom \<Rightarrow> u8 list \<Rightarrow> bool option" where
  "bloom_contains b data = (let (h1, h2) = hash128 data in all_bits_set b (bit_positions b h1 h2))"

definition bloom_contains_raw :: "bloom \<Rightarrow> u64 \<Rightarrow> u64 \<Rightarrow> bool option" where
  "bloom_contains_raw b h1 h2 = all_bits_set b (bit_positions b h1 h2)"

definition bloom_union :: "bloom \<Rightarrow> bloom \<Rightarrow> bloom option" where
  "bloom_union b other =
     (if length (bits b) = length (bits other)
      then Some (b\<lparr>bits := map2 (\<lambda>x y. x OR y) (bits b) (bits other)\<rparr>)
      else None)"

definition bloom_clear :: "bloom \<Rightarrow> bloom" where
  "bloom_clear b = b\<lparr>bits := replicate (length (bits b)) 0\<rparr>"

definition count_ones :: "u64 \<Rightarrow> nat" where
  "count_ones w = length (filter (bit w) [0..<64])"

fun popcount_words :: "u64 list \<Rightarrow> nat" where
  "popcount_words (a # b # c # d # ws) =
     (count_ones a + count_ones b + count_ones c + count_ones d) + popcount_words ws"
| "popcount_words ws = sum_list (map count_ones ws)"

definition bloom_popcount :: "bloom \<Rightarrow> nat" where
  "bloom_popcount b = popcount_words (bits b)"

section \<open>Serialization\<close>

definition bloom_serialize :: "bloom \<Rightarrow> u8 list" where
  "bloom_serialize b =
     u64_to_le_bytes (of_nat (length (bits b))) @ u64_to_le_bytes (bloom_k b)
     @ u64_to_le_bytes (bloom_m b) @ u64_to_le_bytes (m_mask b) @ concat (map u64_to_le_bytes (bits b))"

text \<open>
  \<open>read_words n rest\<close> fills a vector of \<open>n\<close> words from eight bytes each; the slice
  panics when the bytes run out. The outer option of \<open>bloom_deserialize\<close> is the panic
  (a failed slice, or a vector above \<open>isize::MAX\<close> bytes), the inner one the result.
\<close>

fun read_words :: "nat \<Rightarrow> u8 list \<Rightarrow> u64 list option" where
  "read_words 0 bs = Some []"
| "read_words (Suc n) bs =
     (if length bs < 8 then None
      else map_option (\<lambda>ws. u64_from_le_bytes (take 8 bs) # ws) (read_words n (drop 8 bs)))"

definition bloom_deserialize :: "u8 list \<Rightarrow> bloom option option" where
  "bloom_deserialize data =
     (if length data < 32 then Some None
      else
        let header = take 32 data; rest = drop 32 data;
            bits_len = unat (u64_from_le_bytes (take 8 header));
            k' = u64_from_le_bytes (take 8 (drop 8 header));
            m' = u64_from_le_bytes (take 8 (drop 16 header));
            mask' = u64_from_le_bytes (take 8 (drop 24 header))
        in if length rest < bits_len * 8 mod 2 ^ 64 then Some None
           else if 2 ^ 63 \<le> bits_len * 8 then None
           else case read_words bits_len rest of
                  None \<Rightarrow> None
                | Some ws \<Rightarrow> Some (Some \<lparr>bits = ws, bloom_k = k', bloom_m = m', m_mask = mask'\<rparr>))"

section \<open>Well-formed filters and the set of bits they hold\<close>

definition bloom_wf :: "bloom \<Rightarrow> bool" where
  "bloom_wf b = (unat (m_mask b) + 1 = 64 * length (bits b) \<and> (\<exists>e < 64. unat (m_mask b) + 1 = 2 ^ e))"

definition bit_set :: "bloom \<Rightarrow> nat set" where
  "bit_set b = {p. p < 64 * length (bits b) \<and> bit (bits b ! (p div 64)) (p mod 64)}"

lemma and_one_bit: "(drop_bit n w AND 1 = 1) = bit w n" for w :: u64
  by (simp add: bit_iff_odd_drop_bit and_one_eq odd_iff_mod_2_eq_one)

lemma get_bit_iff: "p < 64 * length (bits b) \<Longrightarrow> get_bit b p = Some (p \<in> bit_set b)"
  by (auto simp: get_bit_def bit_set_def and_one_bit Let_def)

lemma set_bit_spec:
  assumes "p < 64 * length (bits b)"
  obtains b' where "set_bit p b = Some b'" and "bit_set b' = insert p (bit_set b)"
    and "length (bits b') = length (bits b)" and "bloom_k b' = bloom_k b" and "bloom_m b' = bloom_m b" and "m_mask b' = m_mask b"
proof -
  define b' where "b' = b\<lparr>bits := (bits b)[p div 64 := bits b ! (p div 64) OR push_bit (p mod 64) 1]\<rparr>"
  have idx: "p div 64 < length (bits b)" using assms by simp
  then have "set_bit p b = Some b'" by (simp add: set_bit_def b'_def Let_def)
  moreover have "bit_set b' = insert p (bit_set b)"
  proof (rule set_eqI)
    fix q
    have eq: "q = p \<longleftrightarrow> q div 64 = p div 64 \<and> q mod 64 = p mod 64"
      by (metis div_mult_mod_eq)
    show "q \<in> bit_set b' \<longleftrightarrow> q \<in> insert p (bit_set b)"
    proof (cases "q div 64 = p div 64")
      case True
      with idx assms show ?thesis
        by (auto simp: bit_set_def b'_def eq bit_simps) 
    next
      case False
      with eq show ?thesis by (auto simp: bit_set_def b'_def)
    qed
  qed
  ultimately show thesis using that [of b'] by (simp add: b'_def)
qed

definition same_shape :: "bloom \<Rightarrow> bloom \<Rightarrow> bool" where
  "same_shape b b' = (length (bits b') = length (bits b) \<and> bloom_k b' = bloom_k b
     \<and> bloom_m b' = bloom_m b \<and> m_mask b' = m_mask b)"

lemma same_shape_refl [simp]: "same_shape b b"
  by (simp add: same_shape_def)

lemma same_shape_trans: "same_shape a b \<Longrightarrow> same_shape b c \<Longrightarrow> same_shape a c"
  by (simp add: same_shape_def)

lemma same_shape_wf: "same_shape b b' \<Longrightarrow> bloom_wf b \<Longrightarrow> bloom_wf b'"
  by (auto simp: same_shape_def bloom_wf_def)

lemma same_shape_positions: "same_shape b b' \<Longrightarrow> bit_positions b' = bit_positions b"
  by (simp add: same_shape_def bit_positions_def fun_eq_iff)

lemma set_bits_spec:
  assumes "\<forall>p \<in> set ps. p < 64 * length (bits b)"
  shows "\<exists>b'. set_bits ps b = Some b' \<and> bit_set b' = set ps \<union> bit_set b \<and> same_shape b b'"
  using assms
proof (induction ps arbitrary: b)
  case Nil
  then show ?case by simp
next
  case (Cons p ps)
  then have "p < 64 * length (bits b)" by simp
  then obtain b1 where b1: "set_bit p b = Some b1" "bit_set b1 = insert p (bit_set b)"
    and sh: "same_shape b b1"
    by (rule set_bit_spec) (simp add: same_shape_def)
  moreover have "\<forall>q \<in> set ps. q < 64 * length (bits b1)"
    using Cons.prems sh by (simp add: same_shape_def)
  from Cons.IH [OF this] obtain b2 where
    "set_bits ps b1 = Some b2" "bit_set b2 = set ps \<union> bit_set b1" "same_shape b1 b2" by blast
  ultimately show ?case using same_shape_trans by auto
qed

lemma all_bits_set_iff:
  "\<forall>p \<in> set ps. p < 64 * length (bits b) \<Longrightarrow> all_bits_set b ps = Some (set ps \<subseteq> bit_set b)"
  by (induction ps) (auto simp: get_bit_iff split: bool.splits)

lemma bit_positions_range:
  assumes "bloom_wf b" and "p \<in> set (bit_positions b h1 h2)"
  shows "p < 64 * length (bits b)"
proof -
  obtain x where "p = unat (x AND m_mask b)"
    using assms(2) by (auto simp: bit_positions_def)
  moreover have "x AND m_mask b \<le> m_mask b" by (rule word_and_le1)
  ultimately have "p \<le> unat (m_mask b)" by (simp add: word_le_nat_alt)
  with assms(1) show ?thesis by (simp add: bloom_wf_def)
qed

lemma bloom_insert_spec:
  assumes "bloom_wf b"
  shows "\<exists>b'. bloom_insert d b = Some b' \<and> same_shape b b' \<and> bloom_wf b'
    \<and> bit_set b' = set (bit_positions b (fst (hash128 d)) (snd (hash128 d))) \<union> bit_set b"
  using set_bits_spec [of "bit_positions b (fst (hash128 d)) (snd (hash128 d))" b]
    bit_positions_range [OF assms] same_shape_wf assms
  by (fastforce simp: bloom_insert_def case_prod_beta Let_def)

lemma bloom_contains_iff:
  "bloom_wf b \<Longrightarrow> bloom_contains b d =
     Some (set (bit_positions b (fst (hash128 d)) (snd (hash128 d))) \<subseteq> bit_set b)"
  by (simp add: bloom_contains_def case_prod_beta all_bits_set_iff bit_positions_range)

lemma same_shape_contains_mono:
  assumes "bloom_wf b" and "same_shape b b'" and "bit_set b \<subseteq> bit_set b'"
    and "bloom_contains b d = Some True"
  shows "bloom_contains b' d = Some True"
  using assms same_shape_wf [OF assms(2,1)] same_shape_positions [OF assms(2)]
  by (auto simp: bloom_contains_iff)

section \<open>The contract of a membership filter\<close>

locale membership_filter =
  fixes wf_filter :: "'f \<Rightarrow> bool"
    and add :: "'d \<Rightarrow> 'f \<Rightarrow> 'f option"
    and may_contain :: "'f \<Rightarrow> 'd \<Rightarrow> bool option"
  assumes add_total: "wf_filter f \<Longrightarrow> \<exists>f'. add d f = Some f' \<and> wf_filter f'"
    and add_self: "wf_filter f \<Longrightarrow> add d f = Some f' \<Longrightarrow> may_contain f' d = Some True"
    and add_keeps: "wf_filter f \<Longrightarrow> add d f = Some f' \<Longrightarrow> may_contain f e = Some True \<Longrightarrow>
       may_contain f' e = Some True"
    and may_contain_total: "wf_filter f \<Longrightarrow> \<exists>r. may_contain f d = Some r"

fun add_all :: "('d \<Rightarrow> 'f \<Rightarrow> 'f option) \<Rightarrow> 'd list \<Rightarrow> 'f \<Rightarrow> 'f option" where
  "add_all add [] f = Some f"
| "add_all add (d # ds) f = (case add d f of None \<Rightarrow> None | Some f' \<Rightarrow> add_all add ds f')"

context membership_filter
begin

lemma add_all_total: "wf_filter f \<Longrightarrow> \<exists>f'. add_all add ds f = Some f' \<and> wf_filter f'"
proof (induction ds arbitrary: f)
  case Nil
  then show ?case by simp
next
  case (Cons d ds)
  then obtain f1 where "add d f = Some f1" "wf_filter f1" using add_total by blast
  with Cons.IH show ?case by simp
qed

lemma add_all_keeps:
  "wf_filter f \<Longrightarrow> add_all add ds f = Some f' \<Longrightarrow> may_contain f e = Some True \<Longrightarrow>
   may_contain f' e = Some True"
proof (induction ds arbitrary: f)
  case Nil
  then show ?case by simp
next
  case (Cons d ds)
  then obtain f1 where "add d f = Some f1" "wf_filter f1" using add_total by blast
  with Cons add_keeps show ?case by simp
qed

lemma add_all_member:
  "wf_filter f \<Longrightarrow> add_all add ds f = Some f' \<Longrightarrow> d \<in> set ds \<Longrightarrow> may_contain f' d = Some True"
proof (induction ds arbitrary: f)
  case Nil
  then show ?case by simp
next
  case (Cons x ds)
  then obtain f1 where f1: "add x f = Some f1" "wf_filter f1" using add_total by blast
  show ?case
  proof (cases "d = x")
    case True
    with Cons.prems f1 add_self add_all_keeps show ?thesis by simp
  next
    case False
    with Cons f1 show ?thesis by simp
  qed
qed

end

interpretation bloom_filter: membership_filter bloom_wf bloom_insert bloom_contains
proof unfold_locales
  fix f :: bloom and d f' e
  assume wf: "bloom_wf f"
  then obtain g where g: "bloom_insert d f = Some g" "same_shape f g" "bloom_wf g"
    "bit_set g = set (bit_positions f (fst (hash128 d)) (snd (hash128 d))) \<union> bit_set f"
    using bloom_insert_spec by blast
  show "\<exists>f'. bloom_insert d f = Some f' \<and> bloom_wf f'" using g by blast
  show "\<exists>r. bloom_contains f d = Some r" using wf by (simp add: bloom_contains_iff)
  assume "bloom_insert d f = Some f'"
  with g have [simp]: "f' = g" by simp
  show "bloom_contains f' d = Some True"
    using g same_shape_positions [OF g(2)] by (simp add: bloom_contains_iff)
  assume "bloom_contains f e = Some True"
  with wf g show "bloom_contains f' e = Some True"
    using same_shape_contains_mono [OF wf g(2)] by simp
qed

section \<open>Filters made by \<open>new\<close>\<close>

lemma pow2_from_power:
  assumes "p = 2 ^ i"
  shows "\<exists>j. pow2_from p n = 2 ^ j"
  using assms
proof (induction p n arbitrary: i rule: pow2_from.induct)
  case (1 p n)
  show ?case
  proof (cases "p = 0 \<or> n \<le> p")
    case True
    then have "pow2_from p n = p" by (auto simp: pow2_from.simps [of p n])
    then show ?thesis using 1(2) by blast
  next
    case False
    then have "\<exists>j. pow2_from (2 * p) n = 2 ^ j" using 1(1) [of "Suc i"] 1(2) by simp
    with False show ?thesis by (simp add: pow2_from.simps [of p n])
  qed
qed

lemma bloom_new_size: "\<exists>e. 6 \<le> e \<and> e < 64 \<and> max (next_power_of_two n) 64 = 2 ^ e"
proof -
  obtain j where j: "pow2_from 1 n = 2 ^ j" using pow2_from_power [of 1 0 n] by auto
  show ?thesis
  proof (cases "6 \<le> j \<and> j < 64")
    case True
    then have "(2::nat) ^ j mod 2 ^ 64 = 2 ^ j" by (intro mod_less power_strict_increasing) simp_all
    moreover have "(2::nat) ^ 6 \<le> 2 ^ j" using True by (intro power_increasing) simp_all
    ultimately have "max (next_power_of_two n) 64 = 2 ^ j"
      unfolding next_power_of_two_def j by simp
    with True show ?thesis by blast
  next
    case False
    have "next_power_of_two n \<le> 64"
    proof (cases "j < 6")
      case True
      then have "(2::nat) ^ j \<le> 2 ^ 6" by (intro power_increasing) simp_all
      then show ?thesis unfolding next_power_of_two_def j using mod_less_eq_dividend order_trans by fastforce
    next
      case False
      with \<open>\<not> (6 \<le> j \<and> j < 64)\<close> have "64 \<le> j" by simp
      then have "(2::nat) ^ 64 dvd 2 ^ j" by (rule le_imp_power_dvd)
      then show ?thesis unfolding next_power_of_two_def j by (simp add: dvd_imp_mod_0)
    qed
    then have "max (next_power_of_two n) 64 = 2 ^ 6" by simp
    then show ?thesis by (intro exI [of _ 6]) simp
  qed
qed

lemma bloom_wf_new: "bloom_wf (bloom_new n h)"
proof -
  obtain e where e: "6 \<le> e" "e < 64" "max (next_power_of_two n) 64 = 2 ^ e"
    using bloom_new_size by blast
  have "(2::nat) ^ e \<le> 2 ^ 63" using e(2) by (intro power_increasing) simp_all
  then have "(2::nat) ^ e - 1 < 2 ^ 64" by simp
  then have mask: "unat (m_mask (bloom_new n h)) + 1 = 2 ^ e"
    by (simp add: bloom_new_def e(3) unat_of_nat Let_def del: of_nat_diff)
  have "(2::nat) ^ e = 2 ^ (6 + (e - 6))" using e(1) by simp
  also have "\<dots> = 64 * 2 ^ (e - 6)" by (simp only: power_add) simp
  finally have "(2::nat) ^ e = 64 * 2 ^ (e - 6)" .
  then have "64 * length (bits (bloom_new n h)) = 2 ^ e"
    by (simp add: bloom_new_def e(3) Let_def)
  with mask e show ?thesis by (auto simp: bloom_wf_def)
qed

section \<open>Properties\<close>

text \<open>C15: No false negatives and no panics: starting from any filter made by \<open>new\<close>, every
  insertion succeeds, and every datum inserted at any point of the sequence is still
  reported as possibly present at the end, whatever was inserted before and after it.\<close>

theorem bloom_no_false_negative:
  assumes "d \<in> set ds"
  shows "\<exists>b. add_all bloom_insert ds (bloom_new n h) = Some b \<and> bloom_contains b d = Some True"
proof -
  obtain b where "add_all bloom_insert ds (bloom_new n h) = Some b"
    using bloom_filter.add_all_total [OF bloom_wf_new] by blast
  with assms bloom_filter.add_all_member [OF bloom_wf_new] show ?thesis by blast
qed

text \<open>Witness of C15 at the filter size and hash count of the trie.\<close>

theorem bloom_no_false_negative_witness:
  "\<exists>b. add_all bloom_insert [[1], [2, 3]] (bloom_new 4096 10) = Some b
       \<and> bloom_contains b [2, 3] = Some True"
  by (rule bloom_no_false_negative) simp

lemma bit_set_union:
  assumes "length (bits a) = length (bits b)"
  shows "bit_set (a\<lparr>bits := map2 (\<lambda>x y. x OR y) (bits a) (bits b)\<rparr>) = bit_set a \<union> bit_set b"
  using assms by (auto simp: bit_set_def bit_simps)

text \<open>The union of two filters of the same shape keeps every positive answer of both.\<close>

theorem bloom_union_keeps:
  assumes "bloom_wf a" and "bloom_wf b" and "same_shape a b"
    and "bloom_contains a d = Some True \<or> bloom_contains b d = Some True"
  shows "\<exists>u. bloom_union a b = Some u \<and> bloom_wf u \<and> bloom_contains u d = Some True"
proof -
  define u where "u = a\<lparr>bits := map2 (\<lambda>x y. x OR y) (bits a) (bits b)\<rparr>"
  have len: "length (bits a) = length (bits b)" using assms(3) by (simp add: same_shape_def)
  have sa: "same_shape a u" and sb: "same_shape b u"
    using assms(3) by (auto simp: same_shape_def u_def)
  have "bit_set a \<subseteq> bit_set u" and "bit_set b \<subseteq> bit_set u"
    using bit_set_union [OF len] by (auto simp: u_def)
  then have "bloom_contains u d = Some True"
    using assms(4) same_shape_contains_mono [OF assms(1) sa] same_shape_contains_mono [OF assms(2) sb]
    by blast
  moreover have "bloom_union a b = Some u" by (simp add: bloom_union_def len u_def)
  ultimately show ?thesis using same_shape_wf [OF sa assms(1)] by blast
qed

text \<open>An instance: an empty filter joined with one that holds a datum.\<close>

theorem bloom_union_keeps_witness:
  "\<exists>b. bloom_insert [7] (bloom_new 64 2) = Some b \<and>
     (\<exists>u. bloom_union (bloom_new 64 2) b = Some u \<and> bloom_wf u \<and> bloom_contains u [7] = Some True)"
proof -
  obtain b where b: "bloom_insert [7] (bloom_new 64 2) = Some b" "same_shape (bloom_new 64 2) b" "bloom_wf b"
    using bloom_insert_spec [OF bloom_wf_new] by blast
  moreover have "bloom_contains b [7] = Some True"
    by (rule bloom_filter.add_self [OF bloom_wf_new b(1)])
  ultimately show ?thesis using bloom_union_keeps [OF bloom_wf_new b(3,2)] by blast
qed

lemma read_words_concat:
  "read_words (length ws) (concat (map u64_to_le_bytes ws) @ extra) = Some ws"
  by (induction ws) simp_all

lemma bloom_wf_length: "bloom_wf b \<Longrightarrow> length (bits b) < 2 ^ 60"
  using unat_less_pow [of "m_mask b"] by (simp add: bloom_wf_def)

text \<open>C26: A stored filter is read back unchanged: deserializing the serialized bytes, with
  or without further bytes behind them, returns the same filter.\<close>

theorem bloom_serialize_roundtrip:
  assumes "bloom_wf b"
  shows "bloom_deserialize (bloom_serialize b @ extra) = Some (Some b)"
proof -
  define ws where "ws = concat (map u64_to_le_bytes (bits b))"
  have len: "length (bits b) < 2 ^ 60" by (rule bloom_wf_length [OF assms])
  then have ulen: "unat (of_nat (length (bits b)) :: u64) = length (bits b)"
    by (simp add: unat_of_nat)
  have "length (concat (map u64_to_le_bytes xs)) = 8 * length xs" for xs
    by (induction xs) simp_all
  then have "length ws = 8 * length (bits b)" by (simp add: ws_def)
  moreover have "length (bits b) * 8 mod 2 ^ 64 = length (bits b) * 8" using len by simp
  ultimately show ?thesis
    using len ulen read_words_concat [of "bits b" extra]
    by (simp add: bloom_deserialize_def bloom_serialize_def ws_def [symmetric])
qed

text \<open>Witness of C26 at a fresh filter.\<close>

theorem bloom_serialize_roundtrip_witness:
  "bloom_deserialize (bloom_serialize (bloom_new 4096 10) @ [1, 2]) = Some (Some (bloom_new 4096 10))"
  by (rule bloom_serialize_roundtrip) (rule bloom_wf_new)

lemma popcount_words_sum: "popcount_words ws = sum_list (map count_ones ws)"
  by (induction ws rule: popcount_words.induct) simp_all

lemma count_ones_card: "count_ones w = card {i. i < 64 \<and> bit w i}"
  by (simp add: count_ones_def distinct_length_filter Collect_conj_eq Int_commute
      lessThan_def [symmetric] atLeast0LessThan)

lemma bit_set_words:
  "bit_set b = (\<Union>i < length (bits b). (\<lambda>j. 64 * i + j) ` {j. j < 64 \<and> bit (bits b ! i) j})"
proof (rule set_eqI)
  fix p
  have "p \<in> bit_set b \<longleftrightarrow> p div 64 < length (bits b) \<and> bit (bits b ! (p div 64)) (p mod 64)"
    by (auto simp: bit_set_def)
  also have "\<dots> \<longleftrightarrow> (\<exists>i < length (bits b). \<exists>j < 64. p = 64 * i + j \<and> bit (bits b ! i) j)"
  proof
    assume "p div 64 < length (bits b) \<and> bit (bits b ! (p div 64)) (p mod 64)"
    moreover have "p = 64 * (p div 64) + p mod 64" and "p mod 64 < 64" by simp_all
    ultimately show "\<exists>i < length (bits b). \<exists>j < 64. p = 64 * i + j \<and> bit (bits b ! i) j" by blast
  qed auto
  finally show "p \<in> bit_set b \<longleftrightarrow> p \<in> (\<Union>i < length (bits b). (\<lambda>j. 64 * i + j) ` {j. j < 64 \<and> bit (bits b ! i) j})"
    by blast
qed

text \<open>C27: The four-words-at-a-time population count is the number of distinct bit positions
  that are set, hence at most the number of bits of the filter.\<close>

theorem bloom_popcount_correct:
  "bloom_popcount b = card (bit_set b) \<and> bloom_popcount b \<le> 64 * length (bits b)"
proof -
  let ?W = "\<lambda>i. (\<lambda>j. 64 * i + j) ` {j. j < 64 \<and> bit (bits b ! i) j}"
  have "card (bit_set b) = (\<Sum>i < length (bits b). card (?W i))"
    unfolding bit_set_words
  proof (rule card_UN_disjoint)
    show "\<forall>i \<in> {..<length (bits b)}. \<forall>j \<in> {..<length (bits b)}. i \<noteq> j \<longrightarrow> ?W i \<inter> ?W j = {}"
      by auto
  qed simp_all
  also have "\<dots> = (\<Sum>i < length (bits b). count_ones (bits b ! i))"
    by (simp add: card_image count_ones_card)
  also have "\<dots> = bloom_popcount b"
    by (simp add: bloom_popcount_def popcount_words_sum sum_list_sum_nth atLeast0LessThan)
  finally have "bloom_popcount b = card (bit_set b)" by simp
  moreover have "bit_set b \<subseteq> {..<64 * length (bits b)}" by (auto simp: bit_set_def)
  from card_mono [OF _ this] have "card (bit_set b) \<le> 64 * length (bits b)" by simp
  ultimately show ?thesis by simp
qed

text \<open>C34: A header that declares at least \<open>2 ^ 60\<close> words is not rejected as malformed when
  eight times the count wraps to at most the bytes present: the length check passes and
  the allocation panics instead of \<open>deserialize\<close> returning \<open>None\<close>.\<close>

theorem bloom_deserialize_panics:
  assumes "32 \<le> length data" and "2 ^ 60 \<le> unat (u64_from_le_bytes (take 8 data))"
    and "unat (u64_from_le_bytes (take 8 data)) * 8 mod 2 ^ 64 \<le> length data - 32"
  shows "bloom_deserialize data = None"
  using assms by (simp add: bloom_deserialize_def Let_def min_def)

text \<open>Witness of C34: 32 bytes that declare \<open>2 ^ 61\<close> words.\<close>

theorem bloom_deserialize_panics_witness:
  "bloom_deserialize ([0, 0, 0, 0, 0, 0, 0, 0x20] @ replicate 24 0) = None"
  by (rule bloom_deserialize_panics) (simp_all add: u64_from_le_bytes_def)

end
