(* ===== verification/Radix.thy ===== *)
theory Radix
  imports Storage Bloom
begin

text \<open>
  The radix trie over a node storage (\<open>crates/opsense-mlib/src/radix.rs\<close>): one tree per shard
  of the first element, path-compressed nodes, splits and extensions through transactions.
  The storage is the in-memory backend of \<open>Storage\<close>. The element type is a parameter with its
  \<open>trait Element\<close> as a record of functions; the cargo feature \<open>bloom-search\<close>, off in the default
  build, is a field of the tree's configuration. An error carries the state reached when it was
  raised; \<open>Panic\<close> stands for an index or slice out of range.
\<close>

section \<open>Elements\<close>

record 'a element =
  el_encode :: "'a \<Rightarrow> bytes"
  el_decode :: "bytes \<Rightarrow> 'a option"
  byte_size :: nat
  to_usize :: "'a \<Rightarrow> nat"

definition word_element :: "'a::len word element" where
  "word_element =
     (let n = LENGTH('a) div 8
      in \<lparr>el_encode = (\<lambda>w. rev (nat_to_le n (unat w))),
          el_decode = (\<lambda>bs. if n \<le> length bs then Some (of_nat (nat_of_le (rev (take n bs)))) else None),
          byte_size = n,
          to_usize = (\<lambda>w. unat w mod 2 ^ 64)\<rparr>)"

datatype radix_error =
    InvalidIndex
  | NotFound
  | Callback
  | CategoryStorage storage_error
  | Panic

definition from_vec :: "'a element \<Rightarrow> 'a list \<Rightarrow> bytes" where
  "from_vec E es = concat (map (el_encode E) es)"

function to_vec :: "'a element \<Rightarrow> bytes \<Rightarrow> 'a list option" where
  "to_vec E bs =
     (if byte_size E = 0 then None
      else if bs = [] then Some []
      else case el_decode E (take (byte_size E) bs) of
             None \<Rightarrow> None
           | Some e \<Rightarrow> map_option (Cons e) (to_vec E (drop (byte_size E) bs)))"
  by pat_completeness auto
termination
  by (relation "measure (\<lambda>(E, bs). length bs)") auto

declare to_vec.simps [simp del]

section \<open>The tree\<close>

record 'a radix =
  sharding :: nat
  on_node :: "('a \<Rightarrow> bytes \<Rightarrow> radix_error + nat) option"
  on_split :: "(nat \<Rightarrow> nat \<Rightarrow> 'a list \<Rightarrow> nat \<Rightarrow> radix_error + unit) option"
  bloom_search :: bool

definition radix_new :: "nat \<Rightarrow> 'a radix" where
  "radix_new n = \<lparr>sharding = max n 1, on_node = None, on_split = None, bloom_search = False\<rparr>"

definition with_split :: "(nat \<Rightarrow> nat \<Rightarrow> 'a list \<Rightarrow> nat \<Rightarrow> radix_error + unit) \<Rightarrow> 'a radix \<Rightarrow> 'a radix" where
  "with_split cb R = R\<lparr>on_split := Some cb\<rparr>"

definition with_node_access :: "('a \<Rightarrow> bytes \<Rightarrow> radix_error + nat) \<Rightarrow> 'a radix \<Rightarrow> 'a radix" where
  "with_node_access cb R = R\<lparr>on_node := Some cb\<rparr>"

definition shard_of :: "'a element \<Rightarrow> 'a \<Rightarrow> nat \<Rightarrow> nat" where
  "shard_of E e n = to_usize E e mod n"

definition read_node :: "'a element \<Rightarrow> mem \<Rightarrow> nat \<Rightarrow> radix_error + ('a list \<times> nat)" where
  "read_node E s i =
     (case mem_get_node i s of
        Inl e \<Rightarrow> Inl (CategoryStorage e)
      | Inr (bs, r) \<Rightarrow> (case to_vec E bs of None \<Rightarrow> Inl Panic | Some p \<Rightarrow> Inr (p, r)))"

definition common_len :: "'a list \<Rightarrow> 'a list \<Rightarrow> nat" where
  "common_len p q = length (takeWhile (\<lambda>(a, b). a = b) (zip p q))"

text \<open>The first child whose prefix starts with the given element.\<close>

fun find_child :: "'a element \<Rightarrow> mem \<Rightarrow> 'a \<Rightarrow> nat list \<Rightarrow> radix_error + nat option" where
  "find_child E s e [] = Inr None"
| "find_child E s e (c # cs) =
     (case read_node E s c of
        Inl err \<Rightarrow> Inl err
      | Inr (p, _) \<Rightarrow> if p \<noteq> [] \<and> hd p = e then Inr (Some c) else find_child E s e cs)"

text \<open>
  A descent compares at least one element at every node but a root with an empty prefix,
  which the following measure counts.
\<close>

definition descent :: "'a element \<Rightarrow> mem \<Rightarrow> nat \<Rightarrow> nat \<Rightarrow> nat" where
  "descent E s i n = 2 * n + (case read_node E s i of Inr ([], _) \<Rightarrow> 1 | _ \<Rightarrow> 0)"

lemma find_child_Some:
  "find_child E s e cs = Inr (Some c) \<Longrightarrow> \<exists>p r. c \<in> set cs \<and> read_node E s c = Inr (p, r) \<and> p \<noteq> [] \<and> hd p = e"
proof (induction cs)
  case (Cons d cs)
  then show ?case by (cases "read_node E s d") (auto split: prod.splits if_splits)
qed simp

lemma common_len_le: "common_len p q \<le> length p" "common_len p q \<le> length q"
proof -
  have "common_len p q \<le> length (zip p q)" unfolding common_len_def by (rule length_takeWhile_le)
  then show "common_len p q \<le> length p" "common_len p q \<le> length q" by simp_all
qed

lemma descent_child:
  assumes "read_node E s i = Inr (p, r)" and "\<not> common_len p q < length p"
    and "find_child E s e cs = Inr (Some c)"
  shows "descent E s c (length q - common_len p q) < descent E s i (length q)"
proof -
  obtain p' r' where c: "read_node E s c = Inr (p', r')" "p' \<noteq> []"
    using find_child_Some [OF assms(3)] by auto
  have len: "common_len p q = length p" using assms(2) common_len_le(1) [of p q] by simp
  then have "length p \<le> length q" using common_len_le(2) [of p q] by simp
  with c assms(1) len show ?thesis
    by (cases p; cases p') (auto simp: descent_def)
qed

section \<open>Exact match\<close>

function match_loop :: "'a element \<Rightarrow> mem \<Rightarrow> 'a list \<Rightarrow> nat \<Rightarrow> nat \<Rightarrow> radix_error + nat" where
  "match_loop E s key tail i =
     (if i = EMPTY then Inl NotFound
      else case read_node E s i of
        Inl e \<Rightarrow> Inl e
      | Inr (p, r) \<Rightarrow>
          let common = common_len p (drop tail key) in
          if common < length p then Inl NotFound
          else
            let tail' = tail + common in
            if tail' = length key then (if r \<noteq> EMPTY then Inr r else Inl NotFound)
            else case find_child E s (key ! tail') (mem_get_children i s) of
                Inl e \<Rightarrow> Inl e
              | Inr None \<Rightarrow> match_loop E s key tail' EMPTY
              | Inr (Some c) \<Rightarrow> match_loop E s key tail' c)"
  by pat_completeness auto
termination
proof (relation "measure (\<lambda>(E, s, key, tail, i). if i = EMPTY then 0 else Suc (descent E s i (length key - tail)))",
    goal_cases)
  case (3 E s key tail i x p r common tail' y c)
  then have "descent E s c (length (drop tail key) - common_len p (drop tail key))
      < descent E s i (length (drop tail key))"
    by (intro descent_child) auto
  with 3 show ?case by auto
qed auto

declare match_loop.simps [simp del]

definition radix_match :: "'a element \<Rightarrow> 'a radix \<Rightarrow> nat \<Rightarrow> 'a list \<Rightarrow> mem \<Rightarrow> radix_error + nat" where
  "radix_match E R begin_id key s =
     (if key = [] then Inl NotFound
      else
        let i = (if begin_id = EMPTY then mem_get_root (shard_of E (hd key) (sharding R)) s else begin_id)
        in if i = EMPTY then Inl NotFound else match_loop E s key 0 i)"

section \<open>Following a key\<close>

function path_loop :: "'a element \<Rightarrow> mem \<Rightarrow> 'a list \<Rightarrow> nat \<Rightarrow> nat \<Rightarrow> radix_error + nat list" where
  "path_loop E s key pos i =
     (case read_node E s i of
        Inl e \<Rightarrow> Inl e
      | Inr (p, _) \<Rightarrow>
          let common = common_len p (drop pos key); pos' = pos + common in
          if pos' = length key \<or> common < length p then Inr [i]
          else case find_child E s (key ! pos') (mem_get_children i s) of
              Inl e \<Rightarrow> Inl e
            | Inr None \<Rightarrow> Inr [i]
            | Inr (Some c) \<Rightarrow>
                (case path_loop E s key pos' c of Inl e \<Rightarrow> Inl e | Inr path \<Rightarrow> Inr (i # path)))"
  by pat_completeness auto
termination
proof (relation "measure (\<lambda>(E, s, key, pos, i). descent E s i (length key - pos))", goal_cases)
  case (2 E s key pos i x p r common pos' y c)
  then have "descent E s c (length (drop pos key) - common_len p (drop pos key))
      < descent E s i (length (drop pos key))"
    by (intro descent_child) auto
  with 2 show ?case by auto
qed auto

declare path_loop.simps [simp del]

definition follow_path_default :: "'a element \<Rightarrow> 'a radix \<Rightarrow> 'a list \<Rightarrow> mem \<Rightarrow> radix_error + nat list" where
  "follow_path_default E R key s =
     (if key = [] then Inr []
      else
        let i = mem_get_root (shard_of E (hd key) (sharding R)) s
        in if i = EMPTY then Inr [] else path_loop E s key 0 i)"

definition follow_path_with_bloom :: "'a element \<Rightarrow> 'a radix \<Rightarrow> 'a list \<Rightarrow> mem \<Rightarrow> radix_error + nat list" where
  "follow_path_with_bloom E R key s =
     (if key = [] then Inr []
      else
        let i = mem_get_root (shard_of E (hd key) (sharding R)) s
        in if i = EMPTY then Inr [] else path_loop E s key 0 i)"

definition follow_path :: "'a element \<Rightarrow> 'a radix \<Rightarrow> 'a list \<Rightarrow> mem \<Rightarrow> radix_error + nat list" where
  "follow_path E R key s =
     (if bloom_search R then follow_path_with_bloom E R key s else follow_path_default E R key s)"

section \<open>Bloom filters of nodes\<close>

definition BLOOM_SIZE :: nat where "BLOOM_SIZE = 4096"

definition BLOOM_K :: nat where "BLOOM_K = 10"

definition MATCH_CAP :: nat where "MATCH_CAP = 16"

definition bloom_subs :: "nat \<Rightarrow> bytes \<Rightarrow> bytes list" where
  "bloom_subs bs en =
     (let n = length en div bs; cap = min MATCH_CAP n
      in concat (map (\<lambda>start.
           map (\<lambda>stop. take (stop * bs - start * bs) (drop (start * bs) en))
             (takeWhile (\<lambda>stop. \<not> stop > n) [start + 1..<start + cap + 1])) [0..<n]))"

fun insert_subs :: "bytes list \<Rightarrow> bloom \<Rightarrow> bloom option" where
  "insert_subs [] bf = Some bf"
| "insert_subs (x # xs) bf = (case bloom_insert x bf of None \<Rightarrow> None | Some bf \<Rightarrow> insert_subs xs bf)"

definition stored_bloom :: "mem \<Rightarrow> nat \<Rightarrow> bloom option option" where
  "stored_bloom s i =
     (case mem_get_node_bloom i s of None \<Rightarrow> Some None | Some bs \<Rightarrow> bloom_deserialize bs)"

fun bloom_path :: "bytes list \<Rightarrow> nat list \<Rightarrow> mem \<Rightarrow> (radix_error + unit) \<times> mem" where
  "bloom_path subs [] s = (Inr (), s)"
| "bloom_path subs (i # path) s =
     (case stored_bloom s i of
        None \<Rightarrow> (Inl Panic, s)
      | Some old \<Rightarrow>
          (case insert_subs subs (case old of Some bf \<Rightarrow> bf | None \<Rightarrow> bloom_new BLOOM_SIZE BLOOM_K) of
             None \<Rightarrow> (Inl Panic, s)
           | Some bf \<Rightarrow> bloom_path subs path (mem_set_node_bloom i (bloom_serialize bf) s)))"

definition maintain_bloom :: "'a element \<Rightarrow> 'a radix \<Rightarrow> 'a list \<Rightarrow> mem \<Rightarrow> (radix_error + unit) \<times> mem" where
  "maintain_bloom E R key s =
     (if \<not> bloom_search R then (Inr (), s)
      else if key = [] then (Inr (), s)
      else
        let en = from_vec E key; bs = byte_size E
        in if length en div bs = 0 then (Inr (), s)
           else case follow_path E R key s of
               Inl e \<Rightarrow> (Inl e, s)
             | Inr path \<Rightarrow> bloom_path (bloom_subs bs en) path s)"

section \<open>Insertion\<close>

definition radix_split ::
    "'a element \<Rightarrow> 'a radix \<Rightarrow> nat \<Rightarrow> nat \<Rightarrow> 'a list \<Rightarrow> nat \<Rightarrow> mem \<Rightarrow> (radix_error + nat) \<times> mem" where
  "radix_split E R parent breakpoint suffix v s =
     (case read_node E s parent of
        Inl e \<Rightarrow> (Inl e, s)
      | Inr (old_prefix, old_record) \<Rightarrow>
          let existing = mem_get_children parent s;
              root_prefix = take breakpoint old_prefix;
              leg_prefix = drop breakpoint old_prefix;
              at_parent = (suffix = []);
              (new_id, t, s) = (if at_parent then (parent, new_tx, s)
                                else tx_new_node (from_vec E suffix) v new_tx s);
              (leg_id, t, s) = tx_new_node (from_vec E leg_prefix) old_record t s;
              t = fold (tx_move_child parent leg_id) existing t;
              t = tx_add_child parent leg_id t;
              t = (if at_parent then t else tx_add_child parent new_id t);
              t = tx_update_node parent (Some (from_vec E root_prefix)) (Some (if at_parent then v else EMPTY)) t
          in case (case on_split R of None \<Rightarrow> Inr () | Some cb \<Rightarrow> cb parent leg_id old_prefix breakpoint) of
               Inl e \<Rightarrow> (Inl e, s)
             | Inr _ \<Rightarrow> (Inr new_id, tx_commit t s))"

definition radix_extend :: "'a element \<Rightarrow> nat \<Rightarrow> 'a list \<Rightarrow> nat \<Rightarrow> mem \<Rightarrow> nat \<times> mem" where
  "radix_extend E parent suffix v s =
     (let (i, t, s) = tx_new_node (from_vec E suffix) v new_tx s;
          t = tx_add_child parent i t
      in (i, tx_commit t s))"

definition fire_node :: "'a element \<Rightarrow> 'a radix \<Rightarrow> 'a \<Rightarrow> bytes \<Rightarrow> mem \<Rightarrow> (radix_error + unit) \<times> mem" where
  "fire_node E R e d s =
     (case on_node R of
        None \<Rightarrow> (Inr (), s)
      | Some cb \<Rightarrow>
          if to_usize E e = EMPTY then (Inr (), s)
          else case cb e d of
              Inl err \<Rightarrow> (Inl err, s)
            | Inr i \<Rightarrow> if i = EMPTY then (Inr (), s) else (Inr (), mem_set_node_meta i d s))"

definition register_node :: "'a element \<Rightarrow> 'a radix \<Rightarrow> 'a \<Rightarrow> bytes \<Rightarrow> mem \<Rightarrow> (radix_error + nat) \<times> mem" where
  "register_node E R e d s =
     (if to_usize E e = EMPTY then (Inr EMPTY, s)
      else case (case on_node R of Some cb \<Rightarrow> cb e d | None \<Rightarrow> Inr (to_usize E e)) of
          Inl err \<Rightarrow> (Inl err, s)
        | Inr i \<Rightarrow> if i = EMPTY then (Inr EMPTY, s) else (Inr i, mem_set_node_meta i d s))"

fun fire_nodes :: "'a element \<Rightarrow> 'a radix \<Rightarrow> ('a \<times> bytes option) list \<Rightarrow> mem \<Rightarrow> (radix_error + unit) \<times> mem" where
  "fire_nodes E R [] s = (Inr (), s)"
| "fire_nodes E R ((e, None) # ms) s = fire_nodes E R ms s"
| "fire_nodes E R ((e, Some d) # ms) s =
     (case fire_node E R e d s of
        (Inl err, s) \<Rightarrow> (Inl err, s)
      | (Inr _, s) \<Rightarrow> fire_nodes E R ms s)"

text \<open>The way every successful mutation ends: the filters are brought up to date, then the answer.\<close>

definition finish :: "'a element \<Rightarrow> 'a radix \<Rightarrow> 'a list \<Rightarrow> 'r \<Rightarrow> mem \<Rightarrow> (radix_error + 'r) \<times> mem" where
  "finish E R key x s =
     (case maintain_bloom E R key s of (Inl e, s) \<Rightarrow> (Inl e, s) | (Inr _, s) \<Rightarrow> (Inr x, s))"

text \<open>The descent of \<open>insert\<close>; \<open>None\<close> when the loop ends without an answer (no root yet).\<close>

function insert_loop ::
    "'a element \<Rightarrow> 'a radix \<Rightarrow> 'a list \<Rightarrow> nat \<Rightarrow> mem \<Rightarrow> nat \<Rightarrow> nat
     \<Rightarrow> (radix_error + (nat \<times> nat) option) \<times> mem" where
  "insert_loop E R key index s tail i =
     (if i = EMPTY then (Inr None, s)
      else case read_node E s i of
        Inl e \<Rightarrow> (Inl e, s)
      | Inr (p, r) \<Rightarrow>
          let common = common_len p (drop tail key) in
          if common < length p then
            (case radix_split E R i common (drop (tail + common) key) index s of
               (Inl e, s) \<Rightarrow> (Inl e, s)
             | (Inr new, s) \<Rightarrow> finish E R key (Some (new, tail)) s)
          else
            let tail' = tail + common in
            if tail' = length key then
              (if r = EMPTY then
                 (case mem_update_node i None (Some index) s of
                    Inl e \<Rightarrow> (Inl (CategoryStorage e), s)
                  | Inr s \<Rightarrow> finish E R key (Some (i, tail')) s)
               else (Inr (Some (EMPTY, tail')), s))
            else case find_child E s (key ! tail') (mem_get_children i s) of
                Inl e \<Rightarrow> (Inl e, s)
              | Inr None \<Rightarrow>
                  (let (new, s) = radix_extend E i (drop tail' key) index s
                   in finish E R key (Some (new, tail')) s)
              | Inr (Some c) \<Rightarrow> insert_loop E R key index s tail' c)"
  by pat_completeness auto
termination
proof (relation "measure (\<lambda>(E, R, key, index, s, tail, i). descent E s i (length key - tail))", goal_cases)
  case (2 E R key index s tail i x p r common tail' y c)
  then have "descent E s c (length (drop tail key) - common_len p (drop tail key))
      < descent E s i (length (drop tail key))"
    by (intro descent_child) auto
  with 2 show ?case by auto
qed auto

declare insert_loop.simps [simp del]

definition insert_root :: "'a element \<Rightarrow> 'a radix \<Rightarrow> 'a list \<Rightarrow> nat \<Rightarrow> mem \<Rightarrow> (radix_error + nat \<times> nat) \<times> mem" where
  "insert_root E R key index s =
     (if length key \<ge> 2 then
        let (root, s) = mem_new_node (from_vec E (take 1 key)) EMPTY s;
            si = shard_of E (hd key) (sharding R);
            s = mem_set_root si root s;
            (leaf, s) = radix_extend E root (drop 1 key) index s;
            s = mem_add_shortcut_node si (el_encode E (hd key)) root s
        in finish E R key (leaf, 1) s
      else
        let (i, s) = mem_new_node (from_vec E key) index s;
            s = mem_set_root (shard_of E (hd key) (sharding R)) i s
        in finish E R key (i, 0) s)"

definition radix_insert ::
    "'a element \<Rightarrow> 'a radix \<Rightarrow> 'a list \<Rightarrow> nat \<Rightarrow> bytes option list \<Rightarrow> mem
     \<Rightarrow> (radix_error + nat \<times> nat) \<times> mem" where
  "radix_insert E R key index metas s =
     (if index = EMPTY then (Inl InvalidIndex, s)
      else if key = [] then (Inl NotFound, s)
      else case (if length metas = length key then fire_nodes E R (zip key metas) s else (Inr (), s)) of
          (Inl e, s) \<Rightarrow> (Inl e, s)
        | (Inr _, s) \<Rightarrow>
            (case insert_loop E R key index s 0 (mem_get_root (shard_of E (hd key) (sharding R)) s) of
               (Inl e, s) \<Rightarrow> (Inl e, s)
             | (Inr (Some x), s) \<Rightarrow> (Inr x, s)
             | (Inr None, s) \<Rightarrow> insert_root E R key index s))"

section \<open>Prefix search\<close>

fun child_entries :: "'a element \<Rightarrow> mem \<Rightarrow> 'a list \<Rightarrow> nat list \<Rightarrow> radix_error + (nat \<times> 'a list) list" where
  "child_entries E s path [] = Inr []"
| "child_entries E s path (c # cs) =
     (case read_node E s c of
        Inl e \<Rightarrow> Inl e
      | Inr (p, _) \<Rightarrow>
          (case child_entries E s path cs of Inl e \<Rightarrow> Inl e | Inr es \<Rightarrow> Inr ((c, path @ p) # es)))"

text \<open>
  The explicit stack of \<open>collect_all\<close>, top first. Each round pops one entry; the fuel bounds the
  number of rounds and \<open>None\<close> means it ran out.
\<close>

fun collect_all ::
    "nat \<Rightarrow> 'a element \<Rightarrow> mem \<Rightarrow> (nat \<times> 'a list) list \<Rightarrow> (radix_error + ('a list \<times> nat) list) option" where
  "collect_all fuel E s [] = Some (Inr [])"
| "collect_all 0 E s (e # stack) = None"
| "collect_all (Suc fuel) E s ((i, path) # stack) =
     (case mem_get_node i s of
        Inl e \<Rightarrow> Some (Inl (CategoryStorage e))
      | Inr (_, r) \<Rightarrow>
          (case child_entries E s path (mem_get_children i s) of
             Inl e \<Rightarrow> Some (Inl e)
           | Inr es \<Rightarrow>
               map_option (map_sum id ((@) (if r \<noteq> EMPTY then [(path, r)] else [])))
                 (collect_all fuel E s (rev es @ stack))))"

function prefix_loop ::
    "nat \<Rightarrow> 'a element \<Rightarrow> mem \<Rightarrow> 'a list \<Rightarrow> nat \<Rightarrow> 'a list \<Rightarrow> nat
     \<Rightarrow> (radix_error + ('a list \<times> nat) list) option" where
  "prefix_loop fuel E s key tail path i =
     (if i = EMPTY then Some (Inr [])
      else case read_node E s i of
        Inl e \<Rightarrow> Some (Inl e)
      | Inr (p, _) \<Rightarrow>
          let common = common_len p (drop tail key); path' = path @ p in
          if common = length (drop tail key) then collect_all fuel E s [(i, path')]
          else if common < length p then Some (Inr [])
          else
            let tail' = tail + common in
            case find_child E s (key ! tail') (mem_get_children i s) of
                Inl e \<Rightarrow> Some (Inl e)
              | Inr None \<Rightarrow> prefix_loop fuel E s key tail' path' EMPTY
              | Inr (Some c) \<Rightarrow> prefix_loop fuel E s key tail' path' c)"
  by pat_completeness auto
termination
proof (relation "measure (\<lambda>(fuel, E, s, key, tail, path, i).
    if i = EMPTY then 0 else Suc (descent E s i (length key - tail)))", goal_cases)
  case (3 fuel E s key tail path i x p r common path' tail' y c)
  then have "descent E s c (length (drop tail key) - common_len p (drop tail key))
      < descent E s i (length (drop tail key))"
    by (intro descent_child) auto
  with 3 show ?case by auto
qed auto

declare prefix_loop.simps [simp del]

definition search_prefix ::
    "nat \<Rightarrow> 'a element \<Rightarrow> 'a radix \<Rightarrow> nat \<Rightarrow> 'a list \<Rightarrow> mem
     \<Rightarrow> (radix_error + ('a list \<times> nat) list) option" where
  "search_prefix fuel E R begin_id key s =
     (if key = [] then Some (Inr [])
      else
        let i = (if begin_id = EMPTY then mem_get_root (shard_of E (hd key) (sharding R)) s else begin_id)
        in if i = EMPTY then Some (Inr []) else prefix_loop fuel E s key 0 [] i)"

section \<open>Substring search\<close>

record on_match =
  found :: bool
  continuations :: "nat list"

type_synonym 'a matcher = "'a list \<Rightarrow> 'a list \<Rightarrow> nat \<Rightarrow> on_match"

record dfs_frame =
  fr_node :: nat
  pattern_pos :: nat
  cont_idx :: nat
  child_idx :: nat

datatype dfs_state =
    Search "dfs_frame list"
  | Collect nat "(nat \<times> nat) list"

record dfs_checkpoint =
  cp_state :: "dfs_state option"
  cp_records :: "nat list"

text \<open>Whether the filter of a child rules out the rest of the pattern (feature \<open>bloom-search\<close>).\<close>

definition pruned :: "'a element \<Rightarrow> 'a radix \<Rightarrow> mem \<Rightarrow> nat \<Rightarrow> 'a list \<Rightarrow> radix_error + bool" where
  "pruned E R s c rest =
     (if bloom_search R \<and> length rest \<le> MATCH_CAP then
        (case stored_bloom s c of
           None \<Rightarrow> Inl Panic
         | Some None \<Rightarrow> Inr False
         | Some (Some bf) \<Rightarrow>
             (case bloom_contains bf (from_vec E rest) of None \<Rightarrow> Inl Panic | Some b \<Rightarrow> Inr (\<not> b)))
      else Inr False)"

text \<open>The children from \<open>child_idx\<close> on, for one continuation.\<close>

fun child_scan ::
    "'a element \<Rightarrow> 'a radix \<Rightarrow> mem \<Rightarrow> 'a list \<Rightarrow> nat list \<Rightarrow> nat \<Rightarrow> radix_error + (nat \<times> nat) option" where
  "child_scan E R s rest [] ci = Inr None"
| "child_scan E R s rest (c # cs) ci =
     (case read_node E s c of
        Inl e \<Rightarrow> Inl e
      | Inr (p, _) \<Rightarrow>
          if p = [] \<or> hd p \<noteq> hd rest then child_scan E R s rest cs (ci + 1)
          else case pruned E R s c rest of
              Inl e \<Rightarrow> Inl e
            | Inr True \<Rightarrow> child_scan E R s rest cs (ci + 1)
            | Inr False \<Rightarrow> Inr (Some (c, ci + 1)))"

text \<open>The continuations from \<open>cont_idx\<close> on: the advanced indices, the child and its position.\<close>

fun cont_scan ::
    "'a element \<Rightarrow> 'a radix \<Rightarrow> mem \<Rightarrow> 'a list \<Rightarrow> nat list \<Rightarrow> nat list \<Rightarrow> nat \<Rightarrow> nat
     \<Rightarrow> radix_error + (nat \<times> nat \<times> nat \<times> nat) option" where
  "cont_scan E R s pattern children [] co ci = Inr None"
| "cont_scan E R s pattern children (pp # pps) co ci =
     (if pp = 0 \<or> pp \<ge> length pattern then cont_scan E R s pattern children pps (co + 1) 0
      else case child_scan E R s (drop pp pattern) (drop ci children) ci of
          Inl e \<Rightarrow> Inl e
        | Inr None \<Rightarrow> cont_scan E R s pattern children pps (co + 1) 0
        | Inr (Some (c, ci')) \<Rightarrow> Inr (Some (co, ci', c, pp)))"

fun search_step ::
    "'a element \<Rightarrow> 'a radix \<Rightarrow> mem \<Rightarrow> 'a matcher \<Rightarrow> 'a list \<Rightarrow> dfs_frame list \<Rightarrow> radix_error + dfs_state option" where
  "search_step E R s mt pattern [] = Inr None"
| "search_step E R s mt pattern (f # stack) =
     (case read_node E s (fr_node f) of
        Inl e \<Rightarrow> Inl e
      | Inr (p, _) \<Rightarrow>
          let res = mt p pattern (pattern_pos f) in
          if found res then Inr (Some (Collect (fr_node f) [(fr_node f, 0)]))
          else case cont_scan E R s pattern (mem_get_children (fr_node f) s)
                      (drop (cont_idx f) (continuations res)) (cont_idx f) (child_idx f) of
              Inl e \<Rightarrow> Inl e
            | Inr (Some (co, ci, c, pp)) \<Rightarrow>
                Inr (Some (Search (\<lparr>fr_node = c, pattern_pos = pp, cont_idx = 0, child_idx = 0\<rparr>
                                   # f\<lparr>cont_idx := co, child_idx := ci\<rparr> # stack)))
            | Inr None \<Rightarrow> search_step E R s mt pattern stack)"

fun collect_step ::
    "mem \<Rightarrow> nat \<Rightarrow> (nat \<times> nat) list \<Rightarrow> nat list \<Rightarrow> radix_error + (dfs_state option \<times> nat list)" where
  "collect_step s root [] records = Inr (None, records)"
| "collect_step s root ((i, ci) # stack) records =
     (case mem_get_node i s of
        Inl e \<Rightarrow> Inl (CategoryStorage e)
      | Inr (_, r) \<Rightarrow>
          let records' = (if r \<noteq> EMPTY then records @ [r] else records);
              children = mem_get_children i s;
              stack' = (if ci < length children then (children ! ci, 0) # (i, ci + 1) # stack else stack)
          in Inr (Some (Collect root stack'), records'))"

fun dfs_step ::
    "'a element \<Rightarrow> 'a radix \<Rightarrow> mem \<Rightarrow> 'a matcher \<Rightarrow> 'a list \<Rightarrow> dfs_state \<Rightarrow> nat list
     \<Rightarrow> radix_error + (dfs_state option \<times> nat list)" where
  "dfs_step E R s mt pattern (Search stack) records =
     (case search_step E R s mt pattern stack of Inl e \<Rightarrow> Inl e | Inr st \<Rightarrow> Inr (st, records))"
| "dfs_step E R s mt pattern (Collect root stack) records = collect_step s root stack records"

text \<open>
  The loop: \<open>clock\<close> lists the answers to "has the deadline passed?" round by round (the empty
  list when there is no deadline), and the fuel bounds the rounds.
\<close>

fun dfs_loop ::
    "nat \<Rightarrow> 'a element \<Rightarrow> 'a radix \<Rightarrow> mem \<Rightarrow> 'a matcher \<Rightarrow> 'a list \<Rightarrow> bool list \<Rightarrow> dfs_state option \<Rightarrow> nat list
     \<Rightarrow> (radix_error + (nat list \<times> dfs_checkpoint option)) option" where
  "dfs_loop fuel E R s mt pattern clock None records = Some (Inr (records, None))"
| "dfs_loop 0 E R s mt pattern clock (Some st) records = None"
| "dfs_loop (Suc fuel) E R s mt pattern clock (Some st) records =
     (if clock \<noteq> [] \<and> hd clock
      then Some (Inr ([], Some \<lparr>cp_state = Some st, cp_records = records\<rparr>))
      else case dfs_step E R s mt pattern st records of
          Inl e \<Rightarrow> Some (Inl e)
        | Inr (st', records') \<Rightarrow> dfs_loop fuel E R s mt pattern (tl clock) st' records')"

definition search_dfs ::
    "nat \<Rightarrow> 'a element \<Rightarrow> 'a radix \<Rightarrow> nat \<Rightarrow> 'a list \<Rightarrow> 'a matcher \<Rightarrow> dfs_checkpoint option \<Rightarrow> bool list \<Rightarrow> mem
     \<Rightarrow> (radix_error + (nat list \<times> dfs_checkpoint option)) option" where
  "search_dfs fuel E R begin_id pattern mt resume clock s =
     (if pattern = [] then Some (Inl NotFound)
      else case resume of
          Some cp \<Rightarrow> dfs_loop fuel E R s mt pattern clock (cp_state cp) (cp_records cp)
        | None \<Rightarrow>
            let i = (if begin_id = EMPTY then mem_get_root (shard_of E (hd pattern) (sharding R)) s
                     else begin_id)
            in if i = EMPTY then Some (Inr ([], None))
               else dfs_loop fuel E R s mt pattern clock
                      (Some (Search [\<lparr>fr_node = i, pattern_pos = 0, cont_idx = 0, child_idx = 0\<rparr>])) [])"

end
