(* ===== verification/Radix_Tree.thy ===== *)
theory Radix_Tree
  imports Radix
begin

text \<open>
  What the radix trie computes. A tree of the store is represented by a value of \<open>rt\<close>
  (\<open>rep\<close>), which holds keys with their records (\<open>has\<close>). The lemmas show that matching reads
  the represented dictionary, that an insertion extends it by one key and touches nothing
  outside its tree, and that a prefix search walks exactly the matching part.
\<close>

section \<open>Encoded prefixes\<close>

locale element_codec =
  fixes E :: "'a element"
  assumes decode_encode: "el_decode E (el_encode E x) = Some x"
    and length_encode: "length (el_encode E x) = byte_size E"
    and byte_size_pos: "0 < byte_size E"
begin

lemma to_vec_from_vec: "to_vec E (from_vec E es) = Some es"
proof (induction es)
  case Nil
  then show ?case using byte_size_pos by (simp add: to_vec.simps from_vec_def)
next
  case (Cons e es)
  have "el_encode E e \<noteq> []" using length_encode [of e] byte_size_pos by auto
  with Cons byte_size_pos show ?case
    by (simp add: from_vec_def to_vec.simps [of E "el_encode E e @ concat (map (el_encode E) es)"]
        length_encode decode_encode)
qed

lemma read_node_Some: "mem_node s i = Some (from_vec E p, r) \<Longrightarrow> read_node E s i = Inr (p, r)"
  by (auto simp: read_node_def mem_get_node_def mem_node_def to_vec_from_vec split: if_splits)

end

lemma word_element_codec:
  assumes "LENGTH('a::len) mod 8 = 0"
  shows "element_codec (word_element :: 'a word element)"
proof
  let ?n = "LENGTH('a) div 8"
  have n: "8 * ?n = LENGTH('a)" using assms by auto
  fix x :: "'a word"
  have "256 ^ ?n = (2 ^ (8 * ?n) :: nat)" by (simp add: power_mult)
  with n have "256 ^ ?n = (2 ^ LENGTH('a) :: nat)" by simp
  then have "unat x < 256 ^ ?n" using unat_less_pow [of x] by simp
  then show "el_decode word_element (el_encode word_element x) = Some x"
    by (simp add: word_element_def Let_def nat_of_le_to_le)
  show "length (el_encode word_element x) = byte_size (word_element :: 'a word element)"
    by (simp add: word_element_def Let_def)
  show "0 < byte_size (word_element :: 'a word element)"
    using n by (cases ?n) (auto simp: word_element_def Let_def)
qed

section \<open>Common prefixes\<close>

lemma common_len_simps [simp]:
  "common_len [] q = 0" "common_len p [] = 0"
  "common_len (a # p) (b # q) = (if a = b then Suc (common_len p q) else 0)"
  by (simp_all add: common_len_def)

lemma common_len_take: "take (common_len p q) q = take (common_len p q) p"
  by (induction p q rule: list_induct2') auto

lemma common_len_full: "\<not> common_len p q < length p \<Longrightarrow> common_len p q = length p \<and> q = p @ drop (length p) q"
  using common_len_le(1) [of p q] common_len_take [of p q]
  by (metis append_take_drop_id le_neq_implies_less take_all_iff order_refl)

lemma common_len_append [simp]: "common_len p (p @ q) = length p"
  by (induction p) auto

lemma common_len_same [simp]: "common_len p p = length p"
  by (induction p) auto

lemma common_len_differ:
  "common_len p q < length p \<Longrightarrow> common_len p q < length q \<Longrightarrow> p ! common_len p q \<noteq> q ! common_len p q"
  by (induction p q rule: list_induct2') (auto split: if_splits)

lemma common_len_pos: "p \<noteq> [] \<Longrightarrow> q \<noteq> [] \<Longrightarrow> hd p = hd q \<Longrightarrow> 0 < common_len p q"
  by (cases p; cases q) auto

section \<open>Trees\<close>

datatype 'a rt = RT (rid: nat) (rp: "'a list") (rr: nat) (rts: "'a rt list")

fun ids :: "'a rt \<Rightarrow> nat list" where
  "ids (RT i p r ts) = i # concat (map ids ts)"

fun has :: "'a rt \<Rightarrow> 'a list \<Rightarrow> nat \<Rightarrow> bool" where
  "has (RT i p r ts) k v =
     (\<exists>k'. k = p @ k' \<and> (k' = [] \<and> v = r \<and> r \<noteq> EMPTY \<or> (\<exists>t \<in> set ts. has t k' v)))"

fun wf_rt :: "'a rt \<Rightarrow> bool" where
  "wf_rt (RT i p r ts) = (distinct (map (\<lambda>t. hd (rp t)) ts) \<and> (\<forall>t \<in> set ts. rp t \<noteq> [] \<and> wf_rt t))"

fun rep :: "'a element \<Rightarrow> mem \<Rightarrow> 'a rt \<Rightarrow> bool" where
  "rep E s (RT i p r ts) =
     (i \<noteq> EMPTY \<and> mem_node s i = Some (from_vec E p, r) \<and> mem_kids s i = map rid ts
      \<and> (\<forall>t \<in> set ts. rep E s t))"

declare has.simps [simp del] wf_rt.simps [simp del] rep.simps [simp del]

lemma rid_in_ids: "rid t \<in> set (ids t)"
  by (cases t) simp

lemma has_EMPTY: "has t k v \<Longrightarrow> v \<noteq> EMPTY"
  by (induction t k v rule: has.induct) (auto simp: has.simps)

lemma has_prefix: "has t k v \<Longrightarrow> \<exists>k'. k = rp t @ k'"
  by (cases t) (auto simp: has.simps)

lemma has_hd: "has t k v \<Longrightarrow> rp t \<noteq> [] \<Longrightarrow> k \<noteq> [] \<and> hd k = hd (rp t)"
  using has_prefix [of t k v] by auto

lemma has_child_unique:
  assumes "wf_rt (RT i p r ts)" and "t \<in> set ts" and "u \<in> set ts" and "hd (rp t) = hd (rp u)"
  shows "t = u"
  using assms by (auto simp: wf_rt.simps distinct_map dest: inj_onD)

lemma rep_ids: "rep E s t \<Longrightarrow> i \<in> set (ids t) \<Longrightarrow> i \<noteq> EMPTY \<and> mem_node s i \<noteq> None"
  by (induction t rule: ids.induct) (auto simp: rep.simps)

lemma rep_frame:
  "rep E s t \<Longrightarrow> (\<And>i. i \<in> set (ids t) \<Longrightarrow> mem_node s' i = mem_node s i \<and> mem_kids s' i = mem_kids s i)
   \<Longrightarrow> rep E s' t"
proof (induction t rule: ids.induct)
  case (1 i p r ts)
  then show ?case by (auto simp: rep.simps)
qed

context element_codec
begin

lemma read_rep: "rep E s t \<Longrightarrow> read_node E s (rid t) = Inr (rp t, rr t)"
  by (cases t) (simp add: rep.simps read_node_Some)

lemma find_child_rep:
  "\<forall>t \<in> set ts. rep E s t \<Longrightarrow>
   find_child E s e (map rid ts) = Inr (map_option rid (find (\<lambda>t. rp t \<noteq> [] \<and> hd (rp t) = e) ts))"
  by (induction ts) (auto simp: read_rep)

lemma find_child_kids:
  assumes "rep E s (RT i p r ts)"
  shows "find_child E s e (mem_get_children i s) = Inr (map_option rid (find (\<lambda>t. rp t \<noteq> [] \<and> hd (rp t) = e) ts))"
  using find_child_rep [of ts s e] assms by (simp add: rep.simps mem_kids_def)

lemma match_loop_rep:
  assumes "rep E s t" and "wf_rt t" and "tail \<le> length key"
  shows "(match_loop E s key tail (rid t) = Inr v \<longleftrightarrow> has t (drop tail key) v)
    \<and> (match_loop E s key tail (rid t) = Inl NotFound \<or> (\<exists>v. match_loop E s key tail (rid t) = Inr v))"
  using assms
proof (induction t arbitrary: tail rule: ids.induct)
  case (1 i p r ts)
  let ?q = "drop tail key" and ?c = "common_len p (drop tail key)"
  have i: "i \<noteq> EMPTY" and read: "read_node E s i = Inr (p, r)"
    using 1(2) read_rep [OF 1(2)] by (auto simp: rep.simps)
  note loop = match_loop.simps [of E s key tail i]
  show ?case
  proof (cases "?c < length p")
    case True
    then have "\<not> has (RT i p r ts) ?q v" by (auto simp: has.simps)
    with True i read show ?thesis by (simp add: loop)
  next
    case False
    then have c: "?c = length p" and q: "?q = p @ drop (tail + length p) key"
      using common_len_full [OF False] by (auto simp: add.commute)
    let ?k = "drop (tail + length p) key"
    have has: "has (RT i p r ts) ?q v \<longleftrightarrow> ?k = [] \<and> v = r \<and> r \<noteq> EMPTY \<or> (\<exists>t \<in> set ts. has t ?k v)" for v
      unfolding q by (simp add: has.simps)
    have len: "tail + length p \<le> length key"
      using common_len_le(2) [of p ?q] c 1(4) by simp
    show ?thesis
    proof (cases "tail + length p = length key")
      case True
      moreover have "\<not> has t [] v" if "t \<in> set ts" for t v
        using has_hd [of t "[]" v] that 1(3) by (auto simp: wf_rt.simps)
      ultimately show ?thesis using i read c False has by (simp add: loop) (auto)
    next
      case False
      with len have k: "?k \<noteq> []" "hd ?k = key ! (tail + length p)" by (auto simp: hd_drop_conv_nth)
      note find = find_child_kids [OF 1(2), of "key ! (tail + length p)"]
      have step: "match_loop E s key tail i = (case find (\<lambda>t. rp t \<noteq> [] \<and> hd (rp t) = hd ?k) ts of
          None \<Rightarrow> Inl NotFound | Some t \<Rightarrow> match_loop E s key (tail + length p) (rid t))"
        using i read c False find k(2)
        by (auto simp: loop match_loop.simps [of E s key _ EMPTY] split: option.splits)
      show ?thesis
      proof (cases "find (\<lambda>t. rp t \<noteq> [] \<and> hd (rp t) = hd ?k) ts")
        case None
        then have "\<not> has t ?k v" if "t \<in> set ts" for t v
          using has_hd [of t ?k v] that 1(3) by (auto simp: find_None_iff wf_rt.simps)
        with None has k(1) show ?thesis by (simp add: step)
      next
        case (Some t)
        then have t: "t \<in> set ts" "rp t \<noteq> []" "hd (rp t) = hd ?k" by (auto simp: find_Some_iff)
        then have rep: "rep E s t" "wf_rt t" using 1(2,3) by (auto simp: rep.simps wf_rt.simps)
        have "(\<exists>u \<in> set ts. has u ?k v) \<longleftrightarrow> has t ?k v" for v
          using has_child_unique [OF 1(3)] t has_hd 1(3) unfolding wf_rt.simps by metis
        with 1(1) [OF t(1) rep len] has k(1) Some show ?thesis by (simp add: step)
      qed
    qed
  qed
qed

end

section \<open>What a transaction changes\<close>

definition mem_inv :: "mem \<Rightarrow> bool" where
  "mem_inv s = (mem_ok s \<and> length (mem_nodes s) \<le> next_id s \<and> 0 < next_id s)"

lemma mem_inv_ok [simp]: "mem_inv s \<Longrightarrow> mem_ok s"
  by (simp add: mem_inv_def)

lemma mem_inv_node: "mem_inv s \<Longrightarrow> mem_node s i \<noteq> None \<Longrightarrow> i < next_id s"
  by (auto simp: mem_inv_def mem_node_def split: if_splits)

lemma mem_inv_fresh: "mem_inv s \<Longrightarrow> next_id s \<le> i \<Longrightarrow> mem_node s i = None \<and> mem_kids s i = []"
  by (auto simp: mem_inv_def mem_views)

lemma put_node_frame [simp]:
  "next_id (put_node e s) = next_id s" "mem_roots (put_node e s) = mem_roots s"
  by (cases e; simp add: put_node_def Let_def)+

lemma apply_op_frame [simp]:
  "next_id (apply_op op s) = next_id s" "mem_roots (apply_op op s) = mem_roots s"
  "length (mem_nodes (apply_op op s)) = length (mem_nodes s)"
  by (cases op; simp add: push_child_def drop_child_def set_node_def)+

declare apply_op.simps [simp del]

lemma mem_inv_put: "mem_inv s \<Longrightarrow> i < next_id s \<Longrightarrow> mem_inv (put_node (i, p, r) s)"
  using mem_store.ok_put [of s "(i, p, r)"]
  by (auto simp: mem_inv_def) (auto simp: put_node_def Let_def)

lemma mem_inv_op: "mem_inv s \<Longrightarrow> mem_inv (apply_op op s)"
  using mem_store.ok_step [of s op] by (simp add: mem_inv_def)

lemma mem_inv_ops: "mem_inv s \<Longrightarrow> mem_inv (fold apply_op ops s)"
  by (induction ops arbitrary: s) (simp_all add: mem_inv_op)

lemma fold_apply_op_frame [simp]:
  "next_id (fold apply_op ops s) = next_id s" "mem_roots (fold apply_op ops s) = mem_roots s"
  by (induction ops arbitrary: s) simp_all

lemma alloc_id_view [simp]:
  "mem_node (s\<lparr>next_id := n\<rparr>) i = mem_node s i" "mem_kids (s\<lparr>next_id := n\<rparr>) i = mem_kids s i"
  "mem_ok (s\<lparr>next_id := n\<rparr>) = mem_ok s"
  by (simp_all add: mem_views)

lemma fold_tx_move: "fold (tx_move_child a b) cs t = t\<lparr>tx_ops := tx_ops t @ map (MoveChild a b) cs\<rparr>"
  by (induction cs arbitrary: t) (simp_all add: tx_move_child_def)

lemma extend_effect:
  fixes E :: "'a element" and suf :: "'a list" and v :: nat
  assumes inv: "mem_inv s" and a: "mem_node s a \<noteq> None" and kids: "\<forall>c \<in> set (mem_kids s a). c < next_id s"
  defines "n \<equiv> next_id s" and "s' \<equiv> snd (radix_extend E a suf v s)"
  shows "fst (radix_extend E a suf v s) = n" and "mem_inv s'" and "next_id s' = n + 1"
    and "mem_roots s' = mem_roots s"
    and "mem_node s' n = Some (from_vec E suf, v)" and "mem_kids s' n = []"
    and "\<And>j. mem_node s j \<noteq> None \<Longrightarrow> mem_node s' j = mem_node s j"
    and "\<And>j. j \<noteq> n \<Longrightarrow> mem_kids s' j = (if j = a then mem_kids s a @ [n] else mem_kids s j)"
proof -
  let ?s = "put_node (n, from_vec E suf, v) (s\<lparr>next_id := n + 1\<rparr>)"
  have eq: "radix_extend E a suf v s = (n, apply_op (AddChild a n) ?s)"
    by (simp add: radix_extend_def tx_new_node_def alloc_id_def new_tx_def tx_add_child_def tx_commit_def n_def)
  have ok: "mem_ok (s\<lparr>next_id := n + 1\<rparr>)" using inv by simp
  have inv1: "mem_inv ?s" using inv by (intro mem_inv_put) (auto simp: mem_inv_def n_def)
  have an: "a \<noteq> n" using mem_inv_node [OF inv a] by (simp add: n_def)
  have node1: "mem_node ?s j = mem_node s j" if "mem_node s j \<noteq> None" for j
    using mem_store.node_put_other [OF ok, of j n] mem_inv_node [OF inv that] that by (simp add: n_def)
  have kids1: "mem_kids ?s j = mem_kids s j" for j
    using mem_store.kids_put [OF ok] by simp
  have add: "mem_kids (apply_op (AddChild a n) ?s) j = (if j = a then mem_kids s a @ [n] else mem_kids s j)" for j
    using mem_store.kids_add [OF mem_inv_ok [OF inv1], of a n j] node1 [OF a] a kids kids1 by (auto simp: n_def)
  show "fst (radix_extend E a suf v s) = n" "mem_inv s'" "next_id s' = n + 1" "mem_roots s' = mem_roots s"
    unfolding s'_def eq using mem_inv_op [OF inv1] by simp_all
  show "mem_node s' n = Some (from_vec E suf, v)"
    unfolding s'_def eq using mem_store.node_add [OF mem_inv_ok [OF inv1]] mem_store.node_put [OF ok]
    by simp
  show "mem_kids s' n = []"
    unfolding s'_def eq using add [of n] an mem_inv_fresh [OF inv, of n] by (simp add: n_def)
  show "mem_node s' j = mem_node s j" if "mem_node s j \<noteq> None" for j
    unfolding s'_def eq using mem_store.node_add [OF mem_inv_ok [OF inv1]] node1 [OF that] by simp
  show "mem_kids s' j = (if j = a then mem_kids s a @ [n] else mem_kids s j)" if "j \<noteq> n" for j
    unfolding s'_def eq using add by simp
qed

lemma relink_effect:
  assumes inv: "mem_inv s" and a: "mem_node s a = Some (q, r)" and leg: "mem_node s leg \<noteq> None"
    and kids: "mem_kids s leg = []" and neq: "a \<noteq> leg" and dist: "distinct (mem_kids s a)"
    and ns: "ns = [] \<or> (\<exists>n. ns = [n] \<and> n \<noteq> leg)"
    and s'_def: "s' = fold apply_op (map (MoveChild a leg) (mem_kids s a) @ map (AddChild a) (leg # ns)
      @ [UpdateNode a (Some p) (Some v)]) s"
  shows "mem_inv s'" and "next_id s' = next_id s" and "mem_roots s' = mem_roots s"
    and "\<And>j. mem_node s' j = (if j = a then Some (p, v) else mem_node s j)"
    and "\<And>j. mem_kids s' j = (if j = a then leg # ns else if j = leg then mem_kids s a else mem_kids s j)"
proof -
  let ?s1 = "fold apply_op (map (MoveChild a leg) (mem_kids s a)) s"
  let ?s2 = "apply_op (AddChild a leg) ?s1"
  let ?s3 = "fold apply_op (map (AddChild a) ns) ?s2"
  have s': "s' = apply_op (UpdateNode a (Some p) (Some v)) ?s3" by (simp add: s'_def)
  have inv1: "mem_inv ?s1" by (rule mem_inv_ops [OF inv])
  have inv2: "mem_inv ?s2" by (rule mem_inv_op [OF inv1])
  have inv3: "mem_inv ?s3" by (rule mem_inv_ops [OF inv2])
  note ok = mem_inv_ok [OF inv] mem_inv_ok [OF inv1] mem_inv_ok [OF inv2] mem_inv_ok [OF inv3]
  have n1: "mem_node ?s1 j = mem_node s j" for j by (rule mem_store.node_moves [OF ok(1)])
  have k1: "mem_kids ?s1 j = (if j = a then [] else if j = leg then mem_kids s a else mem_kids s j)" for j
    using mem_store.kids_moves [OF ok(1) neq _ leg dist, of j] a kids by simp
  have n2: "mem_node ?s2 j = mem_node s j" for j by (simp add: mem_store.node_add [OF ok(2)] n1)
  have k2: "mem_kids ?s2 j = (if j = a then [leg] else if j = leg then mem_kids s a else mem_kids s j)" for j
    using mem_store.kids_add [OF ok(2), of a leg j] a by (simp add: n1 k1)
  have n3: "mem_node ?s3 j = mem_node s j" for j
    using ns by (auto simp: mem_store.node_add [OF ok(3)] n2)
  have k3: "mem_kids ?s3 j = (if j = a then leg # ns else if j = leg then mem_kids s a else mem_kids s j)" for j
    using ns mem_store.kids_add [OF ok(3), of a _ j] a neq by (auto simp: n2 k2)
  show "mem_inv s'" unfolding s' by (rule mem_inv_op [OF inv3])
  show "next_id s' = next_id s" "mem_roots s' = mem_roots s" unfolding s' by simp_all
  show "mem_node s' j = (if j = a then Some (p, v) else mem_node s j)" for j
    unfolding s' using mem_store.node_update [OF ok(4), of a q r] a n3 by simp
  show "mem_kids s' j = (if j = a then leg # ns else if j = leg then mem_kids s a else mem_kids s j)" for j
    unfolding s' using mem_store.kids_update [OF ok(4)] k3 by simp
qed

text \<open>The ids a split reserves: the new branch, when there is one, and the leg.\<close>

definition split_ids :: "'a list \<Rightarrow> nat \<Rightarrow> nat list \<times> nat" where
  "split_ids suf n = (if suf = [] then ([], n) else ([n], n + 1))"

lemma put_two_effect:
  assumes "mem_inv s"
  defines "n \<equiv> next_id s"
  assumes s': "s' = (if suf = [] then put_node (n, q, r) (s\<lparr>next_id := n + 1\<rparr>)
                else put_node (n + 1, q, r) (put_node (n, q', r') (s\<lparr>next_id := n + 2\<rparr>)))"
  shows "mem_inv s'" and "next_id s' = snd (split_ids suf n) + 1" and "mem_roots s' = mem_roots s"
    and "mem_node s' (snd (split_ids suf n)) = Some (q, r)"
    and "suf \<noteq> [] \<Longrightarrow> mem_node s' n = Some (q', r')"
    and "\<And>j. mem_node s j \<noteq> None \<Longrightarrow> mem_node s' j = mem_node s j"
    and "\<And>j. mem_kids s' j = mem_kids s j"
proof -
  let ?s0 = "s\<lparr>next_id := n + 2\<rparr>" and ?s1 = "put_node (n, q', r') (s\<lparr>next_id := n + 2\<rparr>)"
  have "mem_inv (s\<lparr>next_id := n + 2\<rparr>)" "mem_inv (s\<lparr>next_id := n + 1\<rparr>)"
    using assms(1) by (simp_all add: mem_inv_def n_def)
  then have inv1: "mem_inv ?s1" and inv0: "mem_inv (put_node (n, q, r) (s\<lparr>next_id := n + 1\<rparr>))"
    by (simp_all add: mem_inv_put)
  show "mem_inv s'" unfolding s' using inv0 mem_inv_put [OF inv1] by simp
  show "next_id s' = snd (split_ids suf n) + 1" "mem_roots s' = mem_roots s"
    unfolding s' split_ids_def by simp_all
  note ok = mem_inv_ok [OF assms(1)]
  note ok1 = mem_inv_ok [OF inv1]
  show "mem_node s' (snd (split_ids suf n)) = Some (q, r)"
    unfolding s' split_ids_def by (simp add: mem_store.node_put ok mem_store.ok_put)
  show "mem_node s' n = Some (q', r')" if "suf \<noteq> []"
    using that mem_store.node_put_other [OF ok1, of n "n + 1"] unfolding s' by (simp add: mem_store.node_put ok)
  show "mem_node s' j = mem_node s j" if j: "mem_node s j \<noteq> None" for j
  proof -
    have "j < n" using mem_inv_node [OF assms(1) j] by (simp add: n_def)
    then have "mem_node ?s1 j = mem_node s j" using j by (simp add: mem_store.node_put_other ok)
    moreover from this \<open>j < n\<close> have "mem_node (put_node (n + 1, q, r) ?s1) j = mem_node ?s1 j"
      using j mem_store.node_put_other [OF ok1, of j "n + 1"] by simp
    ultimately show ?thesis using j \<open>j < n\<close> unfolding s' by (simp add: mem_store.node_put_other ok)
  qed
  show "mem_kids s' j = mem_kids s j" for j
    unfolding s' by (simp add: mem_store.kids_put ok mem_store.ok_put)
qed

context element_codec
begin

lemma split_effect:
  fixes R :: "'a radix" and suf :: "'a list"
  assumes inv: "mem_inv s" and a: "mem_node s a = Some (from_vec E p, r)"
    and dist: "distinct (mem_kids s a)"
  defines "n \<equiv> next_id s"
  defines "leg \<equiv> snd (split_ids suf n)"
  assumes cb: "(case on_split R of None \<Rightarrow> Inr () | Some cb \<Rightarrow> cb a leg p bp) = Inr ()"
    and s': "s' = snd (radix_split E R a bp suf v s)"
  shows "fst (radix_split E R a bp suf v s) = Inr (if suf = [] then a else n)"
    and "mem_inv s'" and "next_id s' = leg + 1" and "mem_roots s' = mem_roots s"
    and "mem_node s' a = Some (from_vec E (take bp p), if suf = [] then v else EMPTY)"
    and "mem_kids s' a = leg # fst (split_ids suf n)"
    and "mem_node s' leg = Some (from_vec E (drop bp p), r)" and "mem_kids s' leg = mem_kids s a"
    and "suf \<noteq> [] \<Longrightarrow> mem_node s' n = Some (from_vec E suf, v) \<and> mem_kids s' n = []"
    and "\<And>j. j \<noteq> a \<Longrightarrow> mem_node s j \<noteq> None \<Longrightarrow> mem_node s' j = mem_node s j \<and> mem_kids s' j = mem_kids s j"
proof -
  define s1 where "s1 = (if suf = [] then put_node (n, from_vec E (drop bp p), r) (s\<lparr>next_id := n + 1\<rparr>)
    else put_node (n + 1, from_vec E (drop bp p), r) (put_node (n, from_vec E suf, v) (s\<lparr>next_id := n + 2\<rparr>)))"
  have an: "a < n" using mem_inv_node [OF inv] a by (simp add: n_def)
  have nleg: "n \<le> leg" by (simp add: leg_def split_ids_def)
  note put = put_two_effect [OF inv s1_def [unfolded n_def], folded n_def, folded leg_def]
  have a1: "mem_node s1 a = Some (from_vec E p, r)" using put(6) [of a] a by simp
  have kids1: "mem_kids s1 leg = []" using put(7) mem_inv_fresh [OF inv, of leg] nleg by (simp add: n_def)
  have kids_a: "mem_kids s1 a = mem_get_children a s" by (simp add: put(7)) (simp add: mem_kids_def)
  have fin: "s' = fold apply_op (map (MoveChild a leg) (mem_kids s1 a) @ map (AddChild a) (leg # fst (split_ids suf n))
      @ [UpdateNode a (Some (from_vec E (take bp p))) (Some (if suf = [] then v else EMPTY))]) s1
    \<and> fst (radix_split E R a bp suf v s) = Inr (if suf = [] then a else n)"
    using cb read_node_Some [OF a] unfolding kids_a unfolding s' s1_def n_def leg_def
    by (cases "suf = []"; cases "on_split R") (simp_all add: radix_split_def tx_new_node_def alloc_id_def new_tx_def fold_tx_move
        tx_add_child_def tx_update_node_def tx_commit_def split_ids_def Let_def)
  have leg1: "mem_node s1 leg \<noteq> None" and dist1: "distinct (mem_kids s1 a)" and neq: "a \<noteq> leg"
    using put(4,7) dist an nleg by auto
  have ns: "fst (split_ids suf n) = [] \<or> (\<exists>m. fst (split_ids suf n) = [m] \<and> m \<noteq> leg)"
    by (simp add: split_ids_def leg_def)
  note re = relink_effect [OF put(1) a1 leg1 kids1 neq dist1 ns conjunct1 [OF fin]]
  show "fst (radix_split E R a bp suf v s) = Inr (if suf = [] then a else n)" using fin by simp
  show "mem_inv s'" "next_id s' = leg + 1" "mem_roots s' = mem_roots s" using re(1-3) put(2,3) by simp_all
  show "mem_node s' a = Some (from_vec E (take bp p), if suf = [] then v else EMPTY)"
    and "mem_kids s' a = leg # fst (split_ids suf n)" using re(4,5) by simp_all
  show "mem_node s' leg = Some (from_vec E (drop bp p), r)" "mem_kids s' leg = mem_kids s a"
    using re(4,5) put(4,7) neq by auto
  show "mem_node s' n = Some (from_vec E suf, v) \<and> mem_kids s' n = []" if "suf \<noteq> []"
    using that re(4,5) put(5,7) an mem_inv_fresh [OF inv, of n] by (auto simp: n_def leg_def split_ids_def)
  show "mem_node s' j = mem_node s j \<and> mem_kids s' j = mem_kids s j" if "j \<noteq> a" "mem_node s j \<noteq> None" for j
    using that re(4,5) put(6,7) mem_inv_node [OF inv that(2)] nleg by (auto simp: n_def)
qed

end

section \<open>Insertion extends the dictionary\<close>

text \<open>The default build, with no metadata callback and a split callback that does not veto.\<close>

definition quiet :: "'a radix \<Rightarrow> bool" where
  "quiet R = (\<not> bloom_search R \<and> on_node R = None \<and>
     (\<forall>a l p b. (case on_split R of None \<Rightarrow> Inr () | Some cb \<Rightarrow> cb a l p b) = Inr ()))"

lemma finish_quiet [simp]: "quiet R \<Longrightarrow> finish E R key x s = (Inr x, s)"
  by (simp add: finish_def maintain_bloom_def quiet_def)

definition unchanged_outside :: "nat set \<Rightarrow> mem \<Rightarrow> mem \<Rightarrow> bool" where
  "unchanged_outside I s s' =
     (mem_inv s' \<and> mem_roots s' = mem_roots s \<and> next_id s \<le> next_id s'
      \<and> (\<forall>j. j \<notin> I \<longrightarrow> mem_node s j \<noteq> None \<longrightarrow> mem_node s' j = mem_node s j \<and> mem_kids s' j = mem_kids s j))"

definition tree_ok :: "'a element \<Rightarrow> mem \<Rightarrow> 'a rt \<Rightarrow> bool" where
  "tree_ok E s t = (rep E s t \<and> wf_rt t \<and> distinct (ids t))"

definition grown :: "'a element \<Rightarrow> mem \<Rightarrow> 'a rt \<Rightarrow> 'a list \<Rightarrow> nat \<Rightarrow> mem \<Rightarrow> 'a rt \<Rightarrow> bool" where
  "grown E s t k index s' t' =
     (tree_ok E s' t' \<and> rid t' = rid t \<and> set (ids t') = set (ids t) \<union> {next_id s..<next_id s'}
      \<and> unchanged_outside (set (ids t)) s s'
      \<and> (rp t \<noteq> [] \<and> k \<noteq> [] \<and> hd (rp t) = hd k \<longrightarrow> rp t' \<noteq> [] \<and> hd (rp t') = hd (rp t))
      \<and> (\<forall>l v. has t' l v \<longleftrightarrow> has t l v \<or> l = k \<and> v = index \<and> (\<forall>w. \<not> has t k w)))"

lemma grownI_dict:
  assumes "tree_ok E s' t'" and "rid t' = rid t" and "set (ids t') = set (ids t) \<union> {next_id s..<next_id s'}"
    and "unchanged_outside (set (ids t)) s s'"
    and "rp t \<noteq> [] \<Longrightarrow> k \<noteq> [] \<Longrightarrow> hd (rp t) = hd k \<Longrightarrow> rp t' \<noteq> [] \<and> hd (rp t') = hd (rp t)"
    and "\<And>l v. has t' l v \<longleftrightarrow> has t l v \<or> l = k \<and> v = index \<and> (\<forall>w. \<not> has t k w)"
  shows "grown E s t k index s' t'"
  unfolding grown_def using assms by blast

lemma grownI:
  assumes "tree_ok E s' t'" and "rid t' = rid t" and "set (ids t') = set (ids t) \<union> {next_id s..<next_id s'}"
    and "unchanged_outside (set (ids t)) s s'"
    and "rp t \<noteq> [] \<Longrightarrow> k \<noteq> [] \<Longrightarrow> hd (rp t) = hd k \<Longrightarrow> rp t' \<noteq> [] \<and> hd (rp t') = hd (rp t)"
    and "\<And>w. \<not> has t k w" and "\<And>l v. has t' l v \<longleftrightarrow> has t l v \<or> l = k \<and> v = index"
  shows "grown E s t k index s' t'"
  by (rule grownI_dict [OF assms(1-5)]) (use assms(6,7) in auto)

lemma tree_ok_child: "tree_ok E s (RT i p r ts) \<Longrightarrow> t \<in> set ts \<Longrightarrow> tree_ok E s t"
  by (auto simp: tree_ok_def rep.simps wf_rt.simps distinct_concat_iff)

lemma ids_distinct_kids: "distinct (ids (RT i p r ts)) \<Longrightarrow> distinct (map rid ts)"
proof (induction ts)
  case (Cons t ts)
  have "rid t \<noteq> rid u" if "u \<in> set ts" for u
    using Cons.prems rid_in_ids [of t] rid_in_ids [of u] that by auto
  with Cons show ?case by auto
qed simp

lemma tree_ok_ids_less: "mem_inv s \<Longrightarrow> rep E s t \<Longrightarrow> j \<in> set (ids t) \<Longrightarrow> j < next_id s"
  using rep_ids [of E s t j] mem_inv_node [of s j] by blast

lemma rep_unchanged:
  assumes "unchanged_outside I s s'" and "rep E s t" and "set (ids t) \<inter> I = {}"
  shows "rep E s' t"
proof (rule rep_frame [OF assms(2)])
  fix i
  assume "i \<in> set (ids t)"
  then have "i \<notin> I" "mem_node s i \<noteq> None" using rep_ids [OF assms(2)] assms(3) by blast+
  with assms(1) show "mem_node s' i = mem_node s i \<and> mem_kids s' i = mem_kids s i"
    by (simp add: unchanged_outside_def)
qed

lemma unchanged_mono: "unchanged_outside I s s' \<Longrightarrow> I \<subseteq> J \<Longrightarrow> unchanged_outside J s s'"
  by (auto simp: unchanged_outside_def)

lemma has_wf_Nil: "wf_rt (RT i p r ts) \<Longrightarrow> t \<in> set ts \<Longrightarrow> \<not> has t [] v"
  using has_hd [of t "[]" v] by (auto simp: wf_rt.simps)

context element_codec
begin

lemma grown_record:
  assumes "mem_inv s" and ok: "tree_ok E s (RT i p EMPTY ts)" and "index \<noteq> EMPTY"
  shows "\<exists>s'. mem_update_node i None (Some index) s = Inr s' \<and> grown E s (RT i p EMPTY ts) p index s' (RT i p index ts)"
proof -
  let ?s = "set_node i None (Some index) s"
  have node: "mem_node s i = Some (from_vec E p, EMPTY)" and i: "i \<noteq> EMPTY" and rep: "\<forall>t \<in> set ts. rep E s t"
    and kids: "mem_kids s i = map rid ts"
    using ok by (auto simp: tree_ok_def rep.simps)
  then have lt: "i < length (mem_nodes s)" by (auto simp: mem_node_def split: if_splits)
  have op: "?s = apply_op (UpdateNode i None (Some index)) s" using lt by (simp add: apply_op.simps)
  have inv: "mem_inv ?s" unfolding op by (rule mem_inv_op [OF assms(1)])
  have view: "mem_node ?s j = (if j = i then Some (from_vec E p, index) else mem_node s j)" "mem_kids ?s j = mem_kids s j" for j
    unfolding op using mem_store.node_update [OF mem_inv_ok [OF assms(1)] node] mem_store.kids_update [OF mem_inv_ok [OF assms(1)]]
    by simp_all
  have out: "unchanged_outside {i} s ?s" using inv view by (simp add: unchanged_outside_def op)
  have "rep E ?s t" if "t \<in> set ts" for t
    by (rule rep_unchanged [OF out]) (use that rep ok in \<open>auto simp: tree_ok_def\<close>)
  then have "rep E ?s (RT i p index ts)" using view kids i by (simp add: rep.simps)
  moreover have "\<not> has t [] v" if "t \<in> set ts" for t v
    using has_wf_Nil [of i p EMPTY ts t v] that ok by (simp add: tree_ok_def)
  moreover have "next_id ?s = next_id s" by (simp add: op)
  ultimately have "grown E s (RT i p EMPTY ts) p index ?s (RT i p index ts)"
    using ok out assms(3) by (auto simp: grown_def tree_ok_def wf_rt.simps has.simps unchanged_outside_def)
  with lt show ?thesis by (simp add: mem_update_node_def)
qed

lemma grown_extend:
  assumes inv: "mem_inv s" and ok: "tree_ok E s (RT i p r ts)" and "index \<noteq> EMPTY" and suf: "suf \<noteq> []"
    and new: "\<forall>t \<in> set ts. hd (rp t) \<noteq> hd suf"
  shows "grown E s (RT i p r ts) (p @ suf) index (snd (radix_extend E i suf index s))
    (RT i p r (ts @ [RT (next_id s) suf index []]))"
proof -
  let ?s = "snd (radix_extend E i suf index s)" and ?n = "next_id s"
  have node: "mem_node s i = Some (from_vec E p, r)" and i: "i \<noteq> EMPTY" and kids: "mem_kids s i = map rid ts"
    and rep: "\<forall>t \<in> set ts. rep E s t"
    using ok by (auto simp: tree_ok_def rep.simps)
  have less: "j < ?n" if "j \<in> set (ids (RT i p r ts))" for j
    using tree_ok_ids_less [OF inv _ that] ok by (auto simp: tree_ok_def)
  have ki: "\<forall>c \<in> set (mem_kids s i). c < ?n"
  proof
    fix c assume "c \<in> set (mem_kids s i)"
    then obtain t where "t \<in> set ts" "c = rid t" unfolding kids by auto
    with rid_in_ids [of t] show "c < ?n" by (intro less) auto
  qed
  note ext = extend_effect [OF inv _ ki, where E = E and suf = suf and v = index] 
  have a: "mem_node s i \<noteq> None" using node by simp
  note ext = ext [OF a]
  have "mem_kids ?s j = mem_kids s j" if "j \<noteq> i" "mem_node s j \<noteq> None" for j
    using ext(8) [of j] mem_inv_node [OF inv that(2)] that(1) by simp
  then have out: "unchanged_outside {i} s ?s"
    using ext(2,3,4,7) by (simp add: unchanged_outside_def)
  have reps: "rep E ?s t" if "t \<in> set ts" for t
    by (rule rep_unchanged [OF out]) (use that rep ok in \<open>auto simp: tree_ok_def\<close>)
  have n: "?n \<noteq> EMPTY" "?n \<noteq> i" using less [of i] by (auto simp: EMPTY_def)
  have "mem_node ?s i = Some (from_vec E p, r)" "mem_kids ?s i = map rid ts @ [?n]"
    using ext(7) [OF a] ext(8) [of i] node kids n(2) by simp_all
  then have "rep E ?s (RT i p r (ts @ [RT ?n suf index []]))"
    using reps i n ext(5,6) by (simp add: rep.simps)
  moreover have "?n \<notin> set (ids (RT i p r ts))" using less by blast
  then have "distinct (ids (RT i p r (ts @ [RT ?n suf index []])))"
    using ok by (simp add: tree_ok_def)
  moreover have "wf_rt (RT i p r (ts @ [RT ?n suf index []]))"
    using ok suf new by (auto simp: tree_ok_def wf_rt.simps)
  ultimately have tree: "tree_ok E ?s (RT i p r (ts @ [RT ?n suf index []]))" by (simp add: tree_ok_def)
  have has: "has (RT i p r (ts @ [RT ?n suf index []])) l v \<longleftrightarrow> has (RT i p r ts) l v \<or> l = p @ suf \<and> v = index" for l v
    using assms(3) by (auto simp: has.simps)
  have "\<not> has t suf w" if "t \<in> set ts" for t w
    using has_hd [of t suf w] that new ok by (auto simp: tree_ok_def wf_rt.simps)
  then have no: "\<not> has (RT i p r ts) (p @ suf) w" for w
    using suf by (simp add: has.simps)
  show ?thesis
    by (rule grownI [OF tree _ _ unchanged_mono [OF out] _ no has]) (use ext(3) in auto)
qed

lemma grown_split:
  assumes inv: "mem_inv s" and ok: "tree_ok E s (RT i p r ts)" and "index \<noteq> EMPTY" and quiet: "quiet R"
    and c: "c = common_len p k" "c < length p"
  defines "suf \<equiv> drop c k" and "n \<equiv> next_id s"
  shows "\<exists>s' t'. radix_split E R i c suf index s = (Inr (if suf = [] then i else n), s')
    \<and> grown E s (RT i p r ts) k index s' t'"
proof -
  define leg where "leg = snd (split_ids suf n)"
  define new where "new = (if suf = [] then [] else [RT n suf index []])"
  let ?s = "snd (radix_split E R i c suf index s)" and ?t = "RT i p r ts"
  let ?leg = "RT leg (drop c p) r ts"
  let ?t' = "RT i (take c p) (if suf = [] then index else EMPTY) (?leg # new)"
  have node: "mem_node s i = Some (from_vec E p, r)" and i: "i \<noteq> EMPTY" and kids: "mem_kids s i = map rid ts"
    and rep: "\<forall>t \<in> set ts. rep E s t" and dist: "distinct (ids ?t)"
    using ok by (auto simp: tree_ok_def rep.simps)
  have less: "j < n" if "j \<in> set (ids ?t)" for j
    using tree_ok_ids_less [OF inv _ that] ok by (auto simp: tree_ok_def n_def)
  have dk: "distinct (mem_kids s i)" unfolding kids by (rule ids_distinct_kids [OF dist])
  have cb: "(case on_split R of None \<Rightarrow> Inr () | Some cb \<Rightarrow> cb i (snd (split_ids suf (next_id s))) p c) = Inr ()"
    using quiet by (simp add: quiet_def)
  note eff = split_effect [OF inv node dk cb refl, where v = index, folded n_def, folded leg_def]
  have leg: "n \<le> leg" "suf \<noteq> [] \<Longrightarrow> leg = n + 1" by (simp_all add: leg_def split_ids_def)
  have new_ids: "map rid new = fst (split_ids suf n)" "set (concat (map ids new)) = {n..<leg}"
    using leg by (auto simp: new_def split_ids_def leg_def)
  have nx: "next_id s \<le> next_id ?s" using eff(3) leg(1) by (simp flip: n_def)
  have out: "unchanged_outside {i} s ?s"
    using eff(2,4,10) nx by (simp add: unchanged_outside_def)
  have reps: "rep E ?s t" if "t \<in> set ts" for t
    by (rule rep_unchanged [OF out]) (use that rep dist in auto)
  have pos: "n \<noteq> EMPTY" "leg \<noteq> EMPTY" using less [of i] leg by (auto simp: EMPTY_def)
  have rl: "rep E ?s ?leg" using reps eff(7,8) kids pos by (simp add: rep.simps)
  have rn: "\<forall>t \<in> set new. rep E ?s t" using eff(9) pos by (simp add: new_def rep.simps)
  have rep': "rep E ?s ?t'" unfolding rep.simps [of E ?s i] using i eff(5,6) rl rn new_ids(1) by auto
  have ids': "ids ?t' = i # leg # concat (map ids ts) @ concat (map ids new)" by simp
  have dn: "distinct (concat (map ids new))" by (simp add: new_def)
  have sub: "set (concat (map ids ts)) \<subseteq> {..<n}" "i < n" using less by auto
  have dist': "distinct (ids ?t')" unfolding ids' using dist dn sub new_ids(2) leg(1) by fastforce
  have "p ! c \<noteq> k ! c" if "suf \<noteq> []"
    using that common_len_differ [of p k] c by (simp add: suf_def)
  then have heads: "hd (drop c p) \<noteq> hd suf" if "suf \<noteq> []"
    using that c(2) by (simp add: suf_def hd_drop_conv_nth)
  have wf': "wf_rt ?t'" using ok heads c(2) by (auto simp: tree_ok_def wf_rt.simps new_def)
  have k: "k = take c p @ suf" using common_len_take [of p k] by (simp add: suf_def c(1)) (metis append_take_drop_id)
  have leg_has: "has ?leg l v \<longleftrightarrow> has ?t (take c p @ l) v" for l v
    by (simp add: has.simps) (metis append.assoc append_take_drop_id same_append_eq)
  have has_t: "(\<exists>l'. l = take c p @ l' \<and> has ?leg l' v) \<longleftrightarrow> has ?t l v" for l v
    unfolding leg_has using has_prefix [of ?t l v] by (metis append.assoc append_take_drop_id rt.sel(2))
  have new_has: "(\<exists>t \<in> set new. has t l v) \<longleftrightarrow> suf \<noteq> [] \<and> l = suf \<and> v = index" for l v
    using assms(3) by (auto simp: new_def has.simps)
  have "has ?t' l v \<longleftrightarrow> (\<exists>l'. l = take c p @ l' \<and> (l' = suf \<and> v = index \<or> has ?leg l' v))" for l v
    unfolding has.simps [of i] using new_has assms(3) by (cases "suf = []") auto
  then have has': "has ?t' l v \<longleftrightarrow> has ?t l v \<or> l = k \<and> v = index" for l v
    unfolding has_t [symmetric] k by blast
  have no: "\<not> has ?t k w" for w using has_prefix [of ?t k w] c by auto
  have "grown E s ?t k index ?s ?t'"
  proof (rule grownI [OF _ _ _ unchanged_mono [OF out] _ no has'])
    show "tree_ok E ?s ?t'" using rep' wf' dist' by (simp add: tree_ok_def)
    have "{n..<leg + 1} = insert leg {n..<leg}" using leg(1) by auto
    then show "set (ids ?t') = set (ids ?t) \<union> {next_id s..<next_id ?s}"
      unfolding ids' using new_ids(2) eff(3) by (auto simp flip: n_def)
    show "rp ?t' \<noteq> [] \<and> hd (rp ?t') = hd (rp ?t)" if "rp ?t \<noteq> []" "k \<noteq> []" "hd (rp ?t) = hd k"
      using common_len_pos [of p k] that c by (cases p) auto
  qed auto
  with eff(1) show ?thesis by (intro exI [of _ ?s]) (auto intro: prod_eqI)
qed

lemma grown_child:
  assumes ok: "tree_ok E s (RT i p r (us @ u # vs))" and g: "grown E s u k index s' u'"
    and k: "k \<noteq> []" "rp u \<noteq> []" "hd (rp u) = hd k" and inv: "mem_inv s"
  shows "grown E s (RT i p r (us @ u # vs)) (p @ k) index s' (RT i p r (us @ u' # vs))"
    (is "grown E s ?t _ _ _ ?t'")
proof -
  have node: "mem_node s i = Some (from_vec E p, r)" "i \<noteq> EMPTY" "mem_kids s i = map rid (us @ u # vs)"
    and rep: "\<forall>t \<in> set (us @ vs). rep E s t" and ids: "distinct (ids ?t)" and wf: "wf_rt ?t"
    using ok by (auto simp: tree_ok_def rep.simps)
  have g': "tree_ok E s' u'" "rid u' = rid u" "set (ids u') = set (ids u) \<union> {next_id s..<next_id s'}"
    "unchanged_outside (set (ids u)) s s'" "rp u' \<noteq> []" "hd (rp u') = hd (rp u)"
    and has_u: "\<And>l v. has u' l v \<longleftrightarrow> has u l v \<or> l = k \<and> v = index \<and> (\<forall>w. \<not> has u k w)"
    using g k unfolding grown_def by blast+
  have iu: "i \<notin> set (ids u)" using ids by simp
  have node': "mem_node s' i = mem_node s i" "mem_kids s' i = mem_kids s i"
    using g'(4) iu node(1) by (auto simp: unchanged_outside_def)
  have reps: "rep E s' t" if "t \<in> set (us @ vs)" for t
    by (rule rep_unchanged [OF g'(4)]) (use that rep ids in \<open>auto simp: distinct_concat_iff\<close>)
  have rep': "rep E s' ?t'" using node node' reps g'(1,2) by (simp add: rep.simps tree_ok_def)
  have wf': "wf_rt ?t'" using wf g'(1,5,6) by (auto simp: wf_rt.simps tree_ok_def)
  have less: "j < next_id s" if "j \<in> set (ids ?t)" for j
    using tree_ok_ids_less [OF inv _ that] ok by (auto simp: tree_ok_def)
  have "j \<notin> set (ids u')" if "j \<in> set (i # concat (map ids us) @ concat (map ids vs))" for j
  proof -
    have "j \<in> set (ids ?t)" "j \<notin> set (ids u)" using that ids by auto
    with less [of j] g'(3) show ?thesis by auto
  qed
  then have old: "set (i # concat (map ids us) @ concat (map ids vs)) \<inter> set (ids u') = {}" by blast
  have du: "distinct (ids u')" using g'(1) by (simp add: tree_ok_def)
  have dist': "distinct (ids ?t')" using ids du old by (simp add: Int_commute) (auto)
  have others: "\<not> has t k v" if "t \<in> set (us @ vs)" for t v
    using has_hd [of t k v] that wf k unfolding wf_rt.simps by (auto simp: image_iff)
  have has_t: "has ?t (p @ l) v \<longleftrightarrow> l = [] \<and> v = r \<and> r \<noteq> EMPTY \<or> has u l v \<or> (\<exists>t \<in> set (us @ vs). has t l v)" for l v
    by (auto simp: has.simps)
  have has_t': "has ?t' (p @ l) v \<longleftrightarrow> l = [] \<and> v = r \<and> r \<noteq> EMPTY \<or> has u' l v \<or> (\<exists>t \<in> set (us @ vs). has t l v)" for l v
    by (auto simp: has.simps)
  have dict: "has ?t' l v \<longleftrightarrow> has ?t l v \<or> l = p @ k \<and> v = index \<and> (\<forall>w. \<not> has ?t (p @ k) w)" for l v
  proof (cases "\<exists>l'. l = p @ l'")
    case True
    then obtain l' where l: "l = p @ l'" by blast
    have "(\<forall>w. \<not> has ?t (p @ k) w) \<longleftrightarrow> (\<forall>w. \<not> has u k w)" unfolding has_t using k(1) others by blast
    then show ?thesis unfolding l has_t' has_t has_u by (metis same_append_eq)
  next
    case False
    then show ?thesis using has_prefix [of ?t l v] has_prefix [of ?t' l v] by auto
  qed
  have out: "unchanged_outside (set (ids ?t)) s s'" by (rule unchanged_mono [OF g'(4)]) auto
  have sub: "set (ids ?t') = set (ids ?t) \<union> {next_id s..<next_id s'}" using g'(3) by auto
  have "tree_ok E s' ?t'" using rep' wf' dist' by (simp only: tree_ok_def)
  from grownI_dict [OF this _ sub out _ dict] show ?thesis by simp
qed

lemma insert_loop_grown:
  assumes "quiet R" and "index \<noteq> EMPTY" and "mem_inv s" and "tree_ok E s t" and "tail \<le> length key"
  shows "\<exists>x s' t'. insert_loop E R key index s tail (rid t) = (Inr (Some x), s')
    \<and> grown E s t (drop tail key) index s' t'
    \<and> (fst x = EMPTY \<longleftrightarrow> (\<exists>w. has t (drop tail key) w))"
  using assms(4,5)
proof (induction t arbitrary: tail rule: ids.induct)
  case (1 i p r ts)
  note ok = 1(2)
  let ?t = "RT i p r ts" and ?k = "drop tail key" and ?c = "common_len p (drop tail key)"
  have rep: "rep E s ?t" and wf: "wf_rt ?t" and i: "i \<noteq> EMPTY" using ok by (auto simp: tree_ok_def rep.simps)
  have read: "read_node E s i = Inr (p, r)" using read_rep [OF rep] by simp
  note loop = insert_loop.simps [of E R key index s tail i]
  show ?case
  proof (cases "?c < length p")
    case True
    have "next_id s \<noteq> EMPTY" using tree_ok_ids_less [OF assms(3) rep, of i] by (auto simp: EMPTY_def)
    moreover have "\<not> has ?t ?k w" for w using has_prefix [of ?t ?k w] True by auto
    moreover obtain s' t' where "radix_split E R i ?c (drop ?c ?k) index s = (Inr (if drop ?c ?k = [] then i else next_id s), s')"
      "grown E s ?t ?k index s' t'"
      using grown_split [OF assms(3) ok assms(2,1) refl True] by blast
    ultimately show ?thesis
      using True i read assms(1) by (simp add: loop add.commute) blast
  next
    case False
    then have c: "?c = length p" and k: "?k = p @ drop (tail + length p) key"
      using common_len_full [OF False] by (auto simp: add.commute)
    let ?l = "drop (tail + length p) key"
    have len: "tail + length p \<le> length key" using common_len_le(2) [of p ?k] c 1(3) by simp
    have has: "has ?t ?k v \<longleftrightarrow> ?l = [] \<and> v = r \<and> r \<noteq> EMPTY \<or> (\<exists>t \<in> set ts. has t ?l v)" for v
      unfolding k by (simp add: has.simps)
    show ?thesis
    proof (cases "tail + length p = length key")
      case True
      then have kp: "?k = p" using k by simp
      show ?thesis
      proof (cases "r = EMPTY")
        case r: True
        obtain s' where "mem_update_node i None (Some index) s = Inr s'"
          and "grown E s ?t p index s' (RT i p index ts)"
          using grown_record [OF assms(3) _ assms(2)] ok unfolding r by blast
        moreover have "\<not> has ?t p w" for w using has has_wf_Nil [OF wf] True kp r by auto
        ultimately show ?thesis
          using i read c True r False assms(1) kp by (simp add: loop) blast
      next
        case r: False
        then have "has ?t ?k r" using has True by simp
        moreover from this have "grown E s ?t ?k index s ?t"
          using ok assms(3) by (intro grownI_dict) (auto simp: unchanged_outside_def)
        ultimately show ?thesis
          using i read c True r False by (simp add: loop) blast
      qed
    next
      case short: False
      with len have l: "?l \<noteq> []" "hd ?l = key ! (tail + length p)" by (auto simp: hd_drop_conv_nth)
      have find: "find_child E s (key ! (tail + length p)) (mem_get_children i s) =
          Inr (map_option rid (find (\<lambda>t. rp t \<noteq> [] \<and> hd (rp t) = hd ?l) ts))"
        using find_child_kids [OF rep] l(2) by simp
      show ?thesis
      proof (cases "find (\<lambda>t. rp t \<noteq> [] \<and> hd (rp t) = hd ?l) ts")
        case None
        then have new: "\<forall>t \<in> set ts. hd (rp t) \<noteq> hd ?l" using wf by (auto simp: find_None_iff wf_rt.simps)
        obtain n s' where e: "radix_extend E i ?l index s = (n, s')" by fastforce
        have n: "n = next_id s" using e
          by (simp add: radix_extend_def tx_new_node_def alloc_id_def Let_def)
        have "grown E s ?t ?k index s' (RT i p r (ts @ [RT (next_id s) ?l index []]))"
          using grown_extend [OF assms(3) ok assms(2) l(1) new] e k by simp
        moreover have "\<not> has ?t ?k w" for w
          using has l(1) new has_hd [of _ ?l w] wf unfolding wf_rt.simps by metis
        moreover have "n \<noteq> EMPTY" using tree_ok_ids_less [OF assms(3) rep, of i] n by (auto simp: EMPTY_def)
        ultimately show ?thesis
          using i read c False short find None assms(1) e by (simp add: loop) blast
      next
        case (Some u)
        then have u: "u \<in> set ts" "rp u \<noteq> []" "hd (rp u) = hd ?l" by (auto simp: find_Some_iff)
        from split_list [OF u(1)] obtain us vs where ts: "ts = us @ u # vs" by blast
        obtain x s' u' where ih: "insert_loop E R key index s (tail + length p) (rid u) = (Inr (Some x), s')"
          "grown E s u ?l index s' u'" "fst x = EMPTY \<longleftrightarrow> (\<exists>w. has u ?l w)"
          using 1(1) [OF u(1) tree_ok_child [OF ok u(1)] len] by blast
        have "grown E s ?t ?k index s' (RT i p r (us @ u' # vs))"
          using grown_child [of s i p r us u vs, OF _ ih(2) l(1) u(2,3) assms(3)] ok k ts by simp
        moreover have "(\<exists>t \<in> set ts. has t ?l v) \<longleftrightarrow> has u ?l v" for v
          using has_child_unique [OF wf] u has_hd wf unfolding wf_rt.simps by metis
        then have "(\<exists>w. has ?t ?k w) \<longleftrightarrow> (\<exists>w. has u ?l w)" using has l(1) by simp
        ultimately show ?thesis
          using i read c False short find Some ih(1,3) by (simp add: loop) blast
      qed
    qed
  qed
qed

end

section \<open>One tree per shard\<close>

text \<open>
  \<open>forest E R s f\<close>: the root of shard \<open>i\<close> represents the tree \<open>f i\<close>, which only holds keys of
  that shard, and no node belongs to two of them.
\<close>

definition forest :: "'a element \<Rightarrow> 'a radix \<Rightarrow> mem \<Rightarrow> (nat \<Rightarrow> 'a rt option) \<Rightarrow> bool" where
  "forest E R s f =
     (mem_inv s
      \<and> (\<forall>i. mem_get_root i s = (case f i of None \<Rightarrow> EMPTY | Some t \<Rightarrow> rid t))
      \<and> (\<forall>i t. f i = Some t \<longrightarrow> tree_ok E s t)
      \<and> (\<forall>i j t u. f i = Some t \<longrightarrow> f j = Some u \<longrightarrow> i \<noteq> j \<longrightarrow> set (ids t) \<inter> set (ids u) = {}))"

text \<open>Every node of the store but the reserved 0 belongs to a tree.\<close>

definition full :: "mem \<Rightarrow> (nat \<Rightarrow> 'a rt option) \<Rightarrow> bool" where
  "full s f = ({j. \<exists>i t. f i = Some t \<and> j \<in> set (ids t)} = {0<..<next_id s})"

lemma full_update:
  assumes "full s f" and "next_id s \<le> next_id s'" and "0 < next_id s"
    and "set (ids t') = (case f si of None \<Rightarrow> {} | Some t \<Rightarrow> set (ids t)) \<union> {next_id s..<next_id s'}"
  shows "full s' (f(si := Some t'))"
proof -
  have "{j. \<exists>i t. (f(si := Some t')) i = Some t \<and> j \<in> set (ids t)} =
    {j. \<exists>i t. f i = Some t \<and> j \<in> set (ids t)} \<union> {next_id s..<next_id s'}"
    (is "?L = ?R")
  proof
    show "?L \<subseteq> ?R" using assms(4) by (auto split: option.splits if_splits)
    have "j \<in> ?L" if "f i = Some t" "j \<in> set (ids t)" for j i t
      using that assms(4) by (cases "i = si") (auto intro!: exI [of _ i])
    moreover have "j \<in> ?L" if "j \<in> {next_id s..<next_id s'}" for j
      using that assms(4) by (auto intro!: exI [of _ si])
    ultimately show "?R \<subseteq> ?L" by blast
  qed
  also have "\<dots> = {0<..<next_id s'}" using assms(1-3) by (auto simp: full_def)
  finally show ?thesis by (simp add: full_def)
qed

definition holds :: "'a element \<Rightarrow> 'a radix \<Rightarrow> (nat \<Rightarrow> 'a rt option) \<Rightarrow> 'a list \<Rightarrow> nat \<Rightarrow> bool" where
  "holds E R f k v =
     (k \<noteq> [] \<and> (case f (shard_of E (hd k) (sharding R)) of None \<Rightarrow> False | Some t \<Rightarrow> has t k v))"

text \<open>The tree of a shard holds keys of that shard only.\<close>

definition sharded :: "'a element \<Rightarrow> 'a radix \<Rightarrow> (nat \<Rightarrow> 'a rt option) \<Rightarrow> bool" where
  "sharded E R f =
     (\<forall>i t k v. f i = Some t \<longrightarrow> has t k v \<longrightarrow> k \<noteq> [] \<and> shard_of E (hd k) (sharding R) = i)"

lemma sharded_update:
  assumes "sharded E R f" and "key \<noteq> []" and "si = shard_of E (hd key) (sharding R)"
    and "\<And>l v. has t' l v \<Longrightarrow> (case f si of None \<Rightarrow> False | Some t \<Rightarrow> has t l v) \<or> l = key"
  shows "sharded E R (f(si := Some t'))"
  unfolding sharded_def
proof (intro allI impI)
  fix i t k v assume t: "(f(si := Some t')) i = Some t" "has t k v"
  show "k \<noteq> [] \<and> shard_of E (hd k) (sharding R) = i"
  proof (cases "i = si")
    case True
    then have "has t' k v" using t by simp
    from assms(4) [OF this] assms(1-3) True show ?thesis
      by (auto simp: sharded_def split: option.splits)
  next
    case False
    then show ?thesis using t assms(1) by (auto simp: sharded_def)
  qed
qed

lemma root_view [simp]:
  "mem_node (mem_set_root i r s) j = mem_node s j" "mem_kids (mem_set_root i r s) j = mem_kids s j"
  "mem_inv (mem_set_root i r s) = mem_inv s" "next_id (mem_set_root i r s) = next_id s"
  by (simp_all add: mem_views mem_set_root_def mem_inv_def)

lemma get_root_set: "mem_get_root j (mem_set_root i r s) = (if j = i then r else mem_get_root j s)"
  by (auto simp: mem_get_root_def mem_set_root_def grow_nth grow_nth_new)

lemma get_root_cong: "mem_roots s' = mem_roots s \<Longrightarrow> mem_get_root i s' = mem_get_root i s"
  by (simp add: mem_get_root_def)

lemma shortcut_view [simp]:
  "mem_node (mem_add_shortcut_node a b c s) j = mem_node s j"
  "mem_kids (mem_add_shortcut_node a b c s) j = mem_kids s j"
  "mem_inv (mem_add_shortcut_node a b c s) = mem_inv s"
  "next_id (mem_add_shortcut_node a b c s) = next_id s"
  "mem_roots (mem_add_shortcut_node a b c s) = mem_roots s"
  by (simp_all add: mem_views mem_add_shortcut_node_def mem_inv_def Let_def)

lemma rep_cong: "(\<And>i. mem_node s' i = mem_node s i) \<Longrightarrow> (\<And>i. mem_kids s' i = mem_kids s i) \<Longrightarrow> rep E s' t = rep E s t"
  by (auto intro: rep_frame)

lemma new_node_effect:
  assumes inv: "mem_inv s" and n: "n = next_id s" and s': "s' = snd (mem_new_node p r s)"
  shows "fst (mem_new_node p r s) = n" and "unchanged_outside {} s s'" and "next_id s' = n + 1"
    and "mem_node s' n = Some (p, r)" and "mem_kids s' n = []"
proof -
  have eq: "mem_new_node p r s = (n, put_node (n, p, r) (s\<lparr>next_id := n + 1\<rparr>))"
    by (simp add: mem_new_node_def alloc_id_def n)
  have ok: "mem_ok (s\<lparr>next_id := n + 1\<rparr>)" using inv by simp
  have "mem_inv (put_node (n, p, r) (s\<lparr>next_id := n + 1\<rparr>))"
    by (rule mem_inv_put) (use inv n in \<open>auto simp: mem_inv_def\<close>)
  moreover have "mem_node (put_node (n, p, r) (s\<lparr>next_id := n + 1\<rparr>)) j = mem_node s j" if "mem_node s j \<noteq> None" for j
    using mem_store.node_put_other [OF ok, of j n] mem_inv_node [OF inv that] that n by simp
  ultimately show "unchanged_outside {} s s'"
    unfolding unchanged_outside_def s' eq using mem_store.kids_put [OF ok] n by simp
  show "fst (mem_new_node p r s) = n" "next_id s' = n + 1" unfolding s' eq by simp_all
  show "mem_node s' n = Some (p, r)" "mem_kids s' n = []"
    unfolding s' eq using mem_store.node_put [OF ok] mem_store.kids_put [OF ok] mem_inv_fresh [OF inv, of n] n
    by simp_all
qed

text \<open>Replacing the tree of one shard keeps the others.\<close>

lemma forest_update:
  assumes f: "forest E R s f" and out: "unchanged_outside I s s1"
    and I: "I \<subseteq> (case f si of None \<Rightarrow> {} | Some t \<Rightarrow> set (ids t))"
    and t: "tree_ok E s' t'" "set (ids t') \<subseteq> I \<union> {next_id s..}"
    and s': "mem_inv s'" "\<And>j. mem_node s j \<noteq> None \<Longrightarrow> j \<notin> I \<Longrightarrow> mem_node s' j = mem_node s1 j \<and> mem_kids s' j = mem_kids s1 j"
    and root: "\<And>i. mem_get_root i s' = (if i = si then rid t' else mem_get_root i s)"
  shows "forest E R s' (f(si := Some t'))"
proof -
  have inv: "mem_inv s" and trees: "\<And>i t. f i = Some t \<Longrightarrow> tree_ok E s t"
    and disj: "\<And>i j t u. f i = Some t \<Longrightarrow> f j = Some u \<Longrightarrow> i \<noteq> j \<Longrightarrow> set (ids t) \<inter> set (ids u) = {}"
    and roots: "\<And>i. mem_get_root i s = (case f i of None \<Rightarrow> EMPTY | Some t \<Rightarrow> rid t)"
    using f unfolding forest_def by blast+
  have away: "set (ids u) \<inter> I = {}" if "f i = Some u" "i \<noteq> si" for i u
  proof (cases "f si")
    case None
    then show ?thesis using I by simp
  next
    case (Some t)
    then show ?thesis using I disj [OF that(1) Some that(2)] by auto
  qed
  have keep: "tree_ok E s' u" if "f i = Some u" "i \<noteq> si" for i u
  proof -
    have u: "rep E s u" using trees [OF that(1)] by (simp add: tree_ok_def)
    have "mem_node s' j = mem_node s j \<and> mem_kids s' j = mem_kids s j" if "j \<in> set (ids u)" for j
    proof -
      have "mem_node s j \<noteq> None" "j \<notin> I" using rep_ids [OF u that] away [OF \<open>f i = Some u\<close> \<open>i \<noteq> si\<close>] that by blast+
      then show ?thesis using s'(2) out by (simp add: unchanged_outside_def)
    qed
    then have "rep E s' u" by (rule rep_frame [OF u])
    with trees [OF that(1)] show ?thesis by (simp add: tree_ok_def)
  qed
  have low: "set (ids u) \<subseteq> {..<next_id s}" if "f i = Some u" for i u
    using tree_ok_ids_less [OF inv, of E u] trees [OF that] by (auto simp: tree_ok_def)
  have apart: "set (ids t') \<inter> set (ids u) = {}" if "f i = Some u" "i \<noteq> si" for i u
  proof -
    have "set (ids t') \<inter> set (ids u) \<subseteq> (I \<union> {next_id s..}) \<inter> {..<next_id s} \<inter> set (ids u)"
      using t(2) low [OF that(1)] by blast
    also have "\<dots> \<subseteq> I \<inter> set (ids u)" by auto
    finally show ?thesis using away [OF that] by blast
  qed
  have "set (ids a) \<inter> set (ids b) = {}"
    if "(f(si := Some t')) i = Some a" "(f(si := Some t')) j = Some b" "i \<noteq> j" for i j a b
  proof (cases "i = si \<or> j = si")
    case True
    with that apart [of i a] apart [of j b] show ?thesis by (auto simp: Int_commute)
  next
    case False
    with that disj [of i a j b] show ?thesis by simp
  qed
  moreover have "tree_ok E s' a" if "(f(si := Some t')) i = Some a" for i a
    using that t(1) keep [of i a] by (cases "i = si") auto
  moreover have "mem_get_root i s' = (case (f(si := Some t')) i of None \<Rightarrow> EMPTY | Some t \<Rightarrow> rid t)" for i
    using root [of i] roots [of i] by simp
  ultimately show ?thesis unfolding forest_def using s'(1) by blast
qed

context element_codec
begin

lemma insert_root_single:
  assumes f: "forest E R s f" and quiet: "quiet R" and key: "length key = 1" and index: "index \<noteq> EMPTY"
    and si: "si = shard_of E (hd key) (sharding R)" "f si = None"
  shows "\<exists>x s' t'. insert_root E R key index s = (Inr x, s') \<and> fst x \<noteq> EMPTY
    \<and> forest E R s' (f(si := Some t')) \<and> set (ids t') = {next_id s..<next_id s'}
    \<and> (\<forall>l v. has t' l v \<longleftrightarrow> l = key \<and> v = index)"
proof -
  let ?n = "next_id s" and ?t = "RT (next_id s) key index []"
  define s1 where "s1 = snd (mem_new_node (from_vec E key) index s)"
  let ?s = "mem_set_root si ?n s1"
  have inv: "mem_inv s" using f by (simp add: forest_def)
  then have pos: "?n \<noteq> EMPTY" by (simp add: mem_inv_def EMPTY_def)
  note new = new_node_effect [OF inv refl s1_def]
  have inv1: "mem_inv s1" and roots: "mem_roots s1 = mem_roots s" using new(2) by (auto simp: unchanged_outside_def)
  have "forest E R ?s (f(si := Some ?t))"
  proof (rule forest_update [OF f new(2)])
    show "tree_ok E ?s ?t" using new(4,5) pos by (simp add: tree_ok_def rep.simps wf_rt.simps)
  qed (use inv1 get_root_cong [OF roots] in \<open>auto simp: get_root_set\<close>)
  moreover have "has ?t l v \<longleftrightarrow> l = key \<and> v = index" for l v using index by (auto simp: has.simps)
  moreover have "insert_root E R key index s = (Inr (?n, 0), ?s)"
    using key quiet new(1) by (simp add: insert_root_def s1_def si(1) case_prod_beta Let_def)
  moreover have "set (ids ?t) = {next_id s..<next_id ?s}" using new(3) by auto
  ultimately show ?thesis using pos by (intro exI [of _ "(?n, 0)"] exI [of _ ?s] exI [of _ ?t]) simp
qed

lemma insert_root_pair:
  assumes f: "forest E R s f" and quiet: "quiet R" and key: "length key \<ge> 2" and index: "index \<noteq> EMPTY"
    and si: "si = shard_of E (hd key) (sharding R)" "f si = None"
  shows "\<exists>x s' t'. insert_root E R key index s = (Inr x, s') \<and> fst x \<noteq> EMPTY
    \<and> forest E R s' (f(si := Some t')) \<and> set (ids t') = {next_id s..<next_id s'}
    \<and> (\<forall>l v. has t' l v \<longleftrightarrow> l = key \<and> v = index)"
proof -
  let ?n = "next_id s" and ?t0 = "RT (next_id s) (take 1 key) EMPTY []"
  define s1 where "s1 = snd (mem_new_node (from_vec E (take 1 key)) EMPTY s)"
  define s2 where "s2 = mem_set_root si ?n s1"
  define s3 where "s3 = snd (radix_extend E ?n (drop 1 key) index s2)"
  define s4 where "s4 = mem_add_shortcut_node si (el_encode E (hd key)) ?n s3"
  define t where "t = RT ?n (take 1 key) EMPTY ([] @ [RT (next_id s2) (drop 1 key) index []])"
  have inv: "mem_inv s" using f by (simp add: forest_def)
  then have pos: "?n \<noteq> EMPTY" by (simp add: mem_inv_def EMPTY_def)
  note new = new_node_effect [OF inv refl s1_def]
  have inv2: "mem_inv s2" and roots: "mem_roots s1 = mem_roots s"
    using new(2) by (auto simp: unchanged_outside_def s2_def)
  have ok: "tree_ok E s2 ?t0" using new(4,5) pos by (simp add: tree_ok_def rep.simps wf_rt.simps s2_def)
  have g: "grown E s2 ?t0 (take 1 key @ drop 1 key) index s3 t"
    unfolding s3_def t_def by (rule grown_extend [OF inv2 ok index]) (use key in auto)
  have out: "unchanged_outside {?n} s2 s3" and ok3: "tree_ok E s3 t" and idt: "set (ids t) \<subseteq> {?n..}"
    using g unfolding grown_def by (auto simp: s2_def new(3))
  have inv4: "mem_inv s4" using out by (simp add: unchanged_outside_def s4_def)
  have root4: "mem_get_root i s4 = (if i = si then ?n else mem_get_root i s)" for i
    using get_root_cong [of s3 s2 i] out get_root_cong [OF roots, of i] get_root_cong [of s4 s3 i]
    by (simp add: unchanged_outside_def s2_def get_root_set s4_def)
  have "forest E R s4 (f(si := Some t))"
  proof (rule forest_update [OF f new(2)])
    show "tree_ok E s4 t" using ok3 rep_cong [of s4 s3 E t] by (simp add: tree_ok_def s4_def)
    show "set (ids t) \<subseteq> {} \<union> {?n..}" using idt by simp
    fix j assume "mem_node s j \<noteq> None"
    then have "j \<noteq> ?n" "mem_node s2 j \<noteq> None"
      using mem_inv_node [OF inv] new(2) by (auto simp: s2_def unchanged_outside_def)
    then show "mem_node s4 j = mem_node s1 j \<and> mem_kids s4 j = mem_kids s1 j"
      using out by (simp add: unchanged_outside_def s4_def) (simp add: s2_def)
  qed (use inv4 root4 in \<open>simp_all add: t_def\<close>)
  moreover have "has t l v \<longleftrightarrow> l = key \<and> v = index" for l v
    using g by (auto simp: grown_def has.simps)
  moreover have "fst (radix_extend E ?n (drop 1 key) index s2) = next_id s2"
    by (simp add: radix_extend_def tx_new_node_def alloc_id_def Let_def)
  then have "insert_root E R key index s = (Inr (next_id s2, 1), s4)"
    using key quiet new(1) si(1)
    by (simp add: insert_root_def case_prod_beta Let_def s4_def s3_def s2_def s1_def)
  moreover have "next_id s2 \<noteq> EMPTY" using inv2 by (simp add: mem_inv_def EMPTY_def)
  moreover have "set (ids t) = {next_id s..<next_id s4}"
    using g new(3) out by (auto simp: grown_def unchanged_outside_def s2_def s4_def)
  ultimately show ?thesis by (intro exI [of _ "(next_id s2, 1)"] exI [of _ s4] exI [of _ t]) simp
qed

lemma radix_insert_forest:
  assumes f: "forest E R s f" and quiet: "quiet R" and key: "key \<noteq> []" and index: "index \<noteq> EMPTY"
  shows "\<exists>x s' f'. radix_insert E R key index metas s = (Inr x, s') \<and> forest E R s' f'
    \<and> (full s f \<longrightarrow> full s' f') \<and> (sharded E R f \<longrightarrow> sharded E R f')
    \<and> (fst x = EMPTY \<longleftrightarrow> (\<exists>w. holds E R f key w))
    \<and> (\<forall>l v. holds E R f' l v \<longleftrightarrow> holds E R f l v \<or> l = key \<and> v = index \<and> (\<forall>w. \<not> holds E R f key w))"
proof -
  let ?si = "shard_of E (hd key) (sharding R)"
  have fire: "fire_nodes E R ms s = (Inr (), s)" for ms
    using quiet by (induction E R ms s rule: fire_nodes.induct) (auto simp: fire_node_def quiet_def)
  have inv: "mem_inv s" and roots: "mem_get_root ?si s = (case f ?si of None \<Rightarrow> EMPTY | Some t \<Rightarrow> rid t)"
    using f by (simp_all add: forest_def)
  have ins: "radix_insert E R key index metas s = (case insert_loop E R key index s 0 (mem_get_root ?si s) of
      (Inl e, s) \<Rightarrow> (Inl e, s) | (Inr (Some x), s) \<Rightarrow> (Inr x, s) | (Inr None, s) \<Rightarrow> insert_root E R key index s)"
    using key index fire by (simp add: radix_insert_def)
  show ?thesis
  proof (cases "f ?si")
    case None
    have "length key = 1 \<or> length key \<ge> 2" using key by (cases key) (auto simp: Suc_le_eq)
    then have "\<exists>x s' t'. insert_root E R key index s = (Inr x, s') \<and> fst x \<noteq> EMPTY
      \<and> forest E R s' (f(?si := Some t')) \<and> set (ids t') = {next_id s..<next_id s'}
      \<and> (\<forall>l v. has t' l v \<longleftrightarrow> l = key \<and> v = index)"
      by (rule disjE) (erule insert_root_single [OF f quiet _ index refl None]
        insert_root_pair [OF f quiet _ index refl None])+
    then obtain x s' t' where r: "insert_root E R key index s = (Inr x, s')" "fst x \<noteq> EMPTY"
      "forest E R s' (f(?si := Some t'))" "set (ids t') = {next_id s..<next_id s'}"
      "\<forall>l v. has t' l v \<longleftrightarrow> l = key \<and> v = index" by (elim exE conjE)
    have "rid t' \<in> {next_id s..<next_id s'}" using r(4) rid_in_ids by blast
    then have up: "full s f \<longrightarrow> full s' (f(?si := Some t'))"
      using full_update [of s f s' t' ?si] r(4) None inv by (simp add: mem_inv_def)
    have dict: "holds E R (f(?si := Some t')) l v \<longleftrightarrow> holds E R f l v \<or> l = key \<and> v = index \<and> (\<forall>w. \<not> holds E R f key w)" for l v
      using None key r(5) by (auto simp: holds_def)
    have "insert_loop E R key index s 0 (mem_get_root ?si s) = (Inr None, s)"
      using roots None by (simp add: insert_loop.simps)
    then have "radix_insert E R key index metas s = (Inr x, s')" using r(1) by (simp add: ins)
    moreover have "fst x = EMPTY \<longleftrightarrow> (\<exists>w. holds E R f key w)" using r(2) None by (simp add: holds_def)
    moreover have "sharded E R f \<longrightarrow> sharded E R (f(?si := Some t'))"
      using sharded_update [OF _ key refl, of E R f t'] r(5) by blast
    ultimately show ?thesis using r(3) up dict by blast
  next
    case (Some t)
    then have ok: "tree_ok E s t" using f by (simp add: forest_def)
    obtain x s' t' where l: "insert_loop E R key index s 0 (rid t) = (Inr (Some x), s')"
      and g: "grown E s t key index s' t'" and x: "fst x = EMPTY \<longleftrightarrow> (\<exists>w. has t key w)"
      using insert_loop_grown [OF quiet index inv ok, of 0 key] unfolding drop_0 by blast
    have out: "unchanged_outside (set (ids t)) s s'" using g by (simp add: grown_def)
    have "forest E R s' (f(?si := Some t'))"
    proof (rule forest_update [OF f out])
      show "mem_get_root i s' = (if i = ?si then rid t' else mem_get_root i s)" for i
        using get_root_cong [of s' s i] out g roots Some by (auto simp: unchanged_outside_def grown_def)
    qed (use g out Some in \<open>auto simp: grown_def unchanged_outside_def\<close>)
    moreover have "holds E R (f(?si := Some t')) l v \<longleftrightarrow> holds E R f l v \<or> l = key \<and> v = index \<and> (\<forall>w. \<not> holds E R f key w)" for l v
      using g Some key by (auto simp: grown_def holds_def)
    moreover have "(\<exists>w. holds E R f key w) \<longleftrightarrow> (\<exists>w. has t key w)" using Some key by (simp add: holds_def)
    moreover have "full s f \<longrightarrow> full s' (f(?si := Some t'))"
      using full_update [of s f s' t' ?si] g out Some inv
      by (simp add: grown_def mem_inv_def unchanged_outside_def)
    moreover have "radix_insert E R key index metas s = (Inr x, s')" using l roots Some by (simp add: ins)
    moreover have "sharded E R f \<longrightarrow> sharded E R (f(?si := Some t'))"
      using sharded_update [OF _ key refl, of E R f t'] g Some by (auto simp: grown_def)
    ultimately show ?thesis using x by blast
  qed
qed

lemma radix_match_forest:
  assumes f: "forest E R s f"
  shows "radix_match E R EMPTY key s = Inr v \<longleftrightarrow> holds E R f key v"
    and "radix_match E R EMPTY key s = Inl NotFound \<or> (\<exists>v. radix_match E R EMPTY key s = Inr v)"
proof -
  let ?si = "shard_of E (hd key) (sharding R)"
  have root: "mem_get_root ?si s = (case f ?si of None \<Rightarrow> EMPTY | Some t \<Rightarrow> rid t)" using f by (simp add: forest_def)
  have "(radix_match E R EMPTY key s = Inr v \<longleftrightarrow> holds E R f key v) \<and>
    (radix_match E R EMPTY key s = Inl NotFound \<or> (\<exists>v. radix_match E R EMPTY key s = Inr v))"
  proof (cases "f ?si")
    case None
    with root show ?thesis by (simp add: radix_match_def holds_def)
  next
    case (Some t)
    then have ok: "rep E s t" "wf_rt t" using f by (auto simp: forest_def tree_ok_def)
    then have "rid t \<noteq> EMPTY" using rep_ids rid_in_ids by blast
    with Some root match_loop_rep [OF ok, of 0 key v] show ?thesis
      by (simp add: radix_match_def holds_def)
  qed
  then show "radix_match E R EMPTY key s = Inr v \<longleftrightarrow> holds E R f key v"
    and "radix_match E R EMPTY key s = Inl NotFound \<or> (\<exists>v. radix_match E R EMPTY key s = Inr v)" by blast+
qed

end

end
