(* ===== verification/Radix_Search.thy ===== *)
theory Radix_Search
  imports Radix_Tree "HOL-Library.Sublist"
begin

text \<open>
  The searches of the radix trie: the iterative walk of a subtree against a recursive one, the
  prefix search against the dictionary, the substring search against interruptions.
\<close>

section \<open>Walking a subtree\<close>

fun walk :: "'a list \<Rightarrow> 'a rt \<Rightarrow> ('a list \<times> nat) list" where
  "walk q (RT i p r ts) =
     (if r \<noteq> EMPTY then [(q @ p, r)] else []) @ concat (rev (map (walk (q @ p)) ts))"

lemma set_walk: "set (walk q t) = {(q @ k, v) |k v. has t k v}"
proof (induction q t rule: walk.induct)
  case (1 q i p r ts)
  have "(\<Union>t \<in> set ts. set (walk (q @ p) t)) = (\<Union>t \<in> set ts. {(q @ p @ k, v) |k v. has t k v})"
    by (rule SUP_cong) (use 1 in auto)
  then show ?case by (auto simp: has.simps)
qed

lemma distinct_walk: "wf_rt t \<Longrightarrow> distinct (map fst (walk q t))"
proof (induction q t rule: walk.induct)
  case (1 q i p r ts)
  have keys: "\<exists>l. k = q @ p @ rp t @ l" if k: "k \<in> fst ` set (walk (q @ p) t)" for k t
  proof -
    obtain l v where "k = (q @ p) @ l" "has t l v" using k unfolding set_walk by auto
    with has_prefix [of t l v] show ?thesis by auto
  qed
  have ne: "rp t \<noteq> []" if "t \<in> set ts" for t using that 1(2) by (simp add: wf_rt.simps)
  have heads: "fst ` set (walk (q @ p) t) \<inter> fst ` set (walk (q @ p) u) = {}"
    if tu: "t \<in> set ts" "u \<in> set ts" "hd (rp t) \<noteq> hd (rp u)" for t u
  proof (rule ccontr)
    assume "fst ` set (walk (q @ p) t) \<inter> fst ` set (walk (q @ p) u) \<noteq> {}"
    then obtain k where "k \<in> fst ` set (walk (q @ p) t)" "k \<in> fst ` set (walk (q @ p) u)" by blast
    from keys [OF this(1)] keys [OF this(2)] obtain l m where "rp t @ l = rp u @ m" by auto
    then have "hd (rp t @ l) = hd (rp u @ m)" by simp
    with tu(3) ne [OF tu(1)] ne [OF tu(2)] show False by simp
  qed
  have "q @ p \<notin> fst ` set (walk (q @ p) t)" if "t \<in> set ts" for t
    using keys [of "q @ p" t] ne [OF that] by auto
  moreover have "distinct (map fst (concat (rev (map (walk (q @ p)) ts'))))" if "set ts' \<subseteq> set ts" "distinct (map (\<lambda>t. hd (rp t)) ts')" for ts'
    using that
  proof (induction ts')
    case (Cons t ts')
    then have "distinct (map fst (walk (q @ p) t))" using 1 by (auto simp: wf_rt.simps)
    moreover have "fst ` set (walk (q @ p) t) \<inter> (\<Union>u \<in> set ts'. fst ` set (walk (q @ p) u)) = {}"
      using Cons.prems heads [of t] by auto
    ultimately show ?case using Cons by (auto simp: map_concat)
  qed simp
  ultimately show ?case using 1(2) by (auto simp: wf_rt.simps)
qed

context element_codec
begin

lemma child_entries_rep:
  "\<forall>t \<in> set ts. rep E s t \<Longrightarrow> child_entries E s path (map rid ts) = Inr (map (\<lambda>t. (rid t, path @ rp t)) ts)"
  by (induction ts) (auto simp: read_rep)

lemma collect_all_rep:
  assumes "\<forall>(q, t) \<in> set ws. rep E s t" and "sum_list (map (\<lambda>(q, t). length (ids t)) ws) \<le> fuel"
  shows "collect_all fuel E s (map (\<lambda>(q, t). (rid t, q @ rp t)) ws) = Some (Inr (concat (map (\<lambda>(q, t). walk q t) ws)))"
  using assms
proof (induction fuel arbitrary: ws)
  case 0
  have "length (ids t) > 0" for t :: "'a rt" by (cases t) simp
  with 0 show ?case by (cases ws) fastforce+
next
  case (Suc fuel)
  show ?case
  proof (cases ws)
    case (Cons w ws')
    obtain q i p r ts where w: "w = (q, RT i p r ts)" by (metis prod.exhaust rt.exhaust)
    have rep: "mem_node s i = Some (from_vec E p, r)" "mem_kids s i = map rid ts" "\<forall>t \<in> set ts. rep E s t"
      using Suc.prems(1) Cons w by (auto simp: rep.simps)
    have node: "mem_get_node i s = Inr (from_vec E p, r)"
      using rep(1) by (auto simp: mem_node_def mem_get_node_def split: if_splits)
    let ?ws = "map (Pair (q @ p)) (rev ts) @ ws'"
    have "sum_list (map (\<lambda>(q, t). length (ids t)) ?ws) \<le> fuel"
      using Suc.prems(2) Cons w by (simp add: comp_def length_concat rev_map [symmetric])
    moreover have "\<forall>(q, t) \<in> set ?ws. rep E s t" using Suc.prems(1) Cons rep(3) by auto
    ultimately have "collect_all fuel E s (map (\<lambda>(q, t). (rid t, q @ rp t)) ?ws) = Some (Inr (concat (map (\<lambda>(q, t). walk q t) ?ws)))"
      by (rule Suc.IH [rotated])
    moreover have "child_entries E s (q @ p) (mem_get_children i s) = Inr (map (\<lambda>t. (rid t, (q @ p) @ rp t)) ts)"
      using child_entries_rep [OF rep(3)] rep(2) by (simp add: mem_kids_def)
    ultimately show ?thesis using Cons w node by (simp add: comp_def rev_map)
  qed simp
qed

lemma ids_bound: "tree_ok E s t \<Longrightarrow> length (ids t) \<le> length (mem_nodes s)"
proof -
  assume ok: "tree_ok E s t"
  then have "i < length (mem_nodes s)" if "i \<in> set (ids t)" for i
    using rep_ids [of E s t i] that by (auto simp: tree_ok_def mem_node_def split: if_splits)
  then have "set (ids t) \<subseteq> {..<length (mem_nodes s)}" by blast
  from card_mono [OF _ this] ok show ?thesis by (simp add: tree_ok_def distinct_card)
qed

lemma common_len_covers:
  assumes "common_len p q = length q"
  shows "prefix q (p @ l)"
proof -
  have "take (length q) p = q" using common_len_take [of p q] assms by simp
  then show ?thesis by (metis prefix_order.trans prefixI take_is_prefix)
qed

lemma common_len_stops:
  assumes "common_len p q < length p" and "common_len p q \<noteq> length q"
  shows "\<not> prefix q (p @ l)"
proof
  assume "prefix q (p @ l)"
  then obtain z where z: "p @ l = q @ z" by (auto simp: prefix_def)
  have lt: "common_len p q < length q" using assms(2) common_len_le(2) [of p q] by simp
  have "p ! common_len p q = (p @ l) ! common_len p q" using assms(1) by (simp add: nth_append)
  also have "\<dots> = q ! common_len p q" unfolding z using lt by (simp add: nth_append)
  finally show False using common_len_differ [OF assms(1) lt] by simp
qed

lemma prefix_loop_rep:
  assumes "tree_ok E s t" and "tail < length key" and fuel: "length (mem_nodes s) \<le> fuel"
  shows "\<exists>res. prefix_loop fuel E s key tail path (rid t) = Some (Inr res) \<and> distinct (map fst res)
    \<and> (\<forall>k v. (k, v) \<in> set res \<longleftrightarrow> (\<exists>l. k = path @ l \<and> has t l v \<and> prefix (drop tail key) l))"
  using assms(1,2)
proof (induction t arbitrary: tail path rule: ids.induct)
  case (1 i p r ts)
  let ?t = "RT i p r ts" and ?k = "drop tail key" and ?c = "common_len p (drop tail key)"
  have rep: "rep E s ?t" and wf: "wf_rt ?t" and i: "i \<noteq> EMPTY" using 1(2) by (auto simp: tree_ok_def rep.simps)
  have read: "read_node E s i = Inr (p, r)" using read_rep [OF rep] by simp
  note loop = prefix_loop.simps [of fuel E s key tail path i]
  have pre: "\<exists>m. l = p @ m" if "has ?t l v" for l v using has_prefix [OF that] by simp
  show ?case
  proof (cases "?c = length ?k")
    case True
    have "collect_all fuel E s [(i, path @ p)] = Some (Inr (walk path ?t))"
      using collect_all_rep [of "[(path, ?t)]" s fuel] rep ids_bound [OF 1(2)] fuel by simp
    then have "prefix_loop fuel E s key tail path i = Some (Inr (walk path ?t))"
      using True i read by (simp add: loop)
    moreover have "(k, v) \<in> set (walk path ?t) \<longleftrightarrow> (\<exists>l. k = path @ l \<and> has ?t l v \<and> prefix ?k l)" for k v
      unfolding set_walk using pre common_len_covers [OF True] by blast
    ultimately show ?thesis using distinct_walk [OF wf, of path] by (intro exI [of _ "walk path ?t"]) simp
  next
    case more: False
    show ?thesis
    proof (cases "?c < length p")
      case True
      then have "\<not> (has ?t l v \<and> prefix ?k l)" for l v using pre common_len_stops [OF True more] by blast
      then show ?thesis using True more i read by (intro exI [of _ "[]"]) (simp add: loop)
    next
      case False
      then have c: "?c = length p" and k: "?k = p @ drop (tail + length p) key"
        using common_len_full [OF False] by (auto simp: add.commute)
      let ?l = "drop (tail + length p) key"
      have len: "tail + length p < length key" using more common_len_le(2) [of p ?k] c by simp
      then have l: "?l \<noteq> []" "hd ?l = key ! (tail + length p)" by (auto simp: hd_drop_conv_nth)
      have has: "has ?t m v \<and> prefix ?k m \<longleftrightarrow> (\<exists>m'. m = p @ m' \<and> prefix ?l m' \<and> (\<exists>t \<in> set ts. has t m' v))" for m v
        unfolding k using l(1) by (auto simp: has.simps prefix_def)
      have find: "find_child E s (key ! (tail + length p)) (mem_get_children i s) =
          Inr (map_option rid (find (\<lambda>t. rp t \<noteq> [] \<and> hd (rp t) = hd ?l) ts))"
        using find_child_kids [OF rep] l(2) by simp
      have first: "rp t \<noteq> [] \<and> hd (rp t) = hd ?l" if "t \<in> set ts" "has t m v" "prefix ?l m" for t m v
      proof -
        have "rp t \<noteq> []" using that(1) wf by (simp add: wf_rt.simps)
        moreover have "hd m = hd ?l" using that(3) l(1) by (auto simp: prefix_def)
        ultimately show ?thesis using has_hd [OF that(2)] by simp
      qed
      show ?thesis
      proof (cases "find (\<lambda>t. rp t \<noteq> [] \<and> hd (rp t) = hd ?l) ts")
        case None
        then have "\<not> (has ?t m v \<and> prefix ?k m)" for m v
          unfolding has find_None_iff using first by blast
        with None find show ?thesis
          using more False c i read
          by (intro exI [of _ "[]"]) (simp add: loop prefix_loop.simps [of fuel E s key _ _ EMPTY])
      next
        case (Some u)
        then have u: "u \<in> set ts" "rp u \<noteq> []" "hd (rp u) = hd ?l" by (auto simp: find_Some_iff)
        have one: "prefix ?l m \<and> (\<exists>t \<in> set ts. has t m v) \<longleftrightarrow> has u m v \<and> prefix ?l m" for m v
          using first u has_child_unique [OF wf _ u(1)] by metis
        have step: "prefix_loop fuel E s key tail path i = prefix_loop fuel E s key (tail + length p) (path @ p) (rid u)"
          using more False c i read find Some by (simp add: loop)
        from 1(1) [OF u(1) tree_ok_child [OF 1(2) u(1)] len, of "path @ p"] show ?thesis
          unfolding rt.sel step has one by (simp add: ex_simps) (metis append.assoc)
      qed
    qed
  qed
qed

lemma search_prefix_forest:
  assumes f: "forest E R s f" and "key \<noteq> []" and "length (mem_nodes s) \<le> fuel"
  shows "\<exists>res. search_prefix fuel E R EMPTY key s = Some (Inr res) \<and> distinct (map fst res)
    \<and> (\<forall>k v. (k, v) \<in> set res \<longleftrightarrow> holds E R f k v \<and> prefix key k)"
proof (cases "f (shard_of E (hd key) (sharding R))")
  case None
  moreover have "\<not> (holds E R f k v \<and> prefix key k)" for k v
    using None assms(2) by (auto simp: holds_def prefix_def)
  ultimately show ?thesis using f assms(2) by (simp add: search_prefix_def forest_def)
next
  case (Some t)
  then have ok: "tree_ok E s t" and root: "mem_get_root (shard_of E (hd key) (sharding R)) s = rid t"
    using f by (auto simp: forest_def)
  have "rid t \<noteq> EMPTY" using ok rep_ids [of E s t "rid t"] rid_in_ids by (auto simp: tree_ok_def)
  then have "search_prefix fuel E R EMPTY key s = prefix_loop fuel E s key 0 [] (rid t)"
    using root assms(2) by (simp add: search_prefix_def)
  moreover have "has t k v \<and> prefix key k \<longleftrightarrow> holds E R f k v \<and> prefix key k" for k v
    using Some assms(2) by (auto simp: holds_def prefix_def)
  ultimately show ?thesis using prefix_loop_rep [OF ok _ assms(3), of 0 key "[]"] assms(2) by simp
qed

end

section \<open>The dictionary of a history of insertions\<close>

definition radix_insert_all :: "'a element \<Rightarrow> 'a radix \<Rightarrow> ('a list \<times> nat) list \<Rightarrow> mem \<Rightarrow> mem" where
  "radix_insert_all E R kvs s = fold (\<lambda>(k, i) s. snd (radix_insert E R k i [] s)) kvs s"

text \<open>The record a key was first inserted with; the empty key and the empty record are refused.\<close>

definition first_record :: "('a list \<times> nat) list \<Rightarrow> 'a list \<Rightarrow> nat option" where
  "first_record kvs k = map_of (filter (\<lambda>(k, i). k \<noteq> [] \<and> i \<noteq> EMPTY) kvs) k"

lemma first_record_snoc:
  "first_record (kvs @ [(l, i)]) k =
     (if first_record kvs k = None \<and> k = l \<and> l \<noteq> [] \<and> i \<noteq> EMPTY then Some i else first_record kvs k)"
  by (auto simp: first_record_def map_add_def split: option.splits)

lemma forest_new: "forest E R mem_new (\<lambda>_. None)"
  by (simp add: forest_def mem_inv_def mem_ok_def mem_new_def mem_get_root_def)

lemma quiet_new: "quiet (radix_new n)"
  by (simp add: quiet_def radix_new_def)

lemma radix_insert_refused: "k = [] \<or> i = EMPTY \<Longrightarrow> snd (radix_insert E R k i metas s) = s"
  by (auto simp: radix_insert_def)

context element_codec
begin

lemma insert_all_forest:
  assumes "quiet R"
  shows "\<exists>f. forest E R (radix_insert_all E R kvs mem_new) f \<and> (\<forall>k v. holds E R f k v \<longleftrightarrow> first_record kvs k = Some v)"
proof (induction kvs rule: rev_induct)
  case Nil
  have "\<not> holds E R (\<lambda>_. None) k v" for k v by (simp add: holds_def)
  with forest_new [of E R] show ?case by (auto simp: radix_insert_all_def first_record_def)
next
  case (snoc kv kvs)
  obtain k i where kv: "kv = (k, i)" by (cases kv)
  let ?s = "radix_insert_all E R kvs mem_new"
  from snoc obtain f where f: "forest E R ?s f" and dict: "\<And>k v. holds E R f k v \<longleftrightarrow> first_record kvs k = Some v" by blast
  have step: "radix_insert_all E R (kvs @ [kv]) mem_new = snd (radix_insert E R k i [] ?s)"
    by (simp add: radix_insert_all_def kv)
  show ?case
  proof (cases "k = [] \<or> i = EMPTY")
    case True
    with f dict step show ?thesis by (auto simp: radix_insert_refused kv first_record_snoc)
  next
    case False
    then obtain x s' f' where ins: "radix_insert E R k i [] ?s = (Inr x, s')" and f': "forest E R s' f'"
      and dict': "\<And>l v. holds E R f' l v \<longleftrightarrow> holds E R f l v \<or> l = k \<and> v = i \<and> (\<forall>w. \<not> holds E R f k w)"
      using radix_insert_forest [OF f assms, of k i "[]"] by blast
    have "holds E R f' l v \<longleftrightarrow> first_record (kvs @ [kv]) l = Some v" for l v
      using False by (auto simp: dict' dict kv first_record_snoc)
    with f' step ins show ?thesis by auto
  qed
qed

lemma match_after_inserts:
  assumes "quiet R"
  shows "radix_match E R EMPTY key (radix_insert_all E R kvs mem_new) =
    (case first_record kvs key of Some i \<Rightarrow> Inr i | None \<Rightarrow> Inl NotFound)"
proof -
  obtain f where f: "forest E R (radix_insert_all E R kvs mem_new) f"
    and dict: "\<And>k v. holds E R f k v \<longleftrightarrow> first_record kvs k = Some v"
    using insert_all_forest [OF assms] by blast
  show ?thesis
    using radix_match_forest(1) [OF f, of key] radix_match_forest(2) [OF f, of key] dict
    by (cases "first_record kvs key") auto
qed

lemma prefix_after_inserts:
  assumes "quiet R" and "key \<noteq> []" and "length (mem_nodes (radix_insert_all E R kvs mem_new)) \<le> fuel"
  shows "\<exists>res. search_prefix fuel E R EMPTY key (radix_insert_all E R kvs mem_new) = Some (Inr res)
    \<and> distinct (map fst res) \<and> (\<forall>k v. (k, v) \<in> set res \<longleftrightarrow> first_record kvs k = Some v \<and> prefix key k)"
proof -
  obtain f where f: "forest E R (radix_insert_all E R kvs mem_new) f"
    and dict: "\<And>k v. holds E R f k v \<longleftrightarrow> first_record kvs k = Some v"
    using insert_all_forest [OF assms(1)] by blast
  from search_prefix_forest [OF f assms(2,3)] dict show ?thesis by simp
qed

end

interpretation u8_element: element_codec "word_element :: u8 element"
  by (rule word_element_codec) simp

interpretation u16_element: element_codec "word_element :: u16 element"
  by (rule word_element_codec) simp

interpretation u32_element: element_codec "word_element :: u32 element"
  by (rule word_element_codec) simp

interpretation u64_element: element_codec "word_element :: u64 element"
  by (rule word_element_codec) simp

text \<open>C1: The trie is a dictionary: after any sequence of insertions into an empty store, whatever
  splits and extensions they caused and however the keys spread over the shards, an exact match
  gives the record its key was first inserted with, and \<open>NotFound\<close> for every other key (a
  repeated key keeps its first record; an empty key or a zero record is refused).\<close>

theorem radix_dictionary:
  "radix_match word_element (radix_new n) EMPTY (key :: u64 list)
     (radix_insert_all word_element (radix_new n) kvs mem_new) =
   (case first_record kvs key of Some i \<Rightarrow> Inr i | None \<Rightarrow> Inl NotFound)"
  by (rule u64_element.match_after_inserts [OF quiet_new])

text \<open>C14: A prefix search is complete and exact: once the walk is given as many rounds as there are
  nodes, it returns, without error, every inserted key that starts with the prefix together
  with its record, each once, and nothing else.\<close>

theorem radix_prefix_search:
  assumes "key \<noteq> []"
    and "length (mem_nodes (radix_insert_all word_element (radix_new n) kvs mem_new)) \<le> fuel"
  shows "\<exists>res. search_prefix fuel word_element (radix_new n) EMPTY (key :: u64 list)
             (radix_insert_all word_element (radix_new n) kvs mem_new) = Some (Inr res)
    \<and> distinct (map fst res)
    \<and> (\<forall>k v. (k, v) \<in> set res \<longleftrightarrow> first_record kvs k = Some v \<and> prefix key k)"
  by (rule u64_element.prefix_after_inserts [OF quiet_new assms])

text \<open>Witness of C14: three keys, two of them under the prefix.\<close>

theorem radix_prefix_search_witness:
  "\<exists>fuel res. search_prefix fuel word_element (radix_new 1) EMPTY [1 :: u64, 2]
       (radix_insert_all word_element (radix_new 1) [([1 :: u64, 2], 5), ([1, 3], 6), ([1, 2, 7], 8)] mem_new) = Some (Inr res)
    \<and> distinct (map fst res)
    \<and> (\<forall>k v. (k, v) \<in> set res \<longleftrightarrow>
          first_record [([1, 2], 5), ([1, 3], 6), ([1, 2, 7], 8)] k = Some v \<and> prefix [1, 2] k)"
  by (rule exI, rule radix_prefix_search [where key = "[1, 2]" and n = 1 and
    kvs = "[([1, 2], 5), ([1, 3], 6), ([1, 2, 7], 8)]", OF list.distinct(2) order_refl])

section \<open>Interrupted substring search\<close>

text \<open>
  More fuel does not change an answer, and an interrupted search leaves off at a state from
  which the uninterrupted one continues.
\<close>

lemma dfs_loop_resume:
  assumes "dfs_loop fuel E R s mt pattern clock st records = Some (Inr (xs, Some cp))"
    and "dfs_loop fuel' E R s mt pattern [] st records = Some res"
  shows "xs = [] \<and> dfs_loop fuel' E R s mt pattern [] (cp_state cp) (cp_records cp) = Some res"
  using assms
proof (induction fuel E R s mt pattern clock st records arbitrary: fuel' rule: dfs_loop.induct)
  case (3 fuel E R s mt pattern clock st records)
  obtain n where n: "fuel' = Suc n" using 3(3) by (cases fuel') auto
  show ?case
  proof (cases "clock \<noteq> [] \<and> hd clock")
    case True
    with 3(2,3) show ?thesis by auto
  next
    case False
    with 3(2) obtain st' records' where step: "dfs_step E R s mt pattern st records = Inr (st', records')"
      and run: "dfs_loop fuel E R s mt pattern (tl clock) st' records' = Some (Inr (xs, Some cp))"
      by (auto split: sum.splits)
    from 3(3) step n have full: "dfs_loop n E R s mt pattern [] st' records' = Some res" by simp
    from 3(1) [OF False step refl run full] have "xs = []"
      and rest: "dfs_loop n E R s mt pattern [] (cp_state cp) (cp_records cp) = Some res" by simp_all
    moreover have "dfs_loop (Suc m) E R s mt pattern [] st1 rs1 = Some res"
      if "dfs_loop m E R s mt pattern [] st1 rs1 = Some res" for m st1 rs1
      using that by (induction m arbitrary: st1 rs1) (case_tac st1; auto split: sum.splits)+
    ultimately show ?thesis using n by simp
  qed
qed auto

text \<open>C24: A deadline only pauses a substring search: whenever the deadline strikes, resuming from
  the returned checkpoint gives exactly the answer (the records or the error) that the same
  search without a deadline gives, and the paused call reports no records of its own.\<close>

theorem radix_dfs_resume:
  assumes "search_dfs fuel E R b pattern mt None clock s = Some (Inr (xs, Some cp))"
    and "search_dfs fuel' E R b pattern mt None [] s = Some res"
  shows "xs = [] \<and> search_dfs fuel' E R b pattern mt (Some cp) [] s = Some res"
  using assms dfs_loop_resume [of fuel E R s mt pattern clock _ _ xs cp fuel' res]
  by (auto simp: search_dfs_def Let_def split: if_splits)

text \<open>Witness of C24: a store with one node, a search stopped after its first round and resumed.\<close>

definition dfs_demo :: mem where
  "dfs_demo = snd (mem_new_node [] 7 mem_new)"

lemma dfs_demo_node [simp]: "read_node word_element dfs_demo (Suc 0) = Inr ([] :: u8 list, 7)"
  "mem_get_node (Suc 0) dfs_demo = Inr ([], 7)" "mem_get_children (Suc 0) dfs_demo = []"
  by (simp_all add: dfs_demo_def read_node_def mem_get_node_def mem_get_children_def mem_new_node_def
      alloc_id_def put_node_def grow_def mem_new_def to_vec.simps word_element_def)

theorem radix_dfs_resume_witness:
  "let cp = \<lparr>cp_state = Some (Collect 1 [(1, 0)]), cp_records = []\<rparr>;
       mt = (\<lambda>p q i. \<lparr>found = True, continuations = []\<rparr>)
   in ([] :: nat list) = [] \<and> search_dfs 9 word_element (radix_new 1) 1 [1 :: u8] mt (Some cp) [] dfs_demo = Some (Inr ([7], None))"
  unfolding Let_def
  by (rule radix_dfs_resume [where fuel = 9 and b = 1 and clock = "[False, True]"])
    (simp_all add: search_dfs_def EMPTY_def eval_nat_numeral)

end
