(* ===== verification/Kmp.thy ===== *)
theory Kmp
  imports Radix "HOL-Library.Sublist"
begin

text \<open>
  The pattern matcher of the substring search (\<open>lps\<close>, \<open>kmp_match\<close> and \<open>kmp_matcher\<close> in
  \<open>crates/opsense-mlib/src/search.rs\<close>): Knuth-Morris-Pratt over the prefix of one trie node, started
  in the middle of the pattern and able to continue in the children of the node. The loops are
  partial functions; the lemmas show that they return when the table is the one of \<open>lps\<close>.
\<close>

section \<open>The table of borders\<close>

partial_function (option) lps_fall :: "'a list \<Rightarrow> nat list \<Rightarrow> 'a \<Rightarrow> nat \<Rightarrow> nat option" where
  "lps_fall pattern l c j =
     (if 0 < j \<and> c \<noteq> pattern ! j then lps_fall pattern l c (l ! (j - 1)) else Some j)"

declare lps_fall.simps [code]

fun lps_loop :: "'a list \<Rightarrow> nat list \<Rightarrow> nat list \<Rightarrow> nat \<Rightarrow> nat list option" where
  "lps_loop pattern [] l j = Some l"
| "lps_loop pattern (i # is) l j =
     Option.bind (lps_fall pattern l (pattern ! i) j) (\<lambda>j.
       if pattern ! i = pattern ! j then lps_loop pattern is (l[i := j + 1]) (j + 1)
       else lps_loop pattern is l j)"

definition lps :: "'a list \<Rightarrow> nat list option" where
  "lps pattern = lps_loop pattern [1..<length pattern] (replicate (length pattern) 0) 0"

section \<open>Matching one node\<close>

partial_function (option) kmp_loop ::
    "'a list \<Rightarrow> 'a list \<Rightarrow> nat list \<Rightarrow> bool \<Rightarrow> bool \<Rightarrow> nat \<Rightarrow> nat \<Rightarrow> (bool \<times> bool \<times> nat \<times> nat) option" where
  "kmp_loop pattern data l do_recursive keep pp dp =
     (if \<not> dp < length data then Some (False, keep, dp, pp)
      else
        let hit = (data ! dp = pattern ! pp);
            keep = (hit \<or> keep);
            dp = (if hit then dp + 1 else dp);
            pp = (if hit then pp + 1 else pp)
        in if pp = length pattern then Some (True, False, dp, pp)
           else if dp < length data \<and> pattern ! pp \<noteq> data ! dp then
             (if \<not> do_recursive then Some (False, False, dp, pp)
              else if pp \<noteq> 0
              then kmp_loop pattern data l do_recursive keep (l ! (pp - 1)) dp
              else kmp_loop pattern data l do_recursive False pp (dp + 1))
           else kmp_loop pattern data l do_recursive keep pp dp)"

declare kmp_loop.simps [code]

definition kmp_match ::
    "'a list \<Rightarrow> 'a list \<Rightarrow> nat list \<Rightarrow> nat \<Rightarrow> nat \<Rightarrow> bool \<Rightarrow> (bool \<times> bool \<times> nat \<times> nat) option" where
  "kmp_match pattern data l pp dp do_recursive =
     kmp_loop pattern data l do_recursive False pp dp"

text \<open>The restarts at the later positions of a node: whether one matches, else where they end.\<close>

fun scan_block :: "'a list \<Rightarrow> nat list \<Rightarrow> 'a list \<Rightarrow> nat list \<Rightarrow> (bool \<times> nat list) option" where
  "scan_block pat l data [] = Some (False, [])"
| "scan_block pat l data (scan_pos # ps) =
     (if data ! scan_pos = pat ! 0 then
        let do_rec = (length data - scan_pos < length pat)
        in Option.bind (kmp_match pat data l 0 scan_pos do_rec) (\<lambda>(f2, k2, _, pp2).
             if f2 then Some (True, [])
             else map_option (\<lambda>(f, cs). (f, (if do_rec \<and> k2 \<and> pp2 < length pat then [pp2] else []) @ cs))
                    (scan_block pat l data ps))
      else scan_block pat l data ps)"

definition kmp_matcher :: "nat list \<Rightarrow> 'a list \<Rightarrow> 'a list \<Rightarrow> nat \<Rightarrow> on_match option" where
  "kmp_matcher l data pat pp =
     (let remaining = length pat - pp;
          do_recursive = (length data < remaining)
      in Option.bind (kmp_match pat data l pp 0 do_recursive) (\<lambda>(fnd, keep, _, npp).
           if fnd then Some \<lparr>found = True, continuations = []\<rparr>
           else
             map_option (\<lambda>(f, cs).
                if f then \<lparr>found = True, continuations = []\<rparr>
                else \<lparr>found = False, continuations =
                        cs @ (if do_recursive \<and> keep \<and> npp < length pat
                              then [npp] else [])\<rparr>)
               (if pp = 0 \<and> 1 < length data
                then scan_block pat l data [1..<length data] else Some (False, []))))"

section \<open>Borders\<close>

text \<open>\<open>ends p m t\<close>: the first \<open>m\<close> elements of the pattern end the text.\<close>

definition ends :: "'a list \<Rightarrow> nat \<Rightarrow> 'a list \<Rightarrow> bool" where
  "ends p m t = (m \<le> length p \<and> suffix (take m p) t)"

definition is_border :: "'a list \<Rightarrow> nat \<Rightarrow> nat \<Rightarrow> bool" where
  "is_border p i m = (m \<le> i \<and> ends p m (take (Suc i) p))"

text \<open>\<open>l\<close> holds the longest proper border of the prefixes of length at most \<open>n\<close>.\<close>

definition borders :: "'a list \<Rightarrow> nat list \<Rightarrow> nat \<Rightarrow> bool" where
  "borders p l n = (length l = length p \<and>
     (\<forall>i < n. is_border p i (l ! i) \<and> (\<forall>m. is_border p i m \<longrightarrow> m \<le> l ! i)))"

lemma ends_0 [simp]: "ends p 0 t"
  by (simp add: ends_def)

lemma ends_snoc:
  "m < length p \<Longrightarrow> ends p (Suc m) (t @ [c]) \<longleftrightarrow> ends p m t \<and> p ! m = c"
  by (simp add: ends_def take_Suc_conv_app_nth conj_commute)

lemma ends_trans: "ends p m (take k p) \<Longrightarrow> ends p k t \<Longrightarrow> ends p m t"
  by (auto simp: ends_def intro: suffix_order.trans)

lemma ends_shorter: "ends p m t \<Longrightarrow> ends p k t \<Longrightarrow> m \<le> k \<Longrightarrow> ends p m (take k p)"
  using suffix_length_suffix [of "take m p" t "take k p"] by (simp add: ends_def)

lemma is_border_Suc:
  assumes "i < length p" "0 < i"
  shows "is_border p i (Suc m) \<longleftrightarrow> m < i \<and> ends p m (take i p) \<and> p ! m = p ! i"
  using assms ends_snoc [of m p "take i p" "p ! i"]
  by (auto simp: is_border_def take_Suc_conv_app_nth)

text \<open>
  The inner loop runs through the borders of the prefix read so far, longest first: it stops
  at the longest one that the next element extends, or at 0.
\<close>

lemma lps_fall_correct:
  assumes table: "borders p l i" and i: "i < length p" "0 < i"
    and j: "j < i" "ends p j (take i p)" "\<forall>m. m < i \<and> ends p m (take i p) \<and> p ! m = p ! i \<longrightarrow> m \<le> j"
  shows "\<exists>k. lps_fall p l (p ! i) j = Some k \<and> k < i \<and> ends p k (take i p) \<and>
    (p ! i = p ! k \<or> k = 0) \<and> (\<forall>m. m < i \<and> ends p m (take i p) \<and> p ! m = p ! i \<longrightarrow> m \<le> k)"
  using j
proof (induction j rule: less_induct)
  case (less j)
  show ?case
  proof (cases "0 < j \<and> p ! i \<noteq> p ! j")
    case False
    then show ?thesis using less.prems by (subst lps_fall.simps) auto
  next
    case True
    let ?k = "l ! (j - 1)"
    have b: "is_border p (j - 1) ?k" "\<And>m. is_border p (j - 1) m \<Longrightarrow> m \<le> ?k"
      using table True less.prems(1) by (auto simp: borders_def)
    then have k: "?k < j" "ends p ?k (take j p)" using True by (auto simp: is_border_def)
    have max: "m \<le> ?k" if m: "m < i" "ends p m (take i p)" "p ! m = p ! i" for m
    proof -
      have "m \<le> j" using less.prems(3) m by blast
      then have "m < j" using True m(3) by (cases "m = j") auto
      then show ?thesis
        using b(2) [of m] ends_shorter [OF m(2) less.prems(2)] True by (auto simp: is_border_def)
    qed
    have "lps_fall p l (p ! i) j = lps_fall p l (p ! i) ?k"
      using True by (subst lps_fall.simps) simp
    then show ?thesis
      using less.IH [OF k(1) _ ends_trans [OF k(2) less.prems(2)]] k(1) less.prems(1) max by simp
  qed
qed

lemma lps_loop_correct:
  assumes "borders p l i" "i \<le> length p" "0 < i" "p \<noteq> []"
    and "j < i" "ends p j (take i p)" "j = l ! (i - 1)" "\<forall>k \<ge> i. k < length p \<longrightarrow> l ! k = 0"
  shows "\<exists>l'. lps_loop p [i..<length p] l j = Some l' \<and> borders p l' (length p)"
  using assms
proof (induction "length p - i" arbitrary: i l j)
  case 0
  then show ?case by simp
next
  case (Suc n)
  then have i: "i < length p" by simp
  have len: "length l = length p" using Suc.prems(1) by (simp add: borders_def)
  have top: "m \<le> j" if "m < i" "ends p m (take i p)" for m
    using Suc.prems(1,3,7) that by (auto simp: borders_def is_border_def)
  obtain k where k: "lps_fall p l (p ! i) j = Some k" "k < i" "ends p k (take i p)"
    "p ! i = p ! k \<or> k = 0" "\<And>m. m < i \<Longrightarrow> ends p m (take i p) \<Longrightarrow> p ! m = p ! i \<Longrightarrow> m \<le> k"
    using lps_fall_correct [OF Suc.prems(1) i Suc.prems(3,5,6)] top by blast
  let ?v = "if p ! i = p ! k then k + 1 else 0"
  let ?l = "l[i := ?v]"
  have border: "is_border p i ?v" using is_border_Suc [OF i Suc.prems(3), of k] k by (auto simp: is_border_def)
  have longest: "m \<le> ?v" if "is_border p i m" for m
  proof (cases m)
    case (Suc m')
    then have "m' < i" "ends p m' (take i p)" "p ! m' = p ! i"
      using is_border_Suc [OF i Suc.prems(3)] that by auto
    with k(4,5) Suc show ?thesis by fastforce
  qed simp
  have table: "borders p ?l (Suc i)"
    using Suc.prems(1) border longest i len by (auto simp: borders_def less_Suc_eq)
  have step: "lps_loop p [i..<length p] l j = lps_loop p [Suc i..<length p] ?l ?v"
  proof -
    have "l[i := 0] = l" using Suc.prems(8) i list_update_id [of l i] by simp
    then show ?thesis using k(1,4) i by (auto simp: upt_conv_Cons)
  qed
  have "\<exists>l'. lps_loop p [Suc i..<length p] ?l ?v = Some l' \<and> borders p l' (length p)"
    by (rule Suc.hyps(1)) (use Suc.hyps(2) Suc.prems table i border len in \<open>auto simp: is_border_def\<close>)
  then show ?case by (simp only: step)
qed

text \<open>The table of \<open>lps\<close> is the prefix function of the pattern.\<close>

lemma lps_correct:
  assumes "p \<noteq> []"
  obtains l where "lps p = Some l" "borders p l (length p)"
proof -
  have "borders p (replicate (length p) 0) 1"
    using assms by (auto simp: borders_def is_border_def)
  from lps_loop_correct [OF this, of 0] assms that show ?thesis
    by (cases p) (auto simp: lps_def)
qed

section \<open>The loop over a node\<close>

lemma borders_fall:
  assumes "borders p l (length p)" "0 < q" "q < length p"
  shows "l ! (q - 1) < q" "ends p q t \<Longrightarrow> ends p (l ! (q - 1)) t"
proof -
  have "is_border p (q - 1) (l ! (q - 1))" using assms by (auto simp: borders_def)
  then show "l ! (q - 1) < q" "ends p q t \<Longrightarrow> ends p (l ! (q - 1)) t"
    using assms(2) ends_trans [of p "l ! (q - 1)" q t] by (auto simp: is_border_def)
qed

text \<open>
  The loop returns, and what it returns is sound: if the pattern up to \<open>pp\<close> ends the text read
  before, a hit is an occurrence, and a loop that may recurse ends with a part of the pattern
  that ends the text.
\<close>

lemma kmp_loop_sound:
  assumes l: "borders p l (length p)" and "pp < length p" "dp \<le> length data"
    and "ends p pp (t @ take dp data)"
  shows "\<exists>f k d q. kmp_loop p data l r keep pp dp = Some (f, k, d, q) \<and>
    (f \<longrightarrow> sublist p (t @ data)) \<and> (\<not> f \<longrightarrow> q < length p \<and> (r \<longrightarrow> ends p q (t @ data)))"
  using assms(2-)
proof (induction "2 * (length data - dp) + pp" arbitrary: pp dp keep rule: less_induct)
  case less
  note loop = kmp_loop.simps [of p data l r keep pp dp]
  show ?case
  proof (cases "dp < length data")
    case False
    then show ?thesis using less.prems by (subst loop) auto
  next
    case True
    define hit where "hit = (data ! dp = p ! pp)"
    let ?dp = "if hit then dp + 1 else dp" and ?pp = "if hit then pp + 1 else pp"
    have ends: "ends p ?pp (t @ take ?dp data)"
      using less.prems True ends_snoc [of pp p "t @ take dp data" "data ! dp"]
      by (auto simp: hit_def take_Suc_conv_app_nth)
    have le: "?dp \<le> length data" "?pp \<le> length p" using less.prems True by auto
    show ?thesis
    proof (cases "?pp = length p")
      case full: True
      have "suffix p (t @ take ?dp data)" using ends full by (simp only: ends_def) simp
      moreover have "prefix (t @ take ?dp data) (t @ data)" by (simp add: take_is_prefix)
      ultimately have "sublist p (t @ data)" unfolding sublist_altdef by blast
      moreover have "kmp_loop p data l r keep pp dp = Some (True, False, ?dp, ?pp)"
        using True full by (subst loop) (simp add: hit_def [symmetric] Let_def)
      ultimately show ?thesis by auto
    next
      case more: False
      with le have lt: "?pp < length p" by simp
      show ?thesis
      proof (cases "?dp < length data \<and> p ! ?pp \<noteq> data ! ?dp")
        case miss: True
        show ?thesis
        proof (cases "\<not> r \<or> ?pp = 0")
          case True': True
          show ?thesis
          proof (cases r)
            case False
            then have "kmp_loop p data l r keep pp dp = Some (False, False, ?dp, ?pp)"
              using True more miss by (subst loop) (simp add: hit_def [symmetric] Let_def)
            then show ?thesis using False lt by auto
          next
            case r: True
            then have z: "?pp = 0" "\<not> hit" using True' by (auto split: if_splits)
            have step: "kmp_loop p data l r keep pp dp = kmp_loop p data l r False pp (dp + 1)"
              using True more miss r z by (subst loop) (simp add: hit_def [symmetric] Let_def)
            show ?thesis unfolding step
              by (rule less.hyps) (use True z less.prems in auto)
          qed
        next
          case False
          then have r: r and pos: "0 < ?pp" by auto
          note fall = borders_fall [OF l pos lt]
          have step: "kmp_loop p data l r keep pp dp = kmp_loop p data l r (hit \<or> keep) (l ! (?pp - 1)) ?dp"
            using True more miss r pos by (subst loop) (simp add: hit_def [symmetric] Let_def)
          show ?thesis unfolding step
            by (rule less.hyps) (use True fall(1) lt le fall(2) [OF ends] in auto)
        qed
      next
        case ok: False
        have hit: hit using ok True by (auto simp: hit_def split: if_splits)
        have step: "kmp_loop p data l r keep pp dp = kmp_loop p data l r True (pp + 1) (dp + 1)"
          using True more ok hit by (subst loop) (auto simp: hit_def [symmetric] Let_def)
        show ?thesis unfolding step
          by (rule less.hyps) (use True hit lt le ends in auto)
      qed
    qed
  qed
qed

text \<open>Where data and pattern agree, the loop runs straight through.\<close>

definition agrees :: "'a list \<Rightarrow> nat \<Rightarrow> 'a list \<Rightarrow> nat \<Rightarrow> bool" where
  "agrees p pp data dp = (\<forall>i. dp + i < length data \<longrightarrow> pp + i < length p \<longrightarrow> data ! (dp + i) = p ! (pp + i))"

lemma agrees_Suc: "agrees p pp data dp \<Longrightarrow> agrees p (Suc pp) data (Suc dp)"
  unfolding agrees_def by (metis add_Suc add_Suc_right)

lemma kmp_loop_straight:
  assumes "agrees p pp data dp" "pp < length p" "dp < length data"
  shows "kmp_loop p data l r keep pp dp =
    (if length p - pp \<le> length data - dp then Some (True, False, dp + (length p - pp), length p)
     else Some (False, True, length data, pp + (length data - dp)))"
  using assms
proof (induction "length data - dp" arbitrary: pp dp keep)
  case (Suc n)
  have hit: "data ! dp = p ! pp" using Suc.prems by (auto simp: agrees_def dest: spec [of _ 0])
  note next_agrees = agrees_Suc [OF Suc.prems(1)]
  have no_miss: "p ! Suc pp = data ! Suc dp" if "Suc pp < length p" "Suc dp < length data"
    using next_agrees that by (auto simp: agrees_def dest: spec [of _ 0])
  have "kmp_loop p data l r keep pp dp =
    (if Suc pp = length p then Some (True, False, Suc dp, Suc pp)
     else kmp_loop p data l r True (Suc pp) (Suc dp))"
  proof (cases "Suc pp = length p")
    case True
    then show ?thesis using Suc.prems hit by (subst kmp_loop.simps) (simp add: Let_def)
  next
    case False
    then have "\<not> (Suc dp < length data \<and> p ! Suc pp \<noteq> data ! Suc dp)" using no_miss Suc.prems(2) by simp
    then show ?thesis using Suc.prems hit False by (subst kmp_loop.simps) (auto simp: Let_def)
  qed
  also have "\<dots> = (if length p - pp \<le> length data - dp then Some (True, False, dp + (length p - pp), length p)
     else Some (False, True, length data, pp + (length data - dp)))"
  proof (cases "Suc pp = length p \<or> Suc dp = length data")
    case True
    then show ?thesis using Suc.prems by (auto simp: kmp_loop.simps [of p data l r True "Suc pp" "length data"])
  next
    case False
    then have "Suc pp < length p" "Suc dp < length data" using Suc.prems by auto
    with Suc.hyps(1) [OF _ next_agrees this] Suc.hyps(2) show ?thesis by auto
  qed
  finally show ?case .
qed simp

section \<open>The matcher\<close>

lemma agrees_0 [simp]: "agrees p pp [] dp"
  by (simp add: agrees_def)

text \<open>
  What the depth-first search relies on. The matcher returns; a hit is an occurrence of the
  pattern; a continuation is a part of the pattern that ends the text.
\<close>

lemma scan_block_sound:
  assumes l: "borders p l (length p)" and "p \<noteq> []" and "\<forall>i \<in> set ps. i < length data"
  shows "\<exists>f cs. scan_block p l data ps = Some (f, cs) \<and> (f \<longrightarrow> sublist p data) \<and>
    (\<forall>c \<in> set cs. c < length p \<and> ends p c data)"
  using assms(3)
proof (induction ps)
  case (Cons i ps)
  then obtain f cs where IH: "scan_block p l data ps = Some (f, cs)" "f \<longrightarrow> sublist p data"
    "\<forall>c \<in> set cs. c < length p \<and> ends p c data" by auto
  let ?r = "length data - i < length p"
  have "0 < length p" "i \<le> length data" using assms(2) Cons.prems by auto
  from kmp_loop_sound [OF l this, of "[]" ?r False]
  obtain g k d q where g: "kmp_match p data l 0 i ?r = Some (g, k, d, q)" "g \<longrightarrow> sublist p data"
    "\<not> g \<longrightarrow> q < length p \<and> (?r \<longrightarrow> ends p q data)" by (auto simp: kmp_match_def)
  show ?case
  proof (cases "data ! i = p ! 0 \<and> g")
    case True
    then show ?thesis using g by (auto simp: Let_def)
  next
    case False
    then show ?thesis using g IH by (auto simp: Let_def)
  qed
qed auto

lemma kmp_matcher_sound:
  assumes l: "borders p l (length p)" and pp: "pp < length p"
  shows "\<exists>m. kmp_matcher l data p pp = Some m \<and>
    (\<forall>t. ends p pp t \<longrightarrow> (found m \<longrightarrow> sublist p (t @ data)) \<and>
       (\<forall>c \<in> set (continuations m). c < length p \<and> ends p c (t @ data)))"
proof -
  let ?r = "length data < length p - pp"
  define sc where "sc = (if pp = 0 \<and> 1 < length data then scan_block p l data [1..<length data] else Some (False, []))"
  have "p \<noteq> []" using pp by auto
  then have "\<exists>f cs. sc = Some (f, cs) \<and> (f \<longrightarrow> sublist p data) \<and> (\<forall>c \<in> set cs. c < length p \<and> ends p c data)"
    using scan_block_sound [OF l, of "[1..<length data]" data]
    by (cases "pp = 0 \<and> 1 < length data") (auto simp: sc_def)
  then obtain f cs where sc: "sc = Some (f, cs)" "f \<longrightarrow> sublist p data"
    "\<forall>c \<in> set cs. c < length p \<and> ends p c data" by blast
  obtain g k d q where g: "kmp_match p data l pp 0 ?r = Some (g, k, d, q)"
    using kmp_loop_sound [OF l pp, of 0 data "take pp p" ?r False] pp by (auto simp: kmp_match_def ends_def)
  have gt: "(g \<longrightarrow> sublist p (t @ data)) \<and> (\<not> g \<longrightarrow> q < length p \<and> (?r \<longrightarrow> ends p q (t @ data)))"
    if "ends p pp t" for t
    using kmp_loop_sound [OF l pp, of 0 data t ?r False] that g by (auto simp: kmp_match_def)
  have sub: "sublist p data \<Longrightarrow> sublist p (t @ data)" "ends p c data \<Longrightarrow> ends p c (t @ data)" for t c
    by (auto simp: sublist_append ends_def suffix_append)
  define m where "m = (if g \<or> f then \<lparr>found = True, continuations = []\<rparr>
    else \<lparr>found = False, continuations = cs @ (if ?r \<and> k \<and> q < length p then [q] else [])\<rparr>)"
  have "kmp_matcher l data p pp = Some m"
    using g sc(1) by (simp add: kmp_matcher_def sc_def m_def)
  moreover have "(found m \<longrightarrow> sublist p (t @ data)) \<and>
      (\<forall>c \<in> set (continuations m). c < length p \<and> ends p c (t @ data))" if t: "ends p pp t" for t
    using gt [OF t] sc(2,3) sub by (auto simp: m_def)
  ultimately show ?thesis by blast
qed

text \<open>
  And it misses nothing: where the pattern agrees with the node from one of its positions on,
  the matcher hits or lists how far the pattern got.
\<close>

lemma scan_block_complete:
  assumes "scan_block p l data ps = Some (f, cs)" and "i \<in> set ps" "i < length data" "agrees p 0 data i" "p \<noteq> []"
  shows "f \<or> length data - i < length p \<and> length data - i \<in> set cs"
  using assms(1,2)
proof (induction ps arbitrary: f cs)
  case (Cons j ps)
  show ?case
  proof (cases "j = i")
    case True
    have hd: "data ! i = p ! 0" using assms(3-5) by (auto simp: agrees_def dest: spec [of _ 0])
    have "kmp_match p data l 0 i r = (if length p \<le> length data - i then Some (True, False, i + length p, length p)
        else Some (False, True, length data, length data - i))" for r
      using kmp_loop_straight [OF assms(4) _ assms(3)] assms(5) by (simp add: kmp_match_def)
    then show ?thesis using Cons.prems(1) True hd by (auto simp: Let_def split: if_splits option.splits)
  next
    case False
    then have i: "i \<in> set ps" using Cons.prems(2) by simp
    show ?thesis
    proof (cases "data ! j = p ! 0")
      case False
      then show ?thesis using Cons.IH [OF _ i] Cons.prems(1) by simp
    next
      case True
      then obtain g k d q where g: "kmp_match p data l 0 j (length data - j < length p) = Some (g, k, d, q)"
        using Cons.prems(1) by (auto simp: Let_def bind_eq_Some_conv)
      show ?thesis
      proof (cases g)
        case False
        then obtain cs' where "scan_block p l data ps = Some (f, cs')" "set cs' \<subseteq> set cs"
          using Cons.prems(1) True g by (auto simp: Let_def)
        then show ?thesis using Cons.IH [OF _ i] by blast
      qed (use Cons.prems(1) True g in \<open>auto simp: Let_def\<close>)
    qed
  qed
qed simp

lemma kmp_matcher_complete:
  assumes m: "kmp_matcher l data p pp = Some m" and pp: "pp < length p"
    and i: "i < length data" "agrees p pp data i" "i = 0 \<or> pp = 0"
  shows "found m \<or> length data - i < length p - pp \<and> pp + (length data - i) \<in> set (continuations m)"
proof (cases "i = 0")
  case True
  have "kmp_match p data l pp 0 r = (if length p - pp \<le> length data then Some (True, False, length p - pp, length p)
      else Some (False, True, length data, pp + length data))" for r
    using kmp_loop_straight [of p pp data 0] i pp True by (simp add: kmp_match_def)
  then show ?thesis using m True pp
    by (auto simp: kmp_matcher_def split: if_splits option.splits)
next
  case False
  then have pp0: "pp = 0" and "i \<in> set [1..<length data]" "p \<noteq> []" using i pp by auto
  then have "1 < length data" using i by auto
  obtain g k d q where g: "kmp_match p data l pp 0 (length data < length p - pp) = Some (g, k, d, q)"
    using m by (auto simp: kmp_matcher_def Let_def bind_eq_Some_conv)
  show ?thesis
  proof (cases g)
    case True
    then show ?thesis using m g by (auto simp: kmp_matcher_def)
  next
    case False
    then obtain f cs where f: "scan_block p l data [1..<length data] = Some (f, cs)"
      "if f then found m else set cs \<subseteq> set (continuations m)"
      using m g pp0 \<open>1 < length data\<close> by (auto simp: kmp_matcher_def)
    then show ?thesis
      using scan_block_complete [OF f(1) \<open>i \<in> _\<close> i(1) _ \<open>p \<noteq> []\<close>] i(2) pp0 by (auto split: if_splits)
  qed
qed

end
