(* ===== verification/Radix_Dfs.thy ===== *)
theory Radix_Dfs
  imports Radix_Search Kmp
begin

text \<open>
  The substring search of the trie against a recursive account of it. \<open>hit_at mt pat t pp q u\<close>: going
  down from \<open>t\<close> with the pattern matched up to \<open>pp\<close>, the matcher reports a match at the node \<open>u\<close>,
  reached over the prefixes \<open>q\<close>. The search walks this relation depth first, stops at the first
  hit and collects the records below it.
\<close>

section \<open>Hits\<close>

inductive hit_at :: "'a matcher \<Rightarrow> 'a list \<Rightarrow> 'a rt \<Rightarrow> nat \<Rightarrow> 'a list \<Rightarrow> 'a rt \<Rightarrow> bool" for mt pat where
  here: "found (mt (rp t) pat pp) \<Longrightarrow> hit_at mt pat t pp [] t"
| below: "\<not> found (mt (rp t) pat pp) \<Longrightarrow> c \<in> set (continuations (mt (rp t) pat pp)) \<Longrightarrow> 0 < c \<Longrightarrow>
    c < length pat \<Longrightarrow> u \<in> set (rts t) \<Longrightarrow> rp u \<noteq> [] \<Longrightarrow> hd (rp u) = pat ! c \<Longrightarrow>
    hit_at mt pat u c q w \<Longrightarrow> hit_at mt pat t pp (rp t @ q) w"

definition hits :: "'a matcher \<Rightarrow> 'a list \<Rightarrow> 'a rt \<Rightarrow> nat \<Rightarrow> bool" where
  "hits mt pat t pp = (\<exists>q u. hit_at mt pat t pp q u)"

lemma hits_here: "found (mt (rp t) pat pp) \<Longrightarrow> hits mt pat t pp"
  unfolding hits_def by (blast intro: hit_at.here)

fun subtrees :: "'a rt \<Rightarrow> 'a rt list" where
  "subtrees (RT i p r ts) = RT i p r ts # concat (map subtrees ts)"

lemma subtrees_self: "t \<in> set (subtrees t)"
  by (cases t) simp

lemma subtrees_ids: "set (ids t) = rid ` set (subtrees t)"
  by (induction t rule: subtrees.induct) auto

lemma subtrees_rep: "rep E s t \<Longrightarrow> u \<in> set (subtrees t) \<Longrightarrow> rep E s u"
  by (induction t rule: subtrees.induct) (auto simp: rep.simps)

lemma subtrees_wf: "wf_rt t \<Longrightarrow> u \<in> set (subtrees t) \<Longrightarrow> wf_rt u"
  by (induction t rule: subtrees.induct) (auto simp: wf_rt.simps)

lemma subtrees_has: "u \<in> set (subtrees t) \<Longrightarrow> \<exists>q. \<forall>k v. has u k v \<longrightarrow> has t (q @ k) v"
proof (induction t rule: subtrees.induct)
  case (1 i p r ts)
  show ?case
  proof (cases "u = RT i p r ts")
    case True
    then show ?thesis by (auto intro: exI [of _ "[]"])
  next
    case False
    then obtain t where t: "t \<in> set ts" "u \<in> set (subtrees t)" using 1(2) by auto
    from 1(1) [OF this] obtain q where "\<forall>k v. has u k v \<longrightarrow> has t (q @ k) v" by blast
    with t(1) show ?thesis by (intro exI [of _ "p @ q"]) (auto simp: has.simps)
  qed
qed

lemma hit_at_has: "hit_at mt pat t pp q u \<Longrightarrow> has u k v \<Longrightarrow> has t (q @ k) v"
proof (induction rule: hit_at.induct)
  case (below t pp c u q w)
  then show ?case by (cases t) (auto simp: has.simps)
qed simp

lemma hit_at_subtree: "hit_at mt pat t pp q u \<Longrightarrow> u \<in> set (subtrees t)"
proof (induction rule: hit_at.induct)
  case (below t pp c u q w)
  then show ?case by (cases t) auto
qed (rule subtrees_self)

section \<open>What the search asks of its matcher\<close>

locale text_matcher =
  fixes mt :: "'a matcher" and pat :: "'a list"
  assumes hit_sound: "\<And>pp t data. pp < length pat \<Longrightarrow> ends pat pp t \<Longrightarrow> found (mt data pat pp) \<Longrightarrow> sublist pat (t @ data)"
    and continuation_sound: "\<And>pp t data c. pp < length pat \<Longrightarrow> ends pat pp t \<Longrightarrow>
      c \<in> set (continuations (mt data pat pp)) \<Longrightarrow> c < length pat \<and> ends pat c (t @ data)"
    and complete: "\<And>pp data i. pp < length pat \<Longrightarrow> i < length data \<Longrightarrow> agrees pat pp data i \<Longrightarrow> i = 0 \<or> pp = 0 \<Longrightarrow>
      found (mt data pat pp) \<or>
      length data - i < length pat - pp \<and> pp + (length data - i) \<in> set (continuations (mt data pat pp))"
begin

lemma hit_at_sublist:
  "hit_at mt pat t pp q u \<Longrightarrow> pp < length pat \<Longrightarrow> ends pat pp x \<Longrightarrow> sublist pat (x @ q @ rp u)"
proof (induction arbitrary: x rule: hit_at.induct)
  case (here t pp)
  then show ?case using hit_sound by simp
next
  case (below t pp c u q w)
  have "ends pat c (x @ rp t)" using continuation_sound [OF below.prems below.hyps(2)] by simp
  from below.IH [OF below.hyps(4) this] show ?case by simp
qed

lemma hits_descend:
  assumes wf: "wf_rt t" and has: "has t (rp t @ k) v" and k: "k \<noteq> []" "prefix (drop c pat) k" "0 < c" "c < length pat"
    and c: "c \<in> set (continuations (mt (rp t) pat pp))"
    and IH: "\<And>u. u \<in> set (rts t) \<Longrightarrow> has u k v \<Longrightarrow> hits mt pat u c"
  shows "hits mt pat t pp"
proof (cases "found (mt (rp t) pat pp)")
  case True
  then show ?thesis by (rule hits_here)
next
  case False
  obtain u where u: "u \<in> set (rts t)" "has u k v" using has k(1) by (cases t) (auto simp: has.simps)
  have "rp u \<noteq> []" using wf u(1) by (cases t) (auto simp: wf_rt.simps)
  moreover from this have "hd (rp u) = pat ! c"
    using has_hd [OF u(2)] k by (auto simp: prefix_def hd_drop_conv_nth)
  ultimately show ?thesis
    using IH [OF u] hit_at.below [of mt t pat pp c u] False c k(3,4) u(1) by (auto simp: hits_def)
qed

lemma agrees_prefix:
  assumes "prefix (drop pp pat) (drop i (data @ k))" "i \<le> length data"
  shows "agrees pat pp data i"
    and "length data - i < length pat - pp \<Longrightarrow> prefix (drop (pp + (length data - i)) pat) k"
proof -
  obtain z where z: "drop i (data @ k) = drop pp pat @ z" using assms(1) by (auto simp: prefix_def)
  show "agrees pat pp data i"
    unfolding agrees_def
  proof (intro allI impI)
    fix j assume j: "i + j < length data" "pp + j < length pat"
    have "data ! (i + j) = drop i (data @ k) ! j" using j(1) assms(2) by (simp add: nth_append less_diff_conv add.commute)
    also have "\<dots> = pat ! (pp + j)" unfolding z using j(2) by (simp add: nth_append less_diff_conv add.commute)
    finally show "data ! (i + j) = pat ! (pp + j)" .
  qed
  assume lt: "length data - i < length pat - pp"
  have "drop (length data - i) (drop i (data @ k)) = k" using assms(2) by simp
  then have "k = drop (length data - i) (drop pp pat @ z)" unfolding z by simp
  then show "prefix (drop (pp + (length data - i)) pat) k" using lt by (simp add: add.commute)
qed

lemma hits_continue:
  assumes "wf_rt t" "has t k v" "rp t \<noteq> []" "pp < length pat" "prefix (drop pp pat) k"
  shows "hits mt pat t pp"
  using assms
proof (induction t arbitrary: pp k rule: ids.induct)
  case (1 i p r ts)
  obtain l where k: "k = p @ l" using has_prefix [OF 1(3)] by auto
  have pre: "prefix (drop pp pat) (drop 0 (p @ l))" using 1(6) k by simp
  note ag = agrees_prefix [OF pre]
  have "0 < length p" using 1(4) by simp
  from complete [OF 1(5) this ag(1)] consider "found (mt p pat pp)" |
    "length p < length pat - pp" "pp + length p \<in> set (continuations (mt p pat pp))" by auto
  then show ?case
  proof cases
    case 1
    then show ?thesis using hits_here [of mt "RT i p r ts" pat pp] by simp
  next
    case 2
    have lt: "pp + length p < length pat" using 2(1) by simp
    have pl: "prefix (drop (pp + length p) pat) l" using ag(2) 2(1) by simp
    moreover from this lt have "l \<noteq> []" by auto
    moreover have "has (RT i p r ts) (rp (RT i p r ts) @ l) v" using 1(3) k by simp
    moreover have "hits mt pat u (pp + length p)" if "u \<in> set (rts (RT i p r ts))" "has u l v" for u
    proof (rule 1(1))
      show "wf_rt u" "rp u \<noteq> []" using 1(2) that(1) by (auto simp: wf_rt.simps)
    qed (use that pl lt in auto)
    ultimately show ?thesis
      using hits_descend [OF 1(2), of l v "pp + length p" pp] lt 2(2) 1(4) by simp
  qed
qed

text \<open>A key that contains the pattern has a node whose prefix holds its start, and a hit there.\<close>

lemma hits_somewhere:
  assumes "wf_rt t" "has t (a @ pat @ b) v" "pat \<noteq> []"
  shows "\<exists>u \<in> set (subtrees t). hits mt pat u 0 \<and> hd pat \<in> set (rp u)"
  using assms(1,2)
proof (induction t arbitrary: a rule: ids.induct)
  case (1 i p r ts)
  obtain l where k: "a @ pat @ b = p @ l" using has_prefix [OF 1(3)] by auto
  show ?case
  proof (cases "length a < length p")
    case True
    then have pre: "prefix (drop 0 pat) (drop (length a) (p @ l))" by (simp flip: k)
    note ag = agrees_prefix [OF pre less_imp_le [OF True]]
    have "p ! length a = hd pat"
      using True arg_cong [OF k, of "\<lambda>x. x ! length a"] assms(3) by (simp add: nth_append hd_conv_nth)
    then have hd: "hd pat \<in> set p" using nth_mem [OF True] by simp
    have pos: "0 < length pat" using assms(3) by simp
    from complete [OF pos True ag(1)] consider "found (mt p pat 0)" |
      "length p - length a < length pat" "length p - length a \<in> set (continuations (mt p pat 0))" by auto
    then have "hits mt pat (RT i p r ts) 0"
    proof cases
      case 1
      then show ?thesis using hits_here [of mt "RT i p r ts" pat 0] by simp
    next
      case 2
      let ?c = "length p - length a"
      have pl: "prefix (drop ?c pat) l" using ag(2) 2(1) by simp
      moreover from this 2(1) have "l \<noteq> []" by auto
      moreover have "has (RT i p r ts) (rp (RT i p r ts) @ l) v" using 1(3) k by simp
      moreover have "hits mt pat u ?c" if "u \<in> set (rts (RT i p r ts))" "has u l v" for u
        by (rule hits_continue [OF _ that(2) _ 2(1) pl]) (use 1(2) that(1) in \<open>auto simp: wf_rt.simps\<close>)
      ultimately show ?thesis
        using hits_descend [OF 1(2), of l v ?c 0] True 2 by simp
    qed
    with hd show ?thesis by auto
  next
    case False
    then obtain a' where a: "a = p @ a'" using k by (metis append_eq_append_conv_if append_take_drop_id not_less)
    then have "has (RT i p r ts) (p @ a' @ pat @ b) v" using 1(3) by simp
    then obtain u where u: "u \<in> set ts" "has u (a' @ pat @ b) v" using assms(3) by (auto simp: has.simps)
    then have "wf_rt u" using 1(2) by (simp add: wf_rt.simps)
    from 1(1) [OF u(1) this u(2)] u(1) show ?thesis by auto
  qed
qed

end

section \<open>The moves of a frame\<close>

text \<open>The children a frame still has to visit, with the position each is entered at.\<close>

fun moves :: "'a list \<Rightarrow> 'a rt list \<Rightarrow> nat list \<Rightarrow> nat \<Rightarrow> (nat \<times> 'a rt) list" where
  "moves pat ts [] ci = []"
| "moves pat ts (c # cs) ci =
     (if c = 0 \<or> c \<ge> length pat then []
      else map (Pair c) (filter (\<lambda>u. rp u \<noteq> [] \<and> hd (rp u) = pat ! c) (drop ci ts))) @ moves pat ts cs 0"

lemma set_moves:
  "set (moves pat ts cs 0) =
     {(c, u). c \<in> set cs \<and> 0 < c \<and> c < length pat \<and> u \<in> set ts \<and> rp u \<noteq> [] \<and> hd (rp u) = pat ! c}"
  by (induction cs) auto

lemma hits_moves:
  "hits mt pat t pp \<longleftrightarrow> found (mt (rp t) pat pp) \<or>
     (\<exists>(c, u) \<in> set (moves pat (rts t) (continuations (mt (rp t) pat pp)) 0). hits mt pat u c)"
proof
  assume "hits mt pat t pp"
  then obtain q u where "hit_at mt pat t pp q u" by (auto simp: hits_def)
  then show "found (mt (rp t) pat pp) \<or>
     (\<exists>(c, u) \<in> set (moves pat (rts t) (continuations (mt (rp t) pat pp)) 0). hits mt pat u c)"
    by cases (auto simp: set_moves hits_def)
next
  assume "found (mt (rp t) pat pp) \<or>
     (\<exists>(c, u) \<in> set (moves pat (rts t) (continuations (mt (rp t) pat pp)) 0). hits mt pat u c)"
  then show "hits mt pat t pp"
  proof (cases "found (mt (rp t) pat pp)")
    case True
    then show ?thesis by (rule hits_here)
  next
    case False
    assume "found (mt (rp t) pat pp) \<or>
      (\<exists>(c, u) \<in> set (moves pat (rts t) (continuations (mt (rp t) pat pp)) 0). hits mt pat u c)"
    with False obtain c u q w where "c \<in> set (continuations (mt (rp t) pat pp))" "0 < c" "c < length pat"
      "u \<in> set (rts t)" "rp u \<noteq> []" "hd (rp u) = pat ! c" "hit_at mt pat u c q w"
      by (auto simp: set_moves hits_def)
    from hit_at.below [of mt t pat pp, OF False this] show ?thesis by (auto simp: hits_def)
  qed
qed

text \<open>One run of the loop leads to another state, whatever fuel is left.\<close>

definition leads ::
    "'a element \<Rightarrow> 'a radix \<Rightarrow> mem \<Rightarrow> 'a matcher \<Rightarrow> 'a list \<Rightarrow> dfs_state \<Rightarrow> nat list \<Rightarrow> dfs_state option \<Rightarrow> nat list \<Rightarrow> bool" where
  "leads E R s mt pat st rs st' rs' =
     (\<exists>n. \<forall>fuel. dfs_loop (n + fuel) E R s mt pat [] (Some st) rs = dfs_loop fuel E R s mt pat [] st' rs')"

lemma leads_refl: "leads E R s mt pat st rs (Some st) rs"
  unfolding leads_def by (rule exI [of _ 0]) simp

lemma leads_trans:
  assumes "leads E R s mt pat st rs (Some st1) rs1" and "leads E R s mt pat st1 rs1 st2 rs2"
  shows "leads E R s mt pat st rs st2 rs2"
proof -
  obtain n where n: "\<And>fuel. dfs_loop (n + fuel) E R s mt pat [] (Some st) rs = dfs_loop fuel E R s mt pat [] (Some st1) rs1"
    using assms(1) by (auto simp: leads_def)
  obtain m where m: "\<And>fuel. dfs_loop (m + fuel) E R s mt pat [] (Some st1) rs1 = dfs_loop fuel E R s mt pat [] st2 rs2"
    using assms(2) by (auto simp: leads_def)
  show ?thesis unfolding leads_def
    by (rule exI [of _ "n + m"]) (simp add: add.assoc n m)
qed

lemma leads_step: "dfs_step E R s mt pat st rs = Inr (st', rs') \<Longrightarrow> leads E R s mt pat st rs st' rs'"
  unfolding leads_def by (rule exI [of _ 1]) simp

lemma leads_pop:
  assumes "search_step E R s mt pat (f # st) = search_step E R s mt pat st"
  shows "leads E R s mt pat (Search (f # st)) rs (Some (Search st)) rs"
proof -
  have "dfs_loop fuel E R s mt pat [] (Some (Search (f # st))) rs = dfs_loop fuel E R s mt pat [] (Some (Search st)) rs" for fuel
    using assms by (cases fuel) auto
  then show ?thesis unfolding leads_def by (intro exI [of _ 0]) simp
qed

context element_codec
begin

lemma child_scan_moves:
  assumes "\<forall>t \<in> set us. rep E s t" and "\<not> bloom_search R" and "rest \<noteq> []"
    and P: "P = (\<lambda>u. rp u \<noteq> [] \<and> hd (rp u) = hd rest)"
  shows "filter P us = [] \<Longrightarrow> child_scan E R s rest (map rid us) ci = Inr None"
    and "filter P us = u # ms \<Longrightarrow>
      \<exists>k. child_scan E R s rest (map rid us) ci = Inr (Some (rid u, ci + k)) \<and> filter P (drop k us) = ms"
proof -
  show "child_scan E R s rest (map rid us) ci = Inr None" if "filter P us = []"
    using assms(1) that unfolding P by (induction us arbitrary: ci) (auto simp: read_rep split: if_splits)
  show "\<exists>k. child_scan E R s rest (map rid us) ci = Inr (Some (rid u, ci + k)) \<and> filter P (drop k us) = ms"
    if "filter P us = u # ms"
    using assms(1) that
  proof (induction us arbitrary: ci)
    case (Cons w us)
    have w: "read_node E s (rid w) = Inr (rp w, rr w)" using Cons.prems(1) read_rep by simp
    show ?case
    proof (cases "P w")
      case True
      then have "w = u" "filter P us = ms" using Cons.prems(2) by simp_all
      moreover have "child_scan E R s rest (map rid (w # us)) ci = Inr (Some (rid w, ci + 1))"
        using True w assms(2) by (auto simp: P pruned_def)
      ultimately show ?thesis by (intro exI [of _ 1]) (simp del: child_scan.simps list.map)
    next
      case False
      then have step: "child_scan E R s rest (map rid (w # us)) ci = child_scan E R s rest (map rid us) (ci + 1)"
        using w by (auto simp: P)
      from Cons.IH [of "ci + 1"] Cons.prems False obtain k where
        "child_scan E R s rest (map rid us) (ci + 1) = Inr (Some (rid u, ci + 1 + k))" "filter P (drop k us) = ms" by auto
      then show ?thesis by (intro exI [of _ "Suc k"]) (simp only: step, simp)
    qed
  qed simp
qed

lemma cont_scan_moves:
  assumes reps: "\<forall>t \<in> set ts. rep E s t" and bloom: "\<not> bloom_search R"
  shows "moves pat ts cs ci = [] \<Longrightarrow> cont_scan E R s pat (map rid ts) cs co ci = Inr None"
    and "moves pat ts cs ci = (c, u) # ms \<Longrightarrow>
      \<exists>k ci'. cont_scan E R s pat (map rid ts) cs co ci = Inr (Some (co + k, ci', rid u, c)) \<and>
        moves pat ts (drop k cs) ci' = ms"
proof -
  have scan: "child_scan E R s (drop d pat) (drop i (map rid ts)) i =
      child_scan E R s (drop d pat) (map rid (drop i ts)) i" for d i
    by (simp add: drop_map)
  have sub: "\<forall>t \<in> set (drop i ts). rep E s t" for i using reps by (meson in_set_dropD)
  have hd: "d < length pat \<Longrightarrow> hd (drop d pat) = pat ! d \<and> drop d pat \<noteq> []" for d by (simp add: hd_drop_conv_nth)
  show "cont_scan E R s pat (map rid ts) cs co ci = Inr None" if "moves pat ts cs ci = []"
    using that
  proof (induction cs arbitrary: co ci)
    case (Cons d cs)
    show ?case
    proof (cases "d = 0 \<or> d \<ge> length pat")
      case False
      then have "child_scan E R s (drop d pat) (map rid (drop ci ts)) ci = Inr None"
        using Cons.prems child_scan_moves(1) [OF sub bloom, of "drop d pat" _ ci ci] hd [of d] by (simp add: filter_empty_conv)
      then show ?thesis using Cons False by (simp add: scan)
    qed (use Cons in auto)
  qed simp
  show "\<exists>k ci'. cont_scan E R s pat (map rid ts) cs co ci = Inr (Some (co + k, ci', rid u, c)) \<and>
        moves pat ts (drop k cs) ci' = ms" if "moves pat ts cs ci = (c, u) # ms"
    using that
  proof (induction cs arbitrary: co ci)
    case (Cons d cs)
    have skip: "\<exists>k ci'. cont_scan E R s pat (map rid ts) cs (co + 1) 0 = Inr (Some (co + k, ci', rid u, c)) \<and>
        moves pat ts (drop k (d # cs)) ci' = ms" if rest: "moves pat ts cs 0 = (c, u) # ms"
    proof -
      from Cons.IH [OF rest, of "co + 1"] obtain k ci' where
        "cont_scan E R s pat (map rid ts) cs (co + 1) 0 = Inr (Some (co + 1 + k, ci', rid u, c))"
        "moves pat ts (drop k cs) ci' = ms" by blast
      then show ?thesis by (intro exI [of _ "Suc k"] exI [of _ ci']) simp
    qed
    show ?case
    proof (cases "d = 0 \<or> d \<ge> length pat")
      case True
      then show ?thesis using skip Cons.prems by auto
    next
      case False
      define P where "P = (\<lambda>u :: 'a rt. rp u \<noteq> [] \<and> hd (rp u) = hd (drop d pat))"
      have mv: "moves pat ts (d # cs) i = map (Pair d) (filter P (drop i ts)) @ moves pat ts cs 0" for i
        using False hd [of d] by (auto simp: P_def)
      note ch = child_scan_moves [OF sub bloom _ P_def]
      have ne: "drop d pat \<noteq> []" using False by simp
      show ?thesis
      proof (cases "filter P (drop ci ts)")
        case Nil
        then show ?thesis using ch(1) [OF ne Nil, of ci] skip Cons.prems False by (auto simp: mv scan simp del: moves.simps)
      next
        case (Cons w ws)
        then have w: "w = u" "d = c" "ms = map (Pair d) ws @ moves pat ts cs 0"
          using \<open>moves pat ts (d # cs) ci = (c, u) # ms\<close> by (auto simp: mv simp del: moves.simps)
        from ch(2) [OF ne Cons, of ci] obtain k where
          k: "child_scan E R s (drop d pat) (map rid (drop ci ts)) ci = Inr (Some (rid w, ci + k))"
            "filter P (drop k (drop ci ts)) = ws" by blast
        have "cont_scan E R s pat (map rid ts) (d # cs) co ci = Inr (Some (co + 0, ci + k, rid u, c))"
          using k(1) w False by (simp add: scan)
        moreover have "moves pat ts (drop 0 (d # cs)) (ci + k) = ms"
          using k(2) w mv [of "ci + k"] by (simp add: add.commute del: moves.simps)
        ultimately show ?thesis by blast
      qed
    qed
  qed simp
qed

text \<open>From a frame, the search reaches the collection of a hit or leaves the frame behind.\<close>

definition explored :: "'a radix \<Rightarrow> mem \<Rightarrow> 'a matcher \<Rightarrow> 'a list \<Rightarrow> 'a rt \<Rightarrow> nat \<Rightarrow> dfs_frame \<Rightarrow> dfs_frame list \<Rightarrow> (nat \<times> 'a rt) list \<Rightarrow> bool" where
  "explored R s mt pat t pp f st ms =
     (if \<exists>(c, u) \<in> set ms. hits mt pat u c
      then \<exists>c u q w. (c, u) \<in> set ms \<and> hit_at mt pat u c q w \<and>
        (\<forall>rs. leads E R s mt pat (Search (f # st)) rs (Some (Collect (rid w) [(rid w, 0)])) rs)
      else \<forall>rs. leads E R s mt pat (Search (f # st)) rs (Some (Search st)) rs)"

abbreviation enter :: "'a rt \<Rightarrow> nat \<Rightarrow> dfs_frame" where
  "enter t pp \<equiv> \<lparr>fr_node = rid t, pattern_pos = pp, cont_idx = 0, child_idx = 0\<rparr>"

definition visited :: "'a radix \<Rightarrow> mem \<Rightarrow> 'a matcher \<Rightarrow> 'a list \<Rightarrow> 'a rt \<Rightarrow> nat \<Rightarrow> dfs_frame list \<Rightarrow> bool" where
  "visited R s mt pat t pp st =
     (if hits mt pat t pp
      then \<exists>q w. hit_at mt pat t pp q w \<and>
        (\<forall>rs. leads E R s mt pat (Search (enter t pp # st)) rs (Some (Collect (rid w) [(rid w, 0)])) rs)
      else \<forall>rs. leads E R s mt pat (Search (enter t pp # st)) rs (Some (Search st)) rs)"

lemma explore_frame:
  assumes rep: "rep E s t" and bloom: "\<not> bloom_search R" and miss: "\<not> found (mt (rp t) pat pp)"
    and IH: "\<And>u c st. u \<in> set (rts t) \<Longrightarrow> visited R s mt pat u c st"
    and f: "fr_node f = rid t" "pattern_pos f = pp"
      "moves pat (rts t) (drop (cont_idx f) (continuations (mt (rp t) pat pp))) (child_idx f) = ms"
    and sub: "\<forall>(c, u) \<in> set ms. u \<in> set (rts t)"
  shows "explored R s mt pat t pp f st ms"
  using f sub
proof (induction ms arbitrary: f)
  case Nil
  let ?cs = "continuations (mt (rp t) pat pp)"
  have kids: "mem_get_children (rid t) s = map rid (rts t)" "\<forall>u \<in> set (rts t). rep E s u"
    using rep by (cases t; simp add: rep.simps mem_kids_def)+
  have "search_step E R s mt pat (f # st) = search_step E R s mt pat st"
    using Nil.prems(1,2) read_rep [OF rep] miss kids(1)
      cont_scan_moves(1) [OF kids(2) bloom Nil.prems(3), of "cont_idx f"] by (simp add: Let_def)
  then show ?case using leads_pop by (auto simp: explored_def)
next
  case (Cons m ms)
  obtain c u where m: "m = (c, u)" by (cases m)
  let ?cs = "continuations (mt (rp t) pat pp)"
  have kids: "mem_get_children (rid t) s = map rid (rts t)" "\<forall>u \<in> set (rts t). rep E s u"
    using rep by (cases t; simp add: rep.simps mem_kids_def)+
  from cont_scan_moves(2) [OF kids(2) bloom Cons.prems(3) [unfolded m], of "cont_idx f"] obtain k ci where
    scan: "cont_scan E R s pat (map rid (rts t)) (drop (cont_idx f) ?cs) (cont_idx f) (child_idx f) =
        Inr (Some (cont_idx f + k, ci, rid u, c))"
      "moves pat (rts t) (drop k (drop (cont_idx f) ?cs)) ci = ms" by blast
  define g where "g = f\<lparr>cont_idx := cont_idx f + k, child_idx := ci\<rparr>"
  have down: "leads E R s mt pat (Search (f # st)) rs (Some (Search (enter u c # g # st))) rs" for rs
    by (rule leads_step) (use Cons.prems(1,2) read_rep [OF rep] miss kids(1) scan(1) in \<open>simp add: Let_def g_def\<close>)
  have u: "u \<in> set (rts t)" using Cons.prems(4) m by simp
  have rest: "explored R s mt pat t pp g st ms"
    by (rule Cons.IH) (use Cons.prems scan(2) in \<open>auto simp: g_def add.commute\<close>)
  note vis = IH [OF u, of c "g # st"]
  show ?case
  proof (cases "hits mt pat u c")
    case True
    then obtain q w where w: "hit_at mt pat u c q w"
      "\<And>rs. leads E R s mt pat (Search (enter u c # g # st)) rs (Some (Collect (rid w) [(rid w, 0)])) rs"
      using vis unfolding visited_def by (simp only: if_True) blast
    have "leads E R s mt pat (Search (f # st)) rs (Some (Collect (rid w) [(rid w, 0)])) rs" for rs
      by (rule leads_trans [OF down w(2)])
    moreover have "(c, u) \<in> set (m # ms)" "\<exists>(c, u) \<in> set (m # ms). hits mt pat u c" using True m by auto
    ultimately show ?thesis unfolding explored_def using w(1) by (simp only: if_True) blast
  next
    case False
    then have back_up: "leads E R s mt pat (Search (enter u c # g # st)) rs (Some (Search (g # st))) rs" for rs
      using vis unfolding visited_def by (simp only: if_False)
    have up: "leads E R s mt pat (Search (f # st)) rs (Some (Search (g # st))) rs" for rs
      by (rule leads_trans [OF down back_up])
    show ?thesis
    proof (cases "\<exists>(c, u) \<in> set ms. hits mt pat u c")
      case True
      then obtain c' u' q w where w: "(c', u') \<in> set ms" "hit_at mt pat u' c' q w"
        "\<And>rs. leads E R s mt pat (Search (g # st)) rs (Some (Collect (rid w) [(rid w, 0)])) rs"
        using rest unfolding explored_def by (simp only: if_True) blast
      have "leads E R s mt pat (Search (f # st)) rs (Some (Collect (rid w) [(rid w, 0)])) rs" for rs
        by (rule leads_trans [OF up w(3)])
      moreover have "(c', u') \<in> set (m # ms)" "\<exists>(c, u) \<in> set (m # ms). hits mt pat u c" using True w(1) by auto
      ultimately show ?thesis unfolding explored_def using w(2) by (simp only: if_True) blast
    next
      case none: False
      then have down': "leads E R s mt pat (Search (g # st)) rs (Some (Search st)) rs" for rs
        using rest unfolding explored_def by (simp only: if_False)
      have "leads E R s mt pat (Search (f # st)) rs (Some (Search st)) rs" for rs
        by (rule leads_trans [OF up down'])
      moreover have "\<not> (\<exists>(c, u) \<in> set (m # ms). hits mt pat u c)" using none False m by auto
      ultimately show ?thesis unfolding explored_def by (simp only: if_False) blast
    qed
  qed
qed

lemma visit_tree:
  assumes "rep E s t" and bloom: "\<not> bloom_search R"
  shows "visited R s mt pat t pp st"
  using assms(1)
proof (induction t arbitrary: pp st rule: ids.induct)
  case (1 i p r ts pp st)
  let ?t = "RT i p r ts" and ?res = "mt p pat pp"
  show ?case
  proof (cases "found ?res")
    case True
    have "leads E R s mt pat (Search (enter ?t pp # st)) rs (Some (Collect (rid ?t) [(rid ?t, 0)])) rs" for rs
      by (rule leads_step) (use True read_rep [OF 1(2)] in \<open>simp add: Let_def\<close>)
    moreover have "hit_at mt pat ?t pp [] ?t" by (rule hit_at.here) (use True in simp)
    moreover have "hits mt pat ?t pp" using True hits_here [of mt ?t pat pp] by simp
    ultimately show ?thesis unfolding visited_def by (simp only: if_True) blast
  next
    case False
    let ?ms = "moves pat ts (continuations ?res) 0"
    have IH: "visited R s mt pat u c st'" if "u \<in> set (rts ?t)" for u c st'
      using 1(1) [of u] 1(2) that by (simp add: rep.simps)
    have "explored R s mt pat ?t pp (enter ?t pp) st ?ms"
      by (rule explore_frame [OF 1(2) bloom _ IH]) (use False in \<open>auto simp: set_moves\<close>)
    moreover have "hits mt pat ?t pp \<longleftrightarrow> (\<exists>(c, u) \<in> set ?ms. hits mt pat u c)"
      using hits_moves [of mt pat ?t pp] False by simp
    moreover have "hit_at mt pat ?t pp (p @ q) w" if "(c, u) \<in> set ?ms" "hit_at mt pat u c q w" for c u q w
      using hit_at.below [of mt ?t pat pp c u q w] that False by (auto simp: set_moves)
    ultimately show ?thesis unfolding explored_def visited_def by (auto split: if_splits) blast
  qed
qed

section \<open>Collecting\<close>

definition records_below :: "'a rt \<Rightarrow> nat set" where
  "records_below t = {v. \<exists>k. has t k v}"

lemma records_below_RT:
  "records_below (RT i p r ts) = (if r = EMPTY then {} else {r}) \<union> (\<Union>t \<in> set ts. records_below t)"
  by (auto simp: records_below_def has.simps)

lemma records_below_unfold:
  "(if rr t = EMPTY then {} else {rr t}) \<union> (\<Union>u \<in> set (rts t). records_below u) = records_below t"
  by (cases t) (simp add: records_below_RT)

lemma collect_tree:
  assumes "rep E s t" "ci \<le> length (rts t)"
  shows "\<exists>cs. set cs = (if rr t = EMPTY then {} else {rr t}) \<union> (\<Union>u \<in> set (drop ci (rts t)). records_below u) \<and>
    (\<forall>rs. leads E R s mt pat (Collect root ((rid t, ci) # st)) rs (Some (Collect root st)) (rs @ cs))"
  using assms
proof (induction t arbitrary: ci st rule: ids.induct)
  case (1 i p r ts ci st)
  have node: "mem_get_node i s = Inr (from_vec E p, r)" and kids: "mem_get_children i s = map rid ts"
    and reps: "\<And>u. u \<in> set ts \<Longrightarrow> rep E s u"
    using 1(2) by (auto simp: rep.simps mem_kids_def mem_node_def mem_get_node_def split: if_splits)
  define own where "own = (if r = EMPTY then [] else [r])"
  show ?case
    using 1(3)
  proof (induction "length ts - ci" arbitrary: ci)
    case 0
    then have "leads E R s mt pat (Collect root ((i, ci) # st)) rs (Some (Collect root st)) (rs @ own)" for rs
      by (intro leads_step) (simp add: node kids own_def)
    then show ?case using 0 by (intro exI [of _ own]) (auto simp: own_def)
  next
    case (Suc n)
    then have ci: "ci < length ts" by simp
    let ?u = "ts ! ci"
    have step: "leads E R s mt pat (Collect root ((i, ci) # st)) rs
        (Some (Collect root ((rid ?u, 0) # (i, Suc ci) # st))) (rs @ own)" for rs
      by (rule leads_step) (use ci in \<open>simp add: node kids own_def\<close>)
    from 1(1) [OF nth_mem [OF ci] reps [OF nth_mem [OF ci]], of 0 "(i, Suc ci) # st"] obtain cs1 where
      cs1: "set cs1 = records_below ?u" "\<And>rs. leads E R s mt pat (Collect root ((rid ?u, 0) # (i, Suc ci) # st)) rs
        (Some (Collect root ((i, Suc ci) # st))) (rs @ cs1)"
      unfolding drop_0 records_below_unfold by blast
    have "n = length ts - Suc ci" "Suc ci \<le> length (rts (RT i p r ts))" using Suc.hyps(2) ci by auto
    from Suc.hyps(1) [OF this] obtain cs2 where
      cs2: "set cs2 = (if r = EMPTY then {} else {r}) \<union> (\<Union>u \<in> set (drop (Suc ci) ts). records_below u)"
        "\<And>rs. leads E R s mt pat (Collect root ((i, Suc ci) # st)) rs (Some (Collect root st)) (rs @ cs2)"
      unfolding rt.sel by blast
    have "leads E R s mt pat (Collect root ((i, ci) # st)) rs (Some (Collect root st)) (rs @ own @ cs1 @ cs2)" for rs
      using leads_trans [OF leads_trans [OF step cs1(2)] cs2(2)] by simp
    moreover have "drop ci ts = ?u # drop (Suc ci) ts" using ci by (rule Cons_nth_drop_Suc [symmetric])
    ultimately show ?case using cs1(1) cs2(1)
      by (intro exI [of _ "own @ cs1 @ cs2"]) (auto simp: own_def)
  qed
qed

text \<open>
  The search from a node of the trie: with enough fuel it returns the records below a hit, or
  none if there is no hit.
\<close>

lemma search_dfs_tree:
  assumes rep: "rep E s t" and bloom: "\<not> bloom_search R" and pat: "pat \<noteq> []"
  shows "\<exists>N rs. (\<forall>fuel \<ge> N. search_dfs fuel E R (rid t) pat mt None [] s = Some (Inr (rs, None))) \<and>
    (if hits mt pat t 0 then \<exists>q w. hit_at mt pat t 0 q w \<and> set rs = records_below w else rs = [])"
proof -
  let ?st = "Search [enter t 0]"
  have "rid t \<noteq> EMPTY" using rep rep_ids rid_in_ids by blast
  then have start: "search_dfs fuel E R (rid t) pat mt None [] s = dfs_loop fuel E R s mt pat [] (Some ?st) []" for fuel
    using pat by (simp add: search_dfs_def)
  have ends: "\<exists>N. \<forall>fuel \<ge> N. search_dfs fuel E R (rid t) pat mt None [] s = Some (Inr (rs, None))"
    if leads: "leads E R s mt pat ?st [] None rs" for rs
  proof -
    from leads obtain n where "\<And>fuel. dfs_loop (n + fuel) E R s mt pat [] (Some ?st) [] = Some (Inr (rs, None))"
      by (auto simp: leads_def)
    then have "dfs_loop fuel E R s mt pat [] (Some ?st) [] = Some (Inr (rs, None))" if "n \<le> fuel" for fuel
      using that by (metis le_iff_add)
    then show ?thesis unfolding start by blast
  qed
  note vis = visit_tree [OF rep bloom, of mt pat 0 "[]"]
  show ?thesis
  proof (cases "hits mt pat t 0")
    case True
    then obtain q w where w: "hit_at mt pat t 0 q w"
      "leads E R s mt pat ?st [] (Some (Collect (rid w) [(rid w, 0)])) []"
      using vis by (auto simp: visited_def)
    have "rep E s w" using subtrees_rep [OF rep hit_at_subtree [OF w(1)]] .
    from collect_tree [OF this, of 0 R mt pat "rid w" "[]"] obtain cs where
      cs: "set cs = records_below w" "leads E R s mt pat (Collect (rid w) [(rid w, 0)]) [] (Some (Collect (rid w) [])) ([] @ cs)"
      unfolding drop_0 records_below_unfold by blast
    have "leads E R s mt pat (Collect (rid w) []) cs None cs" by (rule leads_step) simp
    then have "leads E R s mt pat ?st [] None cs"
      using leads_trans [OF leads_trans [OF w(2) cs(2)]] by simp
    from ends [OF this] w(1) cs(1) True show ?thesis by auto
  next
    case False
    then have "leads E R s mt pat ?st [] (Some (Search [])) []" using vis by (auto simp: visited_def)
    moreover have "leads E R s mt pat (Search []) [] None []" by (rule leads_step) simp
    ultimately have "leads E R s mt pat ?st [] None []" by (rule leads_trans)
    from ends [OF this] False show ?thesis by auto
  qed
qed

end

section \<open>Knuth-Morris-Pratt keeps the contract\<close>

definition kmp :: "'a list \<Rightarrow> 'a matcher" where
  "kmp pat = (\<lambda>data p pp. the (kmp_matcher (the (lps pat)) data p pp))"

interpretation kmp: text_matcher "kmp pat" pat for pat
proof
  fix pp i :: nat and t data :: "'a list" and c
  assume pp: "pp < length pat"
  then have "pat \<noteq> []" by auto
  then obtain l where l: "lps pat = Some l" "borders pat l (length pat)" by (rule lps_correct)
  obtain m where m: "kmp_matcher l data pat pp = Some m" and sound: "\<And>t. ends pat pp t \<Longrightarrow>
      (found m \<longrightarrow> sublist pat (t @ data)) \<and> (\<forall>c \<in> set (continuations m). c < length pat \<and> ends pat c (t @ data))"
    using kmp_matcher_sound [OF l(2) pp, of data] by blast
  then have eq: "kmp pat data pat pp = m" by (simp add: kmp_def l(1))
  show "sublist pat (t @ data)" if "ends pat pp t" "found (kmp pat data pat pp)"
    using sound that eq by simp
  show "c < length pat \<and> ends pat c (t @ data)" if "ends pat pp t" "c \<in> set (continuations (kmp pat data pat pp))"
    using sound that eq by simp
  show "found (kmp pat data pat pp) \<or>
      length data - i < length pat - pp \<and> pp + (length data - i) \<in> set (continuations (kmp pat data pat pp))"
    if "i < length data" "agrees pat pp data i" "i = 0 \<or> pp = 0"
    using kmp_matcher_complete [OF m pp that] eq by simp
qed

end
