(* ===== verification/Search.thy ===== *)
theory Search
  imports Radix_Dfs
begin

text \<open>
  The substring index of \<open>crates/opsense-mlib/src/search.rs\<close>: chains of elements in a radix trie, with
  shortcuts from every element to the nodes whose prefixes contain it. Every operation of
  \<open>Search\<close> is modelled on the in-memory storage.

  The split callback of the trie only appends to a buffer; \<open>split_call\<close> computes the arguments the
  insertion calls it with (\<open>insert_loop_split_call\<close> shows that it does). A hash set of nodes is
  visited in the order \<open>iter\<close> gives, an argument of the search.
\<close>

section \<open>State\<close>

datatype search_error = Search_NotFound | Duplicated | Search_Storage radix_error | Search_Panic

definition search_error_of :: "radix_error \<Rightarrow> search_error" where
  "search_error_of e =
     (case e of NotFound \<Rightarrow> Search_NotFound | Panic \<Rightarrow> Search_Panic | e \<Rightarrow> Search_Storage e)"

record 'a search =
  trie :: "'a radix"
  store :: mem
  pending_split_elems :: "(nat \<times> bytes) list"

definition search_new :: "'a element \<Rightarrow> nat \<Rightarrow> mem \<Rightarrow> 'a search" where
  "search_new E n s =
     \<lparr>trie = with_split (\<lambda>_ _ _ _. Inr ()) (with_node_access (\<lambda>e _. Inr (to_usize E e)) (radix_new n)),
      store = s, pending_split_elems = []\<rparr>"

definition in_memory :: "'a element \<Rightarrow> nat \<Rightarrow> 'a search" where
  "in_memory E n = search_new E n mem_new"

definition search_clear :: "'a search \<Rightarrow> 'a search" where
  "search_clear S =
     S\<lparr>store := fold (\<lambda>si. mem_set_root si EMPTY) [0..<sharding (trie S)]
        (mem_clear_chains (mem_clear_node_meta (mem_clear_edges (mem_clear_shortcuts (store S)))))\<rparr>"

section \<open>Insertion\<close>

text \<open>Parent, leg, old prefix and breakpoint of the split that an insertion performs, if any.\<close>

function split_call :: "'a element \<Rightarrow> mem \<Rightarrow> 'a list \<Rightarrow> nat \<Rightarrow> nat \<Rightarrow> (nat \<times> nat \<times> 'a list \<times> nat) option" where
  "split_call E s key tail i =
     (if i = EMPTY then None
      else case read_node E s i of
        Inl e \<Rightarrow> None
      | Inr (p, r) \<Rightarrow>
          let common = common_len p (drop tail key) in
          if common < length p then
            Some (i, (if drop (tail + common) key = [] then next_id s else next_id s + 1), p, common)
          else
            let tail' = tail + common in
            if tail' = length key then None
            else case find_child E s (key ! tail') (mem_get_children i s) of
                Inr (Some c) \<Rightarrow> split_call E s key tail' c
              | _ \<Rightarrow> None)"
  by pat_completeness auto
termination
proof (relation "measure (\<lambda>(E, s, key, tail, i). descent E s i (length key - tail))", goal_cases)
  case (2 E s key tail i x p r common tail' y c)
  then have "descent E s c (length (drop tail key) - common_len p (drop tail key))
      < descent E s i (length (drop tail key))"
    by (intro descent_child) auto
  with 2 show ?case by auto
qed auto

declare split_call.simps [simp del]

definition split_elems :: "'a element \<Rightarrow> 'a radix \<Rightarrow> 'a list \<Rightarrow> nat \<Rightarrow> bytes option list \<Rightarrow> mem \<Rightarrow> (nat \<times> bytes) list" where
  "split_elems E R key index metas s =
     (if index = EMPTY \<or> key = [] then []
      else case (if length metas = length key then fire_nodes E R (zip key metas) s else (Inr (), s)) of
          (Inl e, s) \<Rightarrow> []
        | (Inr _, s) \<Rightarrow>
            (case split_call E s key 0 (mem_get_root (shard_of E (hd key) (sharding R)) s) of
               None \<Rightarrow> []
             | Some (_, leg_id, old_prefix, breakpoint) \<Rightarrow>
                 map (\<lambda>e. (leg_id, el_encode E e)) (drop breakpoint old_prefix)))"

text \<open>An element as a word of the chain stream: its bytes in front, zeros behind.\<close>

definition chain_word :: "bytes \<Rightarrow> u64 option" where
  "chain_word bs =
     (if length bs \<le> 8 then Some (of_nat (nat_of_le (rev (bs @ replicate (8 - length bs) 0)))) else None)"

fun chain_words :: "bytes list \<Rightarrow> u64 list option" where
  "chain_words [] = Some []"
| "chain_words (b # bs) =
     (case chain_word b of None \<Rightarrow> None | Some w \<Rightarrow> map_option (Cons w) (chain_words bs))"

fun flush_pending :: "'a element \<Rightarrow> nat \<Rightarrow> (nat \<times> bytes) list \<Rightarrow> mem \<Rightarrow> mem option" where
  "flush_pending E n [] s = Some s"
| "flush_pending E n ((leg_id, bs) # ps) s =
     (case el_decode E bs of
        None \<Rightarrow> None
      | Some e \<Rightarrow> flush_pending E n ps (mem_add_shortcut_node (shard_of E e n) bs leg_id s))"

definition update_shortcuts :: "'a element \<Rightarrow> nat \<Rightarrow> 'a list \<Rightarrow> nat \<Rightarrow> nat \<Rightarrow> mem \<Rightarrow> mem" where
  "update_shortcuts E n key breakpoint node_id s =
     fold (\<lambda>e. mem_add_shortcut_node (shard_of E e n) (el_encode E e) node_id) (drop breakpoint key) s"

definition insert_chain ::
    "'a element \<Rightarrow> nat \<Rightarrow> 'a list \<Rightarrow> bytes option list \<Rightarrow> 'a search \<Rightarrow> (search_error + unit) \<times> 'a search" where
  "insert_chain E index key metas S =
     (if key = [] then (Inl Search_NotFound, S)
      else
        let pending = pending_split_elems S @ split_elems E (trie S) key index metas (store S);
            n = sharding (trie S)
        in case radix_insert E (trie S) key index metas (store S) of
             (Inl e, s) \<Rightarrow> (Inl (search_error_of e), S\<lparr>store := s, pending_split_elems := pending\<rparr>)
           | (Inr (node_id, tail), s) \<Rightarrow>
               if node_id = EMPTY then (Inl Duplicated, S\<lparr>store := s, pending_split_elems := []\<rparr>)
               else
                 let S' = S\<lparr>store := s, pending_split_elems := []\<rparr>
                 in case flush_pending E n pending s of
                      None \<Rightarrow> (Inl Search_Panic, S')
                    | Some s \<Rightarrow>
                        let s = mem_set_key_len index (length key) s
                        in case chain_words (map (el_encode E) key) of
                             None \<Rightarrow> (Inl Search_Panic, S'\<lparr>store := s\<rparr>)
                           | Some chain \<Rightarrow>
                               (Inr (), S'\<lparr>store := update_shortcuts E n key tail node_id (mem_set_chain index chain s)\<rparr>))"

section \<open>Search\<close>

text \<open>The records of one candidate that were not seen before, up to the limit.\<close>

fun add_records :: "nat option \<Rightarrow> nat list \<Rightarrow> nat list \<Rightarrow> nat list" where
  "add_records limit [] acc = acc"
| "add_records limit (r # rs) acc =
     (if r \<in> set acc then add_records limit rs acc
      else if (case limit of Some l \<Rightarrow> length (acc @ [r]) \<ge> l | None \<Rightarrow> False) then acc @ [r]
      else add_records limit rs (acc @ [r]))"

fun candidate_loop ::
    "nat \<Rightarrow> 'a element \<Rightarrow> 'a search \<Rightarrow> 'a list \<Rightarrow> 'a matcher \<Rightarrow> nat option \<Rightarrow> nat option \<Rightarrow> nat list \<Rightarrow> nat list
     \<Rightarrow> (search_error + nat list) option" where
  "candidate_loop fuel E S pattern mt offset limit [] acc = Some (Inr acc)"
| "candidate_loop fuel E S pattern mt offset limit (c # cs) acc =
     (if (case offset of Some o' \<Rightarrow> c < o' | None \<Rightarrow> False)
      then candidate_loop fuel E S pattern mt offset limit cs acc
      else if (case limit of Some l \<Rightarrow> length acc \<ge> l | None \<Rightarrow> False) then Some (Inr acc)
      else case search_dfs fuel E (trie S) c pattern mt None [] (store S) of
          None \<Rightarrow> None
        | Some (Inl e) \<Rightarrow> Some (Inl (search_error_of e))
        | Some (Inr (rs, _)) \<Rightarrow> candidate_loop fuel E S pattern mt offset limit cs (add_records limit rs acc))"

fun resolve_records ::
    "mem \<Rightarrow> nat option \<Rightarrow> nat option \<Rightarrow> nat list \<Rightarrow> (nat \<times> bytes option) list \<Rightarrow> (nat \<times> bytes option) list" where
  "resolve_records s max_len limit [] out = out"
| "resolve_records s max_len limit (r # rs) out =
     (if r = EMPTY then resolve_records s max_len limit rs out
      else if (case max_len of
                 Some m \<Rightarrow> (case mem_get_key_len r s of Some n \<Rightarrow> n | None \<Rightarrow> 2 ^ 64 - 1) > m
               | None \<Rightarrow> False)
      then resolve_records s max_len limit rs out
      else
        let out = out @ [(r, mem_get_meta r s)]
        in if (case limit of Some l \<Rightarrow> length out \<ge> l | None \<Rightarrow> False) then out
           else resolve_records s max_len limit rs out)"

definition search_chains ::
    "nat \<Rightarrow> 'a element \<Rightarrow> (nat set \<Rightarrow> nat list) \<Rightarrow> 'a list \<Rightarrow> nat option \<Rightarrow> nat option \<Rightarrow> nat option \<Rightarrow> 'a search
     \<Rightarrow> (search_error + (nat \<times> bytes option) list) option" where
  "search_chains fuel E iter pattern depth offset limit S =
     (if pattern = [] then Some (Inl Search_NotFound)
      else
        let candidates = iter (mem_get_shortcut_nodes (shard_of E (hd pattern) (sharding (trie S)))
                           (el_encode E (hd pattern)) (store S))
        in case candidate_loop fuel E S pattern (kmp pattern) offset limit candidates [] of
             None \<Rightarrow> None
           | Some (Inl e) \<Rightarrow> Some (Inl e)
           | Some (Inr record_ids) \<Rightarrow>
               if record_ids = [] then Some (Inl Search_NotFound)
               else
                 let results = resolve_records (store S) (map_option (\<lambda>d. d + 1) depth) limit record_ids []
                 in if results = [] then Some (Inl Search_NotFound) else Some (Inr results))"

definition start_with ::
    "nat \<Rightarrow> 'a element \<Rightarrow> 'a list \<Rightarrow> 'a search \<Rightarrow> (search_error + ('a list \<times> nat) list) option" where
  "start_with fuel E pre S =
     (if pre = [] then Some (Inr [])
      else map_option (map_sum search_error_of id) (search_prefix fuel E (trie S) EMPTY pre (store S)))"

definition search_get_meta :: "nat \<Rightarrow> 'a search \<Rightarrow> bytes option" where
  "search_get_meta index S = mem_get_meta index (store S)"

definition search_register_node ::
    "'a element \<Rightarrow> 'a \<Rightarrow> bytes \<Rightarrow> 'a search \<Rightarrow> (search_error + nat) \<times> 'a search" where
  "search_register_node E e d S =
     (case register_node E (trie S) e d (store S) of
        (Inl err, s) \<Rightarrow> (Inl (search_error_of err), S\<lparr>store := s\<rparr>)
      | (Inr i, s) \<Rightarrow> (Inr i, S\<lparr>store := s\<rparr>))"

definition search_get_node_meta :: "nat \<Rightarrow> 'a search \<Rightarrow> bytes option" where
  "search_get_node_meta e S = mem_get_node_meta e (store S)"

text \<open>The chain of a record; \<open>None\<close> for a panic of the slice or of \<open>decode\<close>.\<close>

fun decode_elements :: "'a element \<Rightarrow> u64 list \<Rightarrow> 'a list option" where
  "decode_elements E [] = Some []"
| "decode_elements E (w # ws) =
     (if byte_size E \<le> 8 then
        (case el_decode E (take (byte_size E) (rev (nat_to_le 8 (unat w)))) of
           None \<Rightarrow> None
         | Some e \<Rightarrow> map_option (Cons e) (decode_elements E ws))
      else None)"

definition search_get_chain :: "'a element \<Rightarrow> nat \<Rightarrow> 'a search \<Rightarrow> 'a list option option" where
  "search_get_chain E index S =
     (case mem_get_chain index (store S) of
        None \<Rightarrow> Some None
      | Some ws \<Rightarrow> map_option Some (decode_elements E ws))"

end
