(* ===== verification/Search_Index.thy ===== *)
theory Search_Index
  imports Search
begin

text \<open>
  What an insertion does to the shortcuts of the index. Every way an insertion into the trie can
  end is one change of the store at one node; from these follows that every element of every
  node's prefix has a shortcut to the node, the invariant the substring search rests on.
\<close>

section \<open>The split callback\<close>

lemma follow_path_hooks [simp]:
  "follow_path E (R\<lparr>on_split := x\<rparr>) key s = follow_path E R key s"
  "follow_path E (R\<lparr>on_node := y\<rparr>) key s = follow_path E R key s"
  by (simp_all add: follow_path_def follow_path_default_def follow_path_with_bloom_def)

lemma finish_hooks [simp]:
  "finish E (R\<lparr>on_split := x\<rparr>) key z s = finish E R key z s"
  "finish E (R\<lparr>on_node := y\<rparr>) key z s = finish E R key z s"
  by (simp_all add: finish_def maintain_bloom_def Let_def)

lemma radix_split_callback:
  assumes "on_split R = Some cb" and "read_node E s a = Inr (p, r)"
    and "l = (if suf = [] then next_id s else next_id s + 1)"
  shows "radix_split E R a bp suf v s =
    (case cb a l p bp of Inl e \<Rightarrow> (Inl e, s\<lparr>next_id := l + 1\<rparr>)
     | Inr _ \<Rightarrow> radix_split E (R\<lparr>on_split := None\<rparr>) a bp suf v s)"
  using assms
  by (cases "suf = []") (simp_all add: radix_split_def tx_new_node_def alloc_id_def Let_def split: sum.splits)

text \<open>The callback is called with the arguments \<open>split_call\<close> computes, and only then.\<close>

lemma insert_loop_split_call:
  assumes "on_split R = Some cb"
  shows "insert_loop E R key index s tail i =
    (case split_call E s key tail i of
       None \<Rightarrow> insert_loop E (R\<lparr>on_split := None\<rparr>) key index s tail i
     | Some (a, l, p, b) \<Rightarrow>
         (case cb a l p b of
            Inl e \<Rightarrow> (Inl e, s\<lparr>next_id := l + 1\<rparr>)
          | Inr _ \<Rightarrow> insert_loop E (R\<lparr>on_split := None\<rparr>) key index s tail i))"
proof (induction E s key tail i rule: split_call.induct)
  case (1 E s key tail i)
  note L = insert_loop.simps [of E R key index s tail i] insert_loop.simps [of E "R\<lparr>on_split := None\<rparr>" key index s tail i]
    split_call.simps [of E s key tail i]
  show ?case
  proof (cases "i = EMPTY")
    case True
    then show ?thesis unfolding L by simp
  next
    case i: False
    show ?thesis
    proof (cases "read_node E s i")
      case (Inl e)
      then show ?thesis using i by (simp add: L)
    next
      case (Inr pr)
      obtain p r where pr: "pr = (p, r)" by (cases pr)
      let ?c = "common_len p (drop tail key)"
      show ?thesis
      proof (cases "?c < length p")
        case True
        then show ?thesis
          using i Inr pr radix_split_callback [OF assms, of E s i p r _ "drop (tail + ?c) key" ?c index]
          by (cases "cb i (if drop (tail + ?c) key = [] then next_id s else next_id s + 1) p ?c")
            (simp_all add: L Let_def split: prod.splits sum.splits)
      next
        case long: False
        show ?thesis
        proof (cases "tail + ?c = length key")
          case True
          then show ?thesis using i Inr pr long by (simp add: L Let_def split: sum.splits)
        next
          case False
          show ?thesis
          proof (cases "find_child E s (key ! (tail + ?c)) (mem_get_children i s)")
            case (Inr o')
            then show ?thesis
              using i \<open>read_node E s i = Inr pr\<close> pr long False 1 [OF i \<open>read_node E s i = Inr pr\<close> pr [symmetric] refl long refl False Inr]
              by (cases o') (simp_all add: L Let_def split: prod.split option.split sum.split)
          qed (use i Inr pr long False in \<open>simp add: L Let_def\<close>)
        qed
      qed
    qed
  qed
qed

lemma insert_loop_on_node: "insert_loop E (R\<lparr>on_node := x\<rparr>) key index s tail i = insert_loop E R key index s tail i"
proof (induction E R key index s tail i rule: insert_loop.induct)
  case (1 E R key index s tail i)
  have split: "radix_split E (R\<lparr>on_node := x\<rparr>) a b c v s = radix_split E R a b c v s" for a b c v s
    by (simp add: radix_split_def Let_def split: sum.split prod.split)
  show ?case
    unfolding insert_loop.simps [of E "R\<lparr>on_node := x\<rparr>" key index s tail i] insert_loop.simps [of E R key index s tail i]
    using 1 by (auto simp: split Let_def split: sum.splits prod.splits option.splits)
qed

section \<open>How an insertion ends\<close>

context element_codec
begin

definition ends_at :: "'a radix \<Rightarrow> 'a list \<Rightarrow> nat \<Rightarrow> mem \<Rightarrow> 'a rt \<Rightarrow> nat \<Rightarrow> nat \<times> nat \<Rightarrow> (nat \<times> nat \<times> 'a list \<times> nat) option \<Rightarrow> mem \<Rightarrow> bool" where
  "ends_at R key index s u at x sc s' =
     (x = (EMPTY, length key) \<and> sc = None \<and> s' = s \<or>
      x = (rid u, length key) \<and> sc = None \<and> mem_update_node (rid u) None (Some index) s = Inr s' \<or>
      x = (next_id s, at) \<and> sc = None \<and> drop at key \<noteq> [] \<and> s' = snd (radix_extend E (rid u) (drop at key) index s) \<or>
      (\<exists>c. c = common_len (rp u) (drop at key) \<and> c < length (rp u) \<and>
         x = (if drop (at + c) key = [] then rid u else next_id s, at) \<and>
         sc = Some (rid u, snd (split_ids (drop (at + c) key) (next_id s)), rp u, c) \<and>
         s' = snd (radix_split E R (rid u) c (drop (at + c) key) index s)))"

lemma insert_loop_ends:
  assumes "quiet R" and "index \<noteq> EMPTY" and "mem_inv s" and "tree_ok E s t" and "tail \<le> length key"
  shows "\<exists>u x at s'. u \<in> set (subtrees t) \<and> insert_loop E R key index s tail (rid t) = (Inr (Some x), s') \<and>
    ends_at R key index s u at x (split_call E s key tail (rid t)) s'"
  using assms(4,5)
proof (induction t arbitrary: tail rule: ids.induct)
  case (1 i p r ts)
  note ok = 1(2)
  let ?t = "RT i p r ts" and ?c = "common_len p (drop tail key)"
  have rep: "rep E s ?t" and wf: "wf_rt ?t" and i: "i \<noteq> EMPTY" using ok by (auto simp: tree_ok_def rep.simps)
  have read: "read_node E s i = Inr (p, r)" using read_rep [OF rep] by simp
  note L = insert_loop.simps [of E R key index s tail i] split_call.simps [of E s key tail i]
  have self: "?t \<in> set (subtrees ?t)" by simp
  show ?case
  proof (cases "?c < length p")
    case True
    let ?suf = "drop (tail + ?c) key"
    have "?suf = drop ?c (drop tail key)" by (simp add: add.commute)
    then obtain s' where s': "radix_split E R i ?c ?suf index s = (Inr (if ?suf = [] then i else next_id s), s')"
      using grown_split [OF assms(3) ok assms(2,1) refl True] by auto
    have loop: "insert_loop E R key index s tail i = (Inr (Some (if ?suf = [] then i else next_id s, tail)), s')"
      using True i read assms(1) s' by (simp add: L)
    have call: "split_call E s key tail i = Some (i, snd (split_ids ?suf (next_id s)), p, ?c)"
      using True i read by (simp add: L split_ids_def Let_def)
    have "ends_at R key index s ?t tail (if ?suf = [] then i else next_id s, tail) (split_call E s key tail i) s'"
      unfolding ends_at_def call using True s' by auto
    with loop self show ?thesis by (intro exI conjI) auto
  next
    case False
    then have c: "?c = length p" using common_len_full [OF False] by simp
    have len: "tail + length p \<le> length key" using common_len_le(2) [of p "drop tail key"] c 1(3) by simp
    show ?thesis
    proof (cases "tail + length p = length key")
      case True
      have call: "split_call E s key tail i = None" using i read False c True by (simp add: L)
      show ?thesis
      proof (cases "r = EMPTY")
        case r: True
        obtain s' where s': "mem_update_node i None (Some index) s = Inr s'"
          using grown_record [OF assms(3) _ assms(2)] ok unfolding r by blast
        have "insert_loop E R key index s tail i = (Inr (Some (i, length key)), s')"
          using i read c True r False assms(1) s' by (simp add: L)
        moreover have "ends_at R key index s ?t 0 (i, length key) (split_call E s key tail i) s'"
          unfolding ends_at_def call using s' by simp
        ultimately show ?thesis using self by (intro exI conjI) auto
      next
        case r: False
        have "insert_loop E R key index s tail i = (Inr (Some (EMPTY, length key)), s)"
          using i read c True r False by (simp add: L)
        moreover have "ends_at R key index s ?t 0 (EMPTY, length key) (split_call E s key tail i) s"
          unfolding ends_at_def call by simp
        ultimately show ?thesis using self by (intro exI conjI) auto
      qed
    next
      case short: False
      let ?tl = "tail + length p"
      have find: "find_child E s (key ! ?tl) (mem_get_children i s) =
          Inr (map_option rid (find (\<lambda>t. rp t \<noteq> [] \<and> hd (rp t) = key ! ?tl) ts))"
        using find_child_kids [OF rep] by simp
      show ?thesis
      proof (cases "find (\<lambda>t. rp t \<noteq> [] \<and> hd (rp t) = key ! ?tl) ts")
        case None
        have call: "split_call E s key tail i = None" using i read False c short find None by (simp add: L)
        obtain n s' where e: "radix_extend E i (drop ?tl key) index s = (n, s')" by fastforce
        have n: "n = next_id s" using e by (simp add: radix_extend_def tx_new_node_def alloc_id_def Let_def)
        have "insert_loop E R key index s tail i = (Inr (Some (n, ?tl)), s')"
          using i read c False short find None assms(1) e by (simp add: L)
        moreover have "ends_at R key index s ?t ?tl (n, ?tl) (split_call E s key tail i) s'"
          unfolding ends_at_def call using e n short len by simp
        ultimately show ?thesis using self by (intro exI conjI) auto
      next
        case (Some u)
        then have u: "u \<in> set ts" by (auto simp: find_Some_iff)
        have "insert_loop E R key index s tail i = insert_loop E R key index s ?tl (rid u)"
          "split_call E s key tail i = split_call E s key ?tl (rid u)"
          using i read c False short find Some by (simp_all add: L)
        with 1(1) [OF u tree_ok_child [OF ok u] len] u show ?thesis by (auto simp del: subtrees.simps) (auto)
      qed
    qed
  qed
qed

end

section \<open>What an insertion changes\<close>

lemma shortcuts_frame [simp]:
  "mem_shortcuts (put_node e s) = mem_shortcuts s" "mem_shortcuts (mem_set_root i j s) = mem_shortcuts s"
  by (cases e, simp add: put_node_def Let_def, simp add: mem_set_root_def)

lemma shortcuts_op [simp]: "mem_shortcuts (apply_op op s) = mem_shortcuts s"
  by (cases op) (auto simp: apply_op.simps push_child_def drop_child_def set_node_def)

lemma shortcuts_folds [simp]:
  "mem_shortcuts (fold put_node es s) = mem_shortcuts s" "mem_shortcuts (fold apply_op ops s) = mem_shortcuts s"
proof -
  show "mem_shortcuts (fold put_node es s) = mem_shortcuts s" by (induction es arbitrary: s) simp_all
  show "mem_shortcuts (fold apply_op ops s) = mem_shortcuts s" by (induction ops arbitrary: s) simp_all
qed

lemma shortcuts_commit [simp]: "mem_shortcuts (tx_commit t s) = mem_shortcuts s"
  by (simp add: tx_commit_def)

lemma shortcuts_extend [simp]: "mem_shortcuts (snd (radix_extend E i suf v s)) = mem_shortcuts s"
  by (simp add: radix_extend_def tx_new_node_def alloc_id_def Let_def)

lemma shortcuts_split [simp]: "mem_shortcuts (snd (radix_split E R a b suf v s)) = mem_shortcuts s"
  by (simp add: radix_split_def tx_new_node_def alloc_id_def Let_def split: sum.splits prod.splits)

text \<open>Every node without a record has children.\<close>

definition alive :: "mem \<Rightarrow> bool" where
  "alive s = (\<forall>j p r. 0 < j \<longrightarrow> mem_node s j = Some (p, r) \<longrightarrow> r = EMPTY \<longrightarrow> mem_kids s j \<noteq> [])"

definition dense :: "mem \<Rightarrow> bool" where
  "dense s = (\<forall>j. 0 < j \<longrightarrow> j < next_id s \<longrightarrow> mem_node s j \<noteq> None)"

lemma node_cases:
  assumes "dense s" "mem_node s' j \<noteq> None" "mem_inv s'" "0 < j"
  obtains "mem_node s j \<noteq> None" "j < next_id s" | "next_id s \<le> j" "j < next_id s'"
  using assms mem_inv_node [OF assms(3,2)] unfolding dense_def by (metis linorder_not_le)

context element_codec
begin

lemma from_vec_inj: "from_vec E p = from_vec E q \<longleftrightarrow> p = q"
  by (metis option.inject to_vec_from_vec)

text \<open>
  Where the elements of a node come from: an older prefix of the same node, the part of the
  key the node was entered with, or the prefix that was split.
\<close>

definition covers :: "mem \<Rightarrow> 'a list \<Rightarrow> nat \<times> nat \<Rightarrow> (nat \<times> nat \<times> 'a list \<times> nat) option \<Rightarrow> mem \<Rightarrow> bool" where
  "covers s key x sc s' =
     (\<forall>j q r. 0 < j \<longrightarrow> mem_node s' j = Some (from_vec E q, r) \<longrightarrow>
        (\<exists>p r'. mem_node s j = Some (from_vec E p, r') \<and> set q \<subseteq> set p) \<or>
        j = fst x \<and> set q \<subseteq> set (drop (snd x) key) \<or>
        (\<exists>a p b. sc = Some (a, j, p, b) \<and> set q \<subseteq> set (drop b p)))"

lemma extend_covers:
  assumes inv: "mem_inv s" and ok: "tree_ok E s u" and ds: "dense s" and al: "alive s"
    and index: "index \<noteq> EMPTY" and s': "s' = snd (radix_extend E (rid u) (drop at key) index s)"
  shows "alive s' \<and> covers s key (next_id s, at) None s'"
proof -
  let ?n = "next_id s"
  have rep: "rep E s u" using ok by (simp add: tree_ok_def)
  have a: "mem_node s (rid u) \<noteq> None" and less: "\<And>j. j \<in> set (ids u) \<Longrightarrow> j < ?n"
    using rep_ids [OF rep rid_in_ids] tree_ok_ids_less [OF inv rep] by auto
  have kids: "\<forall>c \<in> set (mem_kids s (rid u)). c < ?n"
    using rep less rid_in_ids by (cases u) (auto simp: rep.simps)
  note eff = extend_effect [OF inv a kids, where E = E and suf = "drop at key" and v = index, folded s']
  have inv': "mem_inv s'" by (rule eff(2))
  have nodes: "mem_node s' j = (if j = ?n then Some (from_vec E (drop at key), index) else mem_node s j)" if "mem_node s' j \<noteq> None" "0 < j" for j
    by (rule node_cases [OF ds that(1) inv' that(2)]) (use eff(3,5,7) le_antisym [of ?n j] in \<open>auto simp: less_Suc_eq_le\<close>)
  show ?thesis
  proof
    show "alive s'" unfolding alive_def
    proof (intro allI impI)
      fix j p r assume j: "mem_node s' j = Some (p, r)" "r = EMPTY" "0 < j"
      then have "j \<noteq> ?n" "mem_node s j = Some (p, r)" using nodes [of j] index by (auto split: if_splits)
      then show "mem_kids s' j \<noteq> []" using al j(2,3) eff(8) [of j] by (auto simp: alive_def)
    qed
    show "covers s key (next_id s, at) None s'"
      unfolding covers_def
    proof (intro allI impI)
      fix j q r assume j: "0 < j" "mem_node s' j = Some (from_vec E q, r)"
      with nodes [of j] show "(\<exists>p r'. mem_node s j = Some (from_vec E p, r') \<and> set q \<subseteq> set p) \<or>
        j = fst (next_id s, at) \<and> set q \<subseteq> set (drop (snd (next_id s, at)) key) \<or>
        (\<exists>a p b. None = Some (a, j, p, b) \<and> set q \<subseteq> set (drop b p))"
        by (cases "j = ?n") (auto simp: from_vec_inj, metis order_refl)
    qed
  qed
qed

lemma split_covers:
  assumes inv: "mem_inv s" and ok: "tree_ok E s u" and ds: "dense s" and al: "alive s" and quiet: "quiet R"
    and index: "index \<noteq> EMPTY" and c: "c < length (rp u)" and suf: "suf = drop (at + c) key"
    and s': "s' = snd (radix_split E R (rid u) c suf index s)"
  shows "alive s' \<and> covers s key (if suf = [] then rid u else next_id s, at)
    (Some (rid u, snd (split_ids suf (next_id s)), rp u, c)) s'"
proof -
  let ?n = "next_id s" and ?leg = "snd (split_ids suf (next_id s))"
  have rep: "rep E s u" using ok by (simp add: tree_ok_def)
  have node: "mem_node s (rid u) = Some (from_vec E (rp u), rr u)" and dist: "distinct (mem_kids s (rid u))"
    using rep ok ids_distinct_kids by (cases u; auto simp: rep.simps tree_ok_def)+
  have cb: "(case on_split R of None \<Rightarrow> Inr () | Some cb \<Rightarrow> cb (rid u) ?leg (rp u) c) = Inr ()"
    using quiet by (simp add: quiet_def)
  note eff = split_effect [OF inv node dist cb s']
  have lt: "rid u < ?n" and pos: "0 < rid u"
    using mem_inv_node [OF inv] node rep by (cases u; simp add: rep.simps EMPTY_def)+
  have leg: "?n \<le> ?leg" "suf \<noteq> [] \<Longrightarrow> ?leg = ?n + 1" "suf = [] \<Longrightarrow> ?leg = ?n" by (auto simp: split_ids_def)
  have nodes: "j = rid u \<or> j = ?leg \<or> j = ?n \<and> suf \<noteq> [] \<or> j \<noteq> rid u \<and> mem_node s j \<noteq> None" if "mem_node s' j \<noteq> None" "0 < j" for j
    by (rule node_cases [OF ds that(1) eff(2) that(2)]) (use eff(3) leg in \<open>cases "suf = []"; auto\<close>)+
  show ?thesis
  proof
    show "alive s'" unfolding alive_def
    proof (intro allI impI)
      fix j p r assume j: "mem_node s' j = Some (p, r)" "r = EMPTY" "0 < j"
      from nodes [of j] j(1,3) consider "j = rid u" | "j = ?leg" | "j = ?n" "suf \<noteq> []" | "j \<noteq> rid u" "mem_node s j \<noteq> None" by auto
      then show "mem_kids s' j \<noteq> []"
      proof cases
        case 1
        then show ?thesis using eff(6) by simp
      next
        case 2
        then have "rr u = EMPTY" using j eff(7) by simp
        then show ?thesis using 2 eff(8) al node pos by (auto simp: alive_def)
      next
        case 3
        then show ?thesis using eff(9) j index by simp
      next
        case 4
        then show ?thesis using eff(10) [OF 4] al j by (auto simp: alive_def)
      qed
    qed
    show "covers s key (if suf = [] then rid u else next_id s, at) (Some (rid u, ?leg, rp u, c)) s'"
      unfolding covers_def
    proof (intro allI impI)
      fix j q r assume j: "mem_node s' j = Some (from_vec E q, r)" "0 < j"
      from nodes [of j] j consider "j = rid u" | "j = ?leg" | "j = ?n" "suf \<noteq> []" | "j \<noteq> rid u" "mem_node s j \<noteq> None" by auto
      then show "(\<exists>p r'. mem_node s j = Some (from_vec E p, r') \<and> set q \<subseteq> set p) \<or>
        j = fst (if suf = [] then rid u else next_id s, at) \<and> set q \<subseteq> set (drop (snd (if suf = [] then rid u else next_id s, at)) key) \<or>
        (\<exists>a p b. Some (rid u, ?leg, rp u, c) = Some (a, j, p, b) \<and> set q \<subseteq> set (drop b p))"
      proof cases
        case 1
        then have "q = take c (rp u)" using j eff(5) by (simp add: from_vec_inj)
        then show ?thesis using 1 node set_take_subset by fastforce
      next
        case 2
        then have "q = drop c (rp u)" using j eff(7) by (simp add: from_vec_inj)
        then show ?thesis using 2 by simp
      next
        case 3
        then have "q = suf" using j eff(9) by (simp add: from_vec_inj)
        then show ?thesis using 3 set_drop_subset_set_drop [of at "at + c" key] by (simp add: suf)
      next
        case 4
        then show ?thesis using eff(10) [OF 4] j by (intro disjI1 exI [of _ q] exI [of _ r]) simp
      qed
    qed
  qed
qed

lemma ends_at_covers:
  assumes inv: "mem_inv s" and ok: "tree_ok E s u" and ds: "dense s" and al: "alive s" and quiet: "quiet R"
    and index: "index \<noteq> EMPTY" and e: "ends_at R key index s u at x sc s'"
  shows "alive s' \<and> covers s key x sc s' \<and> mem_shortcuts s' = mem_shortcuts s"
proof -
  have stay: "covers s key x sc s" by (auto simp: covers_def)
  from e consider "s' = s" |
    "x = (rid u, length key)" "sc = None" "mem_update_node (rid u) None (Some index) s = Inr s'" |
    "x = (next_id s, at)" "sc = None" "s' = snd (radix_extend E (rid u) (drop at key) index s)" |
    c where "c < length (rp u)" "x = (if drop (at + c) key = [] then rid u else next_id s, at)"
      "sc = Some (rid u, snd (split_ids (drop (at + c) key) (next_id s)), rp u, c)"
      "s' = snd (radix_split E R (rid u) c (drop (at + c) key) index s)"
    unfolding ends_at_def by auto
  then show ?thesis
  proof cases
    case 1
    then show ?thesis using al stay by simp
  next
    case 2
    have node: "mem_node s (rid u) = Some (from_vec E (rp u), rr u)"
      using ok by (cases u) (auto simp: tree_ok_def rep.simps)
    have lt: "rid u < length (mem_nodes s)" using node by (auto simp: mem_node_def split: if_splits)
    have op: "s' = apply_op (UpdateNode (rid u) None (Some index)) s"
      using 2(3) lt by (simp add: mem_update_node_def apply_op.simps)
    have view: "mem_node s' j = (if j = rid u then Some (from_vec E (rp u), index) else mem_node s j)"
      "mem_kids s' j = mem_kids s j" for j
      unfolding op using mem_store.node_update [OF mem_inv_ok [OF inv] node] mem_store.kids_update [OF mem_inv_ok [OF inv]]
      by simp_all
    have "covers s key x sc s'" using view node by (auto simp: covers_def from_vec_inj split: if_splits)
    moreover have "alive s'" using view al index by (auto simp: alive_def split: if_splits)
    moreover have "mem_shortcuts s' = mem_shortcuts s" unfolding op by (rule shortcuts_op)
    ultimately show ?thesis by simp
  next
    case 3
    then show ?thesis using extend_covers [OF inv ok ds al index 3(3)] by simp
  next
    case 4
    then show ?thesis using split_covers [OF inv ok ds al quiet index 4(1) refl 4(4)] by simp
  qed
qed

end

end
