(* ===== verification/Search_Insert.thy ===== *)
theory Search_Insert
  imports Search_Index
begin

text \<open>
  The invariant of the substring index, \<open>search_inv\<close>: the trie represents one tree per shard, every
  element of a node's prefix has a shortcut to the node, shortcuts lead to nodes, and the tables
  of a record describe one of its chains. Every history of \<open>insert_chain\<close> keeps it.
\<close>

section \<open>Shortcuts\<close>

lemma get_shortcut_add:
  "mem_get_shortcut_nodes a b (mem_add_shortcut_node sh bs i s) =
     mem_get_shortcut_nodes a b s \<union> (if a = sh \<and> b = bs then {i} else {})"
proof (cases "sh < length (mem_shortcuts s)")
  case True
  then show ?thesis
    by (auto simp: mem_get_shortcut_nodes_def mem_add_shortcut_node_def Let_def nth_list_update split: option.splits)
next
  case False
  then have "grow (sh + 1) Map.empty (mem_shortcuts s) =
      mem_shortcuts s @ replicate (sh + 1 - length (mem_shortcuts s)) Map.empty"
    by (simp add: grow_def)
  then show ?thesis using False
    by (auto simp: mem_get_shortcut_nodes_def mem_add_shortcut_node_def Let_def nth_list_update nth_append split: option.splits)
qed

text \<open>The nodes an element leads to.\<close>

abbreviation shortcuts :: "'a element \<Rightarrow> nat \<Rightarrow> mem \<Rightarrow> 'a \<Rightarrow> nat set" where
  "shortcuts E n s e \<equiv> mem_get_shortcut_nodes (shard_of E e n) (el_encode E e) s"

definition add_shortcuts :: "'a element \<Rightarrow> nat \<Rightarrow> nat \<Rightarrow> 'a list \<Rightarrow> mem \<Rightarrow> mem" where
  "add_shortcuts E n i es s = fold (\<lambda>e. mem_add_shortcut_node (shard_of E e n) (el_encode E e) i) es s"

lemma update_shortcuts_add: "update_shortcuts E n key b i s = add_shortcuts E n i (drop b key) s"
  by (simp add: update_shortcuts_def add_shortcuts_def)

lemma get_add_shortcuts:
  "mem_get_shortcut_nodes a b (add_shortcuts E n i es s) =
     mem_get_shortcut_nodes a b s \<union> (if \<exists>e \<in> set es. a = shard_of E e n \<and> b = el_encode E e then {i} else {})"
  by (induction es arbitrary: s) (auto simp: add_shortcuts_def get_shortcut_add)

lemma add_shortcuts_frame [simp]:
  "mem_node (add_shortcuts E n i es s) j = mem_node s j" "mem_kids (add_shortcuts E n i es s) j = mem_kids s j"
  "mem_inv (add_shortcuts E n i es s) = mem_inv s" "next_id (add_shortcuts E n i es s) = next_id s"
  "mem_roots (add_shortcuts E n i es s) = mem_roots s"
  by (induction es arbitrary: s) (simp_all add: add_shortcuts_def)

lemma add_shortcuts_frame2 [simp]:
  "mem_get_key_len r (add_shortcuts E n i es s) = mem_get_key_len r s"
  "mem_get_chain r (add_shortcuts E n i es s) = mem_get_chain r s"
  by (induction es arbitrary: s)
    (simp_all add: add_shortcuts_def mem_get_key_len_def mem_get_chain_def mem_add_shortcut_node_def Let_def)

text \<open>Stores that differ outside of nodes, children, roots and shortcuts.\<close>

definition same_trie :: "mem \<Rightarrow> mem \<Rightarrow> bool" where
  "same_trie s s' = ((\<forall>j. mem_node s' j = mem_node s j) \<and> (\<forall>j. mem_kids s' j = mem_kids s j) \<and> mem_inv s' = mem_inv s
     \<and> next_id s' = next_id s \<and> mem_roots s' = mem_roots s)"

lemma same_trie_forest: "same_trie s s' \<Longrightarrow> forest E R s' f = forest E R s f"
  unfolding forest_def same_trie_def tree_ok_def
  using rep_cong [of s' s E] get_root_cong [of s' s] by auto

lemma same_trie_full: "same_trie s s' \<Longrightarrow> full s' f = full s f"
  by (simp add: same_trie_def full_def)

lemma same_trie_alive: "same_trie s s' \<Longrightarrow> alive s' = alive s"
  by (simp add: same_trie_def alive_def)

lemma same_trie_add: "same_trie s (add_shortcuts E n i es s)"
  by (simp add: same_trie_def)

lemma same_trie_set:
  "same_trie s (s\<lparr>mem_node_meta := m\<rparr>)" "same_trie s (mem_set_key_len r n s)" "same_trie s (mem_set_chain r ws s)"
  by (simp_all add: same_trie_def mem_views mem_inv_def mem_ok_def mem_set_key_len_def mem_set_chain_def)

lemma same_trie_trans: "same_trie a b \<Longrightarrow> same_trie b c \<Longrightarrow> same_trie a c"
  by (simp add: same_trie_def)

section \<open>The invariant\<close>

text \<open>
  \<open>covered\<close>: every element of a node's prefix has a shortcut to the node. \<open>listed\<close>: shortcuts
  lead to nodes.
\<close>

definition covered :: "'a element \<Rightarrow> nat \<Rightarrow> mem \<Rightarrow> bool" where
  "covered E n s = (\<forall>j p r. 0 < j \<longrightarrow> mem_node s j = Some (from_vec E p, r) \<longrightarrow> (\<forall>e \<in> set p. j \<in> shortcuts E n s e))"

definition listed :: "mem \<Rightarrow> bool" where
  "listed s = (\<forall>a b. mem_get_shortcut_nodes a b s \<subseteq> {0<..<next_id s})"

text \<open>The same while the shortcuts of one insertion are still to be written.\<close>

definition covering :: "'a element \<Rightarrow> nat \<Rightarrow> 'a list \<Rightarrow> nat \<times> nat \<Rightarrow> (nat \<times> nat \<times> 'a list \<times> nat) option \<Rightarrow> mem \<Rightarrow> bool" where
  "covering E n key x sc s = (\<forall>j p r. 0 < j \<longrightarrow> mem_node s j = Some (from_vec E p, r) \<longrightarrow> (\<forall>e \<in> set p.
     j \<in> shortcuts E n s e \<or> j = fst x \<and> e \<in> set (drop (snd x) key) \<or>
     (\<exists>a q b. sc = Some (a, j, q, b) \<and> e \<in> set (drop b q))))"

definition new_nodes :: "mem \<Rightarrow> nat \<times> nat \<Rightarrow> (nat \<times> nat \<times> 'a list \<times> nat) option \<Rightarrow> bool" where
  "new_nodes s x sc = (fst x < next_id s \<and> (\<forall>a l p b. sc = Some (a, l, p, b) \<longrightarrow> 0 < l \<and> l < next_id s))"

lemma listed_mono: "listed s \<Longrightarrow> mem_shortcuts s' = mem_shortcuts s \<Longrightarrow> next_id s \<le> next_id s' \<Longrightarrow> listed s'"
proof -
  assume l: "listed s" and sc: "mem_shortcuts s' = mem_shortcuts s" and n: "next_id s \<le> next_id s'"
  have "mem_get_shortcut_nodes a b s' = mem_get_shortcut_nodes a b s" for a b
    using sc by (simp add: mem_get_shortcut_nodes_def)
  with l have "mem_get_shortcut_nodes a b s' \<subseteq> {0<..<next_id s}" for a b by (simp add: listed_def)
  with n show ?thesis unfolding listed_def by (meson greaterThanLessThan_iff order_less_le_trans subset_iff)
qed

lemma forest_dense: "forest E R s f \<Longrightarrow> full s f \<Longrightarrow> dense s"
proof -
  assume f: "forest E R s f" and full: "full s f"
  show "dense s"
    unfolding dense_def
  proof (intro allI impI)
    fix j assume "0 < j" "j < next_id s"
    then have "j \<in> {0<..<next_id s}" by simp
    then obtain i t where t: "f i = Some t" "j \<in> set (ids t)" using full unfolding full_def by blast
    then have "rep E s t" using f by (auto simp: forest_def tree_ok_def)
    from rep_ids [OF this t(2)] show "mem_node s j \<noteq> None" by blast
  qed
qed

lemma subtree_ok: "tree_ok E s t \<Longrightarrow> u \<in> set (subtrees t) \<Longrightarrow> tree_ok E s u"
proof (induction t rule: subtrees.induct)
  case (1 i p r ts)
  then show ?case using tree_ok_child [OF 1(2)] by auto
qed

lemma covers_covering:
  assumes "element_codec.covers E s key x sc s'" "element_codec E" "covered E n s" "mem_shortcuts s' = mem_shortcuts s"
  shows "covering E n key x sc s'"
proof -
  have sc: "mem_get_shortcut_nodes a b s' = mem_get_shortcut_nodes a b s" for a b
    using assms(4) by (simp add: mem_get_shortcut_nodes_def)
  show ?thesis
    unfolding covering_def
  proof (intro allI impI ballI)
    fix j p r e assume j: "0 < j" "mem_node s' j = Some (from_vec E p, r)" "e \<in> set p"
    from assms(1) j(1,2) consider (old) q r' where "mem_node s j = Some (from_vec E q, r')" "set p \<subseteq> set q" |
      (new) "j = fst x" "set p \<subseteq> set (drop (snd x) key)" | (leg) a q b where "sc = Some (a, j, q, b)" "set p \<subseteq> set (drop b q)"
      unfolding element_codec.covers_def [OF assms(2)] by metis
    then show "j \<in> shortcuts E n s' e \<or> j = fst x \<and> e \<in> set (drop (snd x) key) \<or>
      (\<exists>a q b. sc = Some (a, j, q, b) \<and> e \<in> set (drop b q))"
    proof cases
      case old
      then show ?thesis using assms(3) j by (auto simp: covered_def sc)
    qed (use j in auto)
  qed
qed

context element_codec
begin

lemma ends_at_new_nodes:
  assumes inv: "mem_inv s" and ok: "tree_ok E s u" and quiet: "quiet R" and e: "ends_at R key index s u at x sc s'"
  shows "new_nodes s' x sc \<and> next_id s \<le> next_id s' \<and> (fst x = EMPTY \<longrightarrow> s' = s \<and> sc = None)"
proof -
  have pos: "0 < next_id s" using inv by (simp add: mem_inv_def)
  have node: "mem_node s (rid u) = Some (from_vec E (rp u), rr u)" and ru: "rid u \<noteq> EMPTY"
    and dist: "distinct (mem_kids s (rid u))"
    using ok ids_distinct_kids by (cases u; auto simp: tree_ok_def rep.simps)+
  have lt: "rid u < next_id s" using mem_inv_node [OF inv] node by simp
  have less: "\<And>j. j \<in> set (ids u) \<Longrightarrow> j < next_id s" using ok tree_ok_ids_less [OF inv] by (auto simp: tree_ok_def)
  have kids: "\<forall>c \<in> set (mem_kids s (rid u)). c < next_id s"
    using ok less rid_in_ids by (cases u) (auto simp: rep.simps tree_ok_def)
  have a: "mem_node s (rid u) \<noteq> None" using node by simp
  show ?thesis
    using e unfolding ends_at_def
  proof (elim disjE exE conjE)
    assume "x = (rid u, length key)" "sc = None" "mem_update_node (rid u) None (Some index) s = Inr s'"
    moreover from this(3) have "next_id s' = next_id s"
      by (auto simp: mem_update_node_def set_node_def split: if_splits)
    ultimately show ?thesis using lt ru by (simp add: new_nodes_def)
  next
    assume "x = (next_id s, at)" "sc = None" "s' = snd (radix_extend E (rid u) (drop at key) index s)"
    then show ?thesis
      using pos extend_effect(3) [OF inv a kids, where E = E and suf = "drop at key" and v = index]
      by (simp add: new_nodes_def EMPTY_def)
  next
    fix c
    let ?suf = "drop (at + c) key"
    assume x: "x = (if ?suf = [] then rid u else next_id s, at)"
      and sc: "sc = Some (rid u, snd (split_ids ?suf (next_id s)), rp u, c)"
      and s': "s' = snd (radix_split E R (rid u) c ?suf index s)"
    have "next_id s' = snd (split_ids ?suf (next_id s)) + 1"
      by (rule split_effect(3) [OF inv node dist _ s']) (use quiet in \<open>simp add: quiet_def\<close>)
    then show ?thesis using x sc lt ru pos by (auto simp: new_nodes_def split_ids_def EMPTY_def)
  qed (use pos in \<open>simp add: new_nodes_def EMPTY_def\<close>)
qed

lemma root_single:
  assumes inv: "mem_inv s" and ds: "dense s" and al: "alive s" and cov: "covered E n s" and ls: "listed s" and quiet: "quiet R"
    and key: "length key = 1" and index: "index \<noteq> EMPTY"
  shows "\<exists>x s'. insert_root E R key index s = (Inr x, s') \<and> alive s' \<and> covering E n key x None s' \<and> listed s' \<and> fst x < next_id s'"
proof -
  let ?n = "next_id s"
  define s1 where "s1 = snd (mem_new_node (from_vec E key) index s)"
  define s' where "s' = mem_set_root (shard_of E (hd key) (sharding R)) ?n s1"
  note new = new_node_effect [OF inv refl s1_def]
  have inv1: "mem_inv s1" using new(2) by (simp add: unchanged_outside_def)
  have sc: "mem_get_shortcut_nodes a b s' = mem_get_shortcut_nodes a b s" for a b
    by (simp add: mem_get_shortcut_nodes_def s'_def s1_def mem_new_node_def alloc_id_def)
  have node: "mem_node s' j = (if j = ?n then Some (from_vec E key, index) else mem_node s j)"
    "j \<noteq> ?n \<Longrightarrow> mem_kids s' j = mem_kids s j" if "mem_node s' j \<noteq> None" "0 < j" for j
    using node_cases [OF ds _ inv1 that(2)] that(1) new(2-4)
    by (auto simp: s'_def unchanged_outside_def less_Suc_eq_le)
  have "insert_root E R key index s = (Inr (?n, 0), s')"
    using key quiet new(1) by (simp add: insert_root_def s1_def s'_def case_prod_beta Let_def)
  moreover have "alive s'"
    unfolding alive_def
  proof (intro allI impI)
    fix j p r assume j: "0 < j" "mem_node s' j = Some (p, r)" "r = EMPTY"
    then have "j \<noteq> ?n" using node(1) [of j] index by auto
    with j node [of j] have "mem_node s j = Some (p, r)" "mem_kids s' j = mem_kids s j" by (simp, metis option.distinct(1))
    with j al show "mem_kids s' j \<noteq> []" by (simp add: alive_def)
  qed
  moreover have "covering E n key (?n, 0) None s'"
    unfolding covering_def
  proof (intro allI impI ballI)
    fix j p r e assume j: "0 < j" "mem_node s' j = Some (from_vec E p, r)" "e \<in> set p"
    then show "j \<in> shortcuts E n s' e \<or> j = fst (?n, 0) \<and> e \<in> set (drop (snd (?n, 0)) key) \<or>
       (\<exists>a q b. None = Some (a, j, q, b) \<and> e \<in> set (drop b q))"
    proof (cases "j = ?n")
      case False
      then have "mem_node s j = Some (from_vec E p, r)" using j node(1) [of j] by simp
      then show ?thesis using cov j(1,3) by (auto simp: covered_def sc)
    qed (use j node(1) [of j] in \<open>auto simp: from_vec_inj\<close>)
  qed
  moreover have "listed s'"
    using listed_mono [OF ls, of s'] new(3) by (simp add: s'_def s1_def mem_new_node_def alloc_id_def)
  moreover have "?n < next_id s'" using new(3) by (simp add: s'_def)
  ultimately show ?thesis by auto
qed

lemma root_pair:
  assumes inv: "mem_inv s" and ds: "dense s" and al: "alive s" and cov: "covered E (sharding R) s" and ls: "listed s" and quiet: "quiet R"
    and key: "length key \<ge> 2" and index: "index \<noteq> EMPTY"
  shows "\<exists>x s'. insert_root E R key index s = (Inr x, s') \<and> alive s' \<and> covering E (sharding R) key x None s' \<and> listed s' \<and> fst x < next_id s'"
proof -
  let ?n = "next_id s" and ?si = "shard_of E (hd key) (sharding R)"
  define s1 where "s1 = snd (mem_new_node (from_vec E (take 1 key)) EMPTY s)"
  define s2 where "s2 = mem_set_root ?si ?n s1"
  define s3 where "s3 = snd (radix_extend E ?n (drop 1 key) index s2)"
  define s4 where "s4 = mem_add_shortcut_node ?si (el_encode E (hd key)) ?n s3"
  note new = new_node_effect [OF inv refl s1_def]
  have inv2: "mem_inv s2" and n2: "next_id s2 = ?n + 1" and a: "mem_node s2 ?n \<noteq> None"
    and kids: "\<forall>c \<in> set (mem_kids s2 ?n). c < next_id s2"
    using new by (auto simp: unchanged_outside_def s2_def)
  note eff = extend_effect [OF inv2 a kids, where E = E and suf = "drop 1 key" and v = index, folded s3_def, unfolded n2]
  have inv4: "mem_inv s4" and n4: "next_id s4 = ?n + 2" and pos: "0 < ?n" using eff(2,3) inv by (simp_all add: s4_def) (simp add: mem_inv_def)
  have sc: "mem_get_shortcut_nodes a b s4 = mem_get_shortcut_nodes a b s \<union> (if a = ?si \<and> b = el_encode E (hd key) then {?n} else {})" for a b
    unfolding s4_def get_shortcut_add
    by (simp add: mem_get_shortcut_nodes_def s3_def s2_def s1_def mem_new_node_def alloc_id_def)
  have old: "mem_node s4 j = mem_node s j" "mem_kids s4 j = mem_kids s j" if "mem_node s j \<noteq> None" for j
  proof -
    have j: "j < ?n" "mem_node s2 j = mem_node s j" "mem_kids s2 j = mem_kids s j"
      using that new(2) mem_inv_node [OF inv that] by (auto simp: s2_def unchanged_outside_def)
    then show "mem_node s4 j = mem_node s j" "mem_kids s4 j = mem_kids s j"
      using eff(7) [of j] eff(8) [of j] that by (simp_all add: s4_def)
  qed
  have root: "mem_node s4 ?n = Some (from_vec E (take 1 key), EMPTY)" "mem_kids s4 ?n \<noteq> []"
    using eff(7) [OF a] eff(8) [of ?n] new(4) by (simp_all add: s4_def) (simp add: s2_def)
  have leaf: "mem_node s4 (?n + 1) = Some (from_vec E (drop 1 key), index)" using eff(5) by (simp add: s4_def)
  have nodes: "mem_node s j \<noteq> None \<or> j = ?n \<or> j = ?n + 1" if "mem_node s4 j \<noteq> None" "0 < j" for j
    by (rule node_cases [OF ds that(1) inv4 that(2)]) (use n4 in auto)
  have "fst (radix_extend E ?n (drop 1 key) index s2) = ?n + 1" by (rule eff(1))
  then have "insert_root E R key index s = (Inr (?n + 1, 1), s4)"
    using key quiet new(1) by (simp add: insert_root_def case_prod_beta Let_def s4_def s3_def s2_def s1_def)
  moreover have "alive s4"
    unfolding alive_def
  proof (intro allI impI)
    fix j p r assume j: "0 < j" "mem_node s4 j = Some (p, r)" "r = EMPTY"
    with nodes [of j] consider "mem_node s j \<noteq> None" | "j = ?n" | "j = ?n + 1" by auto
    then show "mem_kids s4 j \<noteq> []"
    proof cases
      case 1
      then show ?thesis using old [OF 1] j al by (auto simp: alive_def)
    qed (use j root leaf index in auto)
  qed
  moreover have "covering E (sharding R) key (?n + 1, 1) None s4"
    unfolding covering_def
  proof (intro allI impI ballI)
    fix j p r e assume j: "0 < j" "mem_node s4 j = Some (from_vec E p, r)" "e \<in> set p"
    with nodes [of j] consider "mem_node s j \<noteq> None" | "j = ?n" | "j = ?n + 1" by auto
    then show "j \<in> shortcuts E (sharding R) s4 e \<or> j = fst (?n + 1, 1) \<and> e \<in> set (drop (snd (?n + 1, 1)) key) \<or>
       (\<exists>a q b. None = Some (a, j, q, b) \<and> e \<in> set (drop b q))"
    proof cases
      case 1
      then have "j \<in> shortcuts E (sharding R) s e" using old(1) [OF 1] j cov unfolding covered_def by metis
      then show ?thesis by (simp add: sc)
    next
      case 2
      then have "p = take 1 key" using root(1) j(2) by (simp add: from_vec_inj)
      then have "e = hd key" using j(3) key by (cases key) auto
      then show ?thesis using 2 by (simp add: sc)
    next
      case 3
      then have "p = drop 1 key" using leaf j(2) by (simp add: from_vec_inj)
      then show ?thesis using 3 j(3) by simp
    qed
  qed
  moreover have "listed s4" using ls n4 pos by (fastforce simp: listed_def sc)
  moreover have "?n + 1 < next_id s4" using n4 by simp
  ultimately show ?thesis by auto
qed

text \<open>One insertion into the trie, with the shortcuts that are still to be written.\<close>

lemma radix_insert_step:
  assumes f: "forest E R s f" "full s f" and al: "alive s" and cov: "covered E (sharding R) s" and ls: "listed s"
    and quiet: "quiet R" and key: "key \<noteq> []" and index: "index \<noteq> EMPTY"
  shows "\<exists>x s'. radix_insert E R key index [] s = (Inr x, s') \<and> alive s' \<and> listed s' \<and>
    covering E (sharding R) key x (split_call E s key 0 (mem_get_root (shard_of E (hd key) (sharding R)) s)) s' \<and>
    new_nodes s' x (split_call E s key 0 (mem_get_root (shard_of E (hd key) (sharding R)) s)) \<and>
    (fst x = EMPTY \<longrightarrow> s' = s \<and> split_call E s key 0 (mem_get_root (shard_of E (hd key) (sharding R)) s) = None)"
proof -
  let ?si = "shard_of E (hd key) (sharding R)"
  let ?sc = "split_call E s key 0 (mem_get_root ?si s)"
  have inv: "mem_inv s" and ds: "dense s" and roots: "mem_get_root ?si s = (case f ?si of None \<Rightarrow> EMPTY | Some t \<Rightarrow> rid t)"
    using f forest_dense [OF f] by (simp_all add: forest_def)
  have ins: "radix_insert E R key index [] s = (case insert_loop E R key index s 0 (mem_get_root ?si s) of
      (Inl e, s) \<Rightarrow> (Inl e, s) | (Inr (Some x), s) \<Rightarrow> (Inr x, s) | (Inr None, s) \<Rightarrow> insert_root E R key index s)"
    using key index by (simp add: radix_insert_def)
  show ?thesis
  proof (cases "f ?si")
    case None
    then have sc: "?sc = None" and ins: "radix_insert E R key index [] s = insert_root E R key index s"
      using roots ins by (simp_all add: split_call.simps insert_loop.simps)
    have "length key = 1 \<or> length key \<ge> 2" using key by (cases key) (auto simp: Suc_le_eq)
    then obtain x s' where "insert_root E R key index s = (Inr x, s')" "alive s'"
      "covering E (sharding R) key x None s'" "listed s'" "fst x < next_id s'"
      using root_single [OF inv ds al cov ls quiet _ index, of key] root_pair [OF inv ds al cov ls quiet _ index, of key] by blast
    moreover from this have "fst x \<noteq> EMPTY"
      using insert_root_single [OF f(1) quiet _ index refl None] insert_root_pair [OF f(1) quiet _ index refl None]
        \<open>length key = 1 \<or> length key \<ge> 2\<close> by fastforce
    ultimately show ?thesis unfolding sc ins by (auto simp: new_nodes_def)
  next
    case (Some t)
    then have ok: "tree_ok E s t" and root: "mem_get_root ?si s = rid t" using f roots by (auto simp: forest_def)
    obtain u x at s' where u: "u \<in> set (subtrees t)" and loop: "insert_loop E R key index s 0 (rid t) = (Inr (Some x), s')"
      and e: "ends_at R key index s u at x (split_call E s key 0 (rid t)) s'"
      using insert_loop_ends [OF quiet index inv ok, of 0 key] by auto
    have oku: "tree_ok E s u" by (rule subtree_ok [OF ok u])
    note c = ends_at_covers [OF inv oku ds al quiet index e] and n = ends_at_new_nodes [OF inv oku quiet e]
    have "covering E (sharding R) key x (split_call E s key 0 (rid t)) s'"
      by (rule covers_covering [OF _ element_codec_axioms cov]) (use c in auto)
    moreover have "listed s'" using listed_mono [OF ls] c n by blast
    ultimately show ?thesis using c n loop ins unfolding root by auto
  qed
qed

end

section \<open>The tables of the records\<close>

text \<open>An insertion into the trie does not touch what is stored by record.\<close>

definition tables :: "mem \<Rightarrow> (nat \<rightharpoonup> bytes) \<times> (nat \<rightharpoonup> nat) \<times> (nat \<rightharpoonup> bytes)" where
  "tables s = (mem_meta s, mem_key_lens s, mem_chains s)"

lemma tables_frame [simp]:
  "tables (put_node e s) = tables s" "tables (mem_set_root i j s) = tables s" "tables (s\<lparr>next_id := n\<rparr>) = tables s"
  "tables (set_node i p r s) = tables s" "tables (mem_add_shortcut_node a b c s) = tables s"
  "tables (s\<lparr>mem_node_meta := m\<rparr>) = tables s"
  by (cases e, simp add: tables_def put_node_def Let_def)
    (simp_all add: tables_def mem_set_root_def set_node_def mem_add_shortcut_node_def Let_def)

lemma tables_op [simp]: "tables (apply_op op s) = tables s"
  by (cases op) (auto simp: tables_def apply_op.simps push_child_def drop_child_def set_node_def)

lemma tables_commit [simp]: "tables (tx_commit t s) = tables s"
proof -
  have "tables (fold put_node es s) = tables s" for es s by (induction es arbitrary: s) simp_all
  moreover have "tables (fold apply_op ops s) = tables s" for ops s by (induction ops arbitrary: s) simp_all
  ultimately show ?thesis by (simp add: tx_commit_def)
qed

lemma tables_new_node [simp]: "tables (snd (mem_new_node p r s)) = tables s"
  by (simp add: mem_new_node_def alloc_id_def)

lemma tables_extend [simp]: "tables (snd (radix_extend E i suf v s)) = tables s"
  by (simp add: radix_extend_def tx_new_node_def alloc_id_def Let_def)

lemma tables_split [simp]: "tables (snd (radix_split E R a b suf v s)) = tables s"
  by (simp add: radix_split_def tx_new_node_def alloc_id_def Let_def split: sum.splits prod.splits)

lemma tables_insert_loop: "quiet R \<Longrightarrow> tables (snd (insert_loop E R key index s tail i)) = tables s"
proof (induction E R key index s tail i rule: insert_loop.induct)
  case (1 E R key index s tail i)
  note L = insert_loop.simps [of E R key index s tail i]
  show ?case
  proof (cases "i = EMPTY \<or> (\<exists>e. read_node E s i = Inl e)")
    case True
    then show ?thesis by (auto simp: L)
  next
    case False
    then obtain p r where i: "i \<noteq> EMPTY" and read: "read_node E s i = Inr (p, r)"
      by (cases "read_node E s i") auto
    let ?c = "common_len p (drop tail key)"
    obtain x s' where split: "radix_split E R i ?c (drop (tail + ?c) key) index s = (x, s')" by fastforce
    then have split': "tables s' = tables s" using tables_split [of E R i ?c _ index s] by (metis snd_conv)
    obtain y s'' where ext: "radix_extend E i (drop (tail + ?c) key) index s = (y, s'')" by fastforce
    then have ext': "tables s'' = tables s" using tables_extend [of E i _ index s] by (metis snd_conv)
    show ?thesis
    proof (cases "?c < length p")
      case True
      then show ?thesis using 1(2) i read split split' by (cases x) (simp_all add: L)
    next
      case long: False
      show ?thesis
      proof (cases "tail + ?c = length key")
        case True
        then show ?thesis using 1(2) i read long by (simp add: L mem_update_node_def Let_def)
      next
        case False
        show ?thesis
        proof (cases "find_child E s (key ! (tail + ?c)) (mem_get_children i s)")
          case (Inr o')
          then show ?thesis
            using 1(1) [OF i read refl refl long refl False Inr] 1(2) i read long False ext ext'
            by (cases o') (simp_all add: L Let_def)
        qed (use i read long False in \<open>simp add: L Let_def\<close>)
      qed
    qed
  qed
qed

lemma tables_insert:
  assumes "quiet R" "key \<noteq> []"
  shows "tables (snd (radix_insert E R key index [] s)) = tables s"
proof -
  have root: "tables (snd (insert_root E R key index s)) = tables s" for s
    using assms by (simp add: insert_root_def Let_def case_prod_beta)
  let ?i = "mem_get_root (shard_of E (hd key) (sharding R)) s"
  obtain x s' where loop: "insert_loop E R key index s 0 ?i = (x, s')" by fastforce
  then have "tables s' = tables s" using tables_insert_loop [OF assms(1), of E key index s 0 ?i] by simp
  with loop root [of s'] assms(2) show ?thesis
    by (cases x; cases "projr x") (auto simp: radix_insert_def)
qed

section \<open>Insertion of a chain\<close>

lemma fire_search:
  assumes "on_node R = Some (\<lambda>e _. Inr (to_usize E e))"
  shows "\<exists>m. fire_nodes E R ms s = (Inr (), s\<lparr>mem_node_meta := m\<rparr>)"
proof (induction ms arbitrary: s)
  case Nil
  then show ?case by (auto intro: exI [of _ "mem_node_meta s"])
next
  case (Cons em ms)
  obtain e d where em: "em = (e, d)" by (cases em)
  show ?case
  proof (cases d)
    case (Some d')
    have "\<exists>m. fire_node E R e d' s = (Inr (), s\<lparr>mem_node_meta := m\<rparr>)"
      using assms by (auto simp: fire_node_def mem_set_node_meta_def intro: exI [of _ "mem_node_meta s"])
    then obtain m where "fire_node E R e d' s = (Inr (), s\<lparr>mem_node_meta := m\<rparr>)" by blast
    with Some em Cons [of "s\<lparr>mem_node_meta := m\<rparr>"] show ?thesis by simp
  qed (use em Cons in simp)
qed

definition pending_of :: "'a element \<Rightarrow> (nat \<times> nat \<times> 'a list \<times> nat) option \<Rightarrow> (nat \<times> bytes) list" where
  "pending_of E sc = (case sc of None \<Rightarrow> [] | Some (_, l, p, b) \<Rightarrow> map (\<lambda>e. (l, el_encode E e)) (drop b p))"

lemma radix_insert_search:
  assumes "on_node R = Some (\<lambda>e _. Inr (to_usize E e))" "key \<noteq> []" "index \<noteq> EMPTY"
  shows "\<exists>m. radix_insert E R key index metas s = radix_insert E (R\<lparr>on_node := None\<rparr>) key index [] (s\<lparr>mem_node_meta := m\<rparr>)
    \<and> split_elems E R key index metas s = pending_of E (split_call E (s\<lparr>mem_node_meta := m\<rparr>) key 0
        (mem_get_root (shard_of E (hd key) (sharding R)) (s\<lparr>mem_node_meta := m\<rparr>)))"
proof -
  have "\<exists>m. (if length metas = length key then fire_nodes E R (zip key metas) s else (Inr (), s)) = (Inr (), s\<lparr>mem_node_meta := m\<rparr>)"
    using fire_search [OF assms(1), of "zip key metas" s] by (auto intro: exI [of _ "mem_node_meta s"])
  then obtain m where m: "(if length metas = length key then fire_nodes E R (zip key metas) s else (Inr (), s)) = (Inr (), s\<lparr>mem_node_meta := m\<rparr>)"
    by blast
  have root: "insert_root E (R\<lparr>on_node := None\<rparr>) key index s = insert_root E R key index s" for s
    by (simp add: insert_root_def)
  show ?thesis
    using assms m by (intro exI [of _ m]) (simp add: radix_insert_def split_elems_def pending_of_def insert_loop_on_node root
        split: option.split sum.split prod.split)
qed

lemma flush_pending_of:
  assumes "element_codec E"
  shows "flush_pending E n (pending_of E sc) s =
    Some (case sc of None \<Rightarrow> s | Some (_, l, p, b) \<Rightarrow> add_shortcuts E n l (drop b p) s)"
proof -
  have "flush_pending E n (map (\<lambda>e. (l, el_encode E e)) es) s = Some (add_shortcuts E n l es s)" for l es s
    by (induction es arbitrary: s) (simp_all add: add_shortcuts_def element_codec.decode_encode [OF assms])
  then show ?thesis by (simp add: pending_of_def add_shortcuts_def split: option.split)
qed

text \<open>The words of a chain and back.\<close>

lemma chain_word_bytes:
  assumes "length bs \<le> 8" "chain_word bs = Some w"
  shows "take (length bs) (rev (nat_to_le 8 (unat w))) = bs"
proof -
  let ?b = "bs @ replicate (8 - length bs) 0"
  have len: "length (rev ?b) = 8" using assms(1) by simp
  have "nat_of_le (rev ?b) < 256 ^ 8" using nat_of_le_less [of "rev ?b"] unfolding len .
  then have "unat w = nat_of_le (rev ?b)"
    using assms by (auto simp: chain_word_def unat_of_nat split: if_splits)
  then have "nat_to_le 8 (unat w) = rev ?b" using nat_to_le_of_le [of "rev ?b"] unfolding len by simp
  then show ?thesis by simp
qed

lemma chain_words_roundtrip:
  assumes E: "element_codec E" and "byte_size E \<le> 8"
  shows "\<exists>ws. chain_words (map (el_encode E) key) = Some ws \<and> decode_elements E ws = Some key"
proof (induction key)
  case (Cons e key)
  then obtain ws where ws: "chain_words (map (el_encode E) key) = Some ws" "decode_elements E ws = Some key" by blast
  have len: "length (el_encode E e) = byte_size E" by (rule element_codec.length_encode [OF E])
  obtain w where w: "chain_word (el_encode E e) = Some w" using len assms(2) by (simp add: chain_word_def)
  have "take (byte_size E) (rev (nat_to_le 8 (unat w))) = el_encode E e"
    using chain_word_bytes [OF _ w] len assms(2) by simp
  with ws w show ?case using assms(2) by (simp add: element_codec.decode_encode [OF E])
qed simp

section \<open>The index after an insertion\<close>

definition search_inv :: "'a element \<Rightarrow> nat \<Rightarrow> 'a search \<Rightarrow> (nat \<Rightarrow> 'a rt option) \<Rightarrow> bool" where
  "search_inv E n S f =
     (trie S = trie (in_memory E n) \<and> pending_split_elems S = [] \<and>
      forest E (trie S) (store S) f \<and> full (store S) f \<and> sharded E (trie S) f \<and> alive (store S) \<and>
      covered E (sharding (trie S)) (store S) \<and> listed (store S) \<and>
      (\<forall>k v. holds E (trie S) f k v \<longrightarrow> (\<exists>k'. holds E (trie S) f k' v \<and>
         mem_get_key_len v (store S) = Some (length k') \<and> search_get_chain E v S = Some (Some k'))))"

lemma search_trie:
  "on_node (trie (in_memory E n)) = Some (\<lambda>e _. Inr (to_usize E e))"
  "quiet ((trie (in_memory E n))\<lparr>on_node := None\<rparr>)" "\<not> bloom_search (trie (in_memory E n))"
  by (simp_all add: in_memory_def search_new_def with_split_def with_node_access_def radix_new_def quiet_def)

lemma search_inv_new: "search_inv E n (in_memory E n) (\<lambda>_. None)"
proof -
  have "store (in_memory E n) = mem_new" "pending_split_elems (in_memory E n) = []"
    by (simp_all add: in_memory_def search_new_def)
  moreover have "full mem_new (\<lambda>_. None)" "alive mem_new" "covered E m mem_new" "listed mem_new" for m
    by (auto simp: full_def alive_def covered_def listed_def mem_new_def mem_node_def mem_get_shortcut_nodes_def)
  ultimately show ?thesis by (simp add: search_inv_def forest_new sharded_def holds_def)
qed

lemma forest_hooks [simp]: "forest E (R\<lparr>on_node := x\<rparr>) s f = forest E R s f"
  by (simp add: forest_def)

lemma holds_hooks [simp]:
  "holds E (R\<lparr>on_node := x\<rparr>) f k v = holds E R f k v" "sharded E (R\<lparr>on_node := x\<rparr>) f = sharded E R f"
  by (simp_all add: holds_def sharded_def)

lemma mem_get_shortcut_tables:
  "mem_get_shortcut_nodes a b (mem_set_key_len r n s) = mem_get_shortcut_nodes a b s"
  "mem_get_shortcut_nodes a b (mem_set_chain r ws s) = mem_get_shortcut_nodes a b s"
  "mem_get_shortcut_nodes a b (s\<lparr>mem_node_meta := m\<rparr>) = mem_get_shortcut_nodes a b s"
  by (simp_all add: mem_get_shortcut_nodes_def mem_set_key_len_def mem_set_chain_def)

text \<open>The writes of an insertion after the trie has changed.\<close>

definition written :: "'a element \<Rightarrow> nat \<Rightarrow> nat \<Rightarrow> 'a list \<Rightarrow> u64 list \<Rightarrow> nat \<times> nat \<Rightarrow> (nat \<times> nat \<times> 'a list \<times> nat) option \<Rightarrow> mem \<Rightarrow> mem" where
  "written E n index key ws x sc s =
     add_shortcuts E n (fst x) (drop (snd x) key) (mem_set_chain index ws (mem_set_key_len index (length key)
       (case sc of None \<Rightarrow> s | Some (_, l, p, b) \<Rightarrow> add_shortcuts E n l (drop b p) s)))"

lemma written_trie: "same_trie s (written E n index key ws x sc s)"
  unfolding written_def
  by (intro same_trie_trans [OF _ same_trie_add] same_trie_trans [OF _ same_trie_set(3)] same_trie_trans [OF _ same_trie_set(2)])
    (auto simp: same_trie_def split: option.split)

lemma written_shortcuts:
  "mem_get_shortcut_nodes a b (written E n index key ws x sc s) = mem_get_shortcut_nodes a b s
     \<union> (if \<exists>e \<in> set (drop (snd x) key). a = shard_of E e n \<and> b = el_encode E e then {fst x} else {})
     \<union> (case sc of None \<Rightarrow> {} | Some (_, l, p, c) \<Rightarrow> if \<exists>e \<in> set (drop c p). a = shard_of E e n \<and> b = el_encode E e then {l} else {})"
  by (auto simp: written_def get_add_shortcuts mem_get_shortcut_tables split: option.split)

lemma written_covered:
  assumes "covering E n key x sc s"
  shows "covered E n (written E n index key ws x sc s)"
  unfolding covered_def
proof (intro allI impI ballI)
  fix j p r e assume j: "0 < j" "mem_node (written E n index key ws x sc s) j = Some (from_vec E p, r)" "e \<in> set p"
  then have "mem_node s j = Some (from_vec E p, r)" using written_trie [of s E n index key ws x sc] by (simp add: same_trie_def)
  with assms j consider "j \<in> shortcuts E n s e" | "j = fst x" "e \<in> set (drop (snd x) key)" |
    a q b where "sc = Some (a, j, q, b)" "e \<in> set (drop b q)" unfolding covering_def by metis
  then show "j \<in> shortcuts E n (written E n index key ws x sc s) e"
    unfolding written_shortcuts by cases auto
qed

lemma written_listed:
  assumes "listed s" "new_nodes s x sc" "fst x \<noteq> EMPTY"
  shows "listed (written E n index key ws x sc s)"
  using assms written_trie [of s E n index key ws x sc]
  by (fastforce simp: listed_def written_shortcuts new_nodes_def same_trie_def EMPTY_def split: option.splits if_splits)

lemma record_tables:
  "mem_get_key_len v (mem_set_chain r ws s) = mem_get_key_len v s"
  "mem_get_key_len v (mem_set_key_len r n s) = (if v = r then Some n else mem_get_key_len v s)"
  "mem_get_chain v (mem_set_key_len r n s) = mem_get_chain v s"
  by (simp_all add: mem_get_key_len_def mem_set_key_len_def mem_set_chain_def mem_get_chain_def)

lemma written_tables:
  "mem_get_key_len v (written E n index key ws x sc s) = (if v = index then Some (length key) else mem_get_key_len v s)"
  "mem_get_chain v (written E n index key ws x sc s) = (if v = index then Some ws else mem_get_chain v s)"
  by (simp_all add: written_def get_set_chain record_tables split: option.split)

lemma insert_chain_refused:
  "key = [] \<Longrightarrow> insert_chain E index key metas S = (Inl Search_NotFound, S)"
  "key \<noteq> [] \<Longrightarrow> index = EMPTY \<Longrightarrow> pending_split_elems S = [] \<Longrightarrow>
     insert_chain E index key metas S = (Inl (Search_Storage InvalidIndex), S)"
  by (simp_all add: insert_chain_def radix_insert_def split_elems_def search_error_of_def Let_def)

text \<open>An insertion as one step on the trie and the writes that follow.\<close>

lemma insert_chain_step:
  assumes E: "element_codec E" "byte_size E \<le> 8" and inv: "search_inv E n S f" and key: "key \<noteq> []" and index: "index \<noteq> EMPTY"
  shows "\<exists>m x s' sc ws. radix_insert E ((trie S)\<lparr>on_node := None\<rparr>) key index [] (store S\<lparr>mem_node_meta := m\<rparr>) = (Inr x, s') \<and>
    alive s' \<and> listed s' \<and> covering E (sharding (trie S)) key x sc s' \<and> new_nodes s' x sc \<and>
    decode_elements E ws = Some key \<and>
    insert_chain E index key metas S =
      (if fst x = EMPTY then (Inl Duplicated, S\<lparr>store := store S\<lparr>mem_node_meta := m\<rparr>\<rparr>)
       else (Inr (), S\<lparr>store := written E (sharding (trie S)) index key ws x sc s'\<rparr>))"
proof -
  let ?R = "trie S" and ?s = "store S" and ?N = "sharding (trie S)"
  have R: "on_node ?R = Some (\<lambda>e _. Inr (to_usize E e))" "quiet (?R\<lparr>on_node := None\<rparr>)" and pend: "pending_split_elems S = []"
    using inv search_trie [of E n] by (auto simp: search_inv_def)
  obtain m where ins: "radix_insert E ?R key index metas ?s = radix_insert E (?R\<lparr>on_node := None\<rparr>) key index [] (?s\<lparr>mem_node_meta := m\<rparr>)"
    and split: "split_elems E ?R key index metas ?s = pending_of E (split_call E (?s\<lparr>mem_node_meta := m\<rparr>) key 0
        (mem_get_root (shard_of E (hd key) ?N) (?s\<lparr>mem_node_meta := m\<rparr>)))"
    using radix_insert_search [OF R(1) key index] by blast
  let ?s1 = "?s\<lparr>mem_node_meta := m\<rparr>"
  let ?sc = "split_call E ?s1 key 0 (mem_get_root (shard_of E (hd key) ?N) ?s1)"
  note same = same_trie_set(1) [of ?s m]
  have pre: "forest E (?R\<lparr>on_node := None\<rparr>) ?s1 f" "full ?s1 f" "alive ?s1" "covered E (sharding (?R\<lparr>on_node := None\<rparr>)) ?s1" "listed ?s1"
    using inv same_trie_forest [OF same, of E ?R f] same_trie_full [OF same, of f] same_trie_alive [OF same]
    by (auto simp: search_inv_def covered_def listed_def mem_get_shortcut_tables mem_views)
  obtain x s' where x: "radix_insert E (?R\<lparr>on_node := None\<rparr>) key index [] ?s1 = (Inr x, s')" "alive s'" "listed s'"
      "covering E ?N key x ?sc s'" "new_nodes s' x ?sc" "fst x = EMPTY \<longrightarrow> s' = ?s1 \<and> ?sc = None"
    using element_codec.radix_insert_step [OF E(1) pre R(2) key index] by auto
  obtain ws where ws: "chain_words (map (el_encode E) key) = Some ws" "decode_elements E ws = Some key"
    using chain_words_roundtrip [OF E] by blast
  have "insert_chain E index key metas S =
      (if fst x = EMPTY then (Inl Duplicated, S\<lparr>store := ?s1\<rparr>)
       else (Inr (), S\<lparr>store := written E ?N index key ws x ?sc s'\<rparr>))"
    using key x(1,6) ins pend ws(1)
    by (cases x) (auto simp: insert_chain_def split flush_pending_of [OF E(1)] written_def update_shortcuts_add Let_def)
  with x ws(2) show ?thesis by (intro exI conjI) assumption+
qed

lemma search_get_chain_store: "search_get_chain E v (S\<lparr>store := s\<rparr>) =
  (case mem_get_chain v s of None \<Rightarrow> Some None | Some ws \<Rightarrow> map_option Some (decode_elements E ws))"
  by (simp add: search_get_chain_def)

lemma tables_eq:
  "tables s' = tables s \<Longrightarrow> mem_get_key_len v s' = mem_get_key_len v s \<and> mem_get_chain v s' = mem_get_chain v s \<and> mem_get_meta v s' = mem_get_meta v s"
  by (simp add: tables_def mem_get_key_len_def mem_get_chain_def mem_get_meta_def)

lemma insert_chain_inv:
  assumes E: "element_codec E" "byte_size E \<le> 8" and inv: "search_inv E n S f" and key: "key \<noteq> []" and index: "index \<noteq> EMPTY"
  shows "\<exists>r S' f'. insert_chain E index key metas S = (r, S') \<and> search_inv E n S' f' \<and>
    r = (if \<exists>w. holds E (trie S) f key w then Inl Duplicated else Inr ()) \<and>
    (\<forall>l v. holds E (trie S) f' l v \<longleftrightarrow> holds E (trie S) f l v \<or> l = key \<and> v = index \<and> (\<forall>w. \<not> holds E (trie S) f key w))"
proof -
  let ?R = "trie S" and ?N = "sharding (trie S)"
  obtain m x s' sc ws where ins: "radix_insert E (?R\<lparr>on_node := None\<rparr>) key index [] (store S\<lparr>mem_node_meta := m\<rparr>) = (Inr x, s')"
    and s': "alive s'" "listed s'" "covering E ?N key x sc s'" "new_nodes s' x sc" and ws: "decode_elements E ws = Some key"
    and chain: "insert_chain E index key metas S =
      (if fst x = EMPTY then (Inl Duplicated, S\<lparr>store := store S\<lparr>mem_node_meta := m\<rparr>\<rparr>)
       else (Inr (), S\<lparr>store := written E ?N index key ws x sc s'\<rparr>))"
    using insert_chain_step [OF E inv key index, of metas] by blast
  let ?s1 = "store S\<lparr>mem_node_meta := m\<rparr>"
  note same = same_trie_set(1) [of "store S" m]
  have q: "quiet (?R\<lparr>on_node := None\<rparr>)" and f: "forest E (?R\<lparr>on_node := None\<rparr>) ?s1 f" "full ?s1 f" "sharded E ?R f" "alive ?s1"
    using inv search_trie(2) [of E n] same_trie_forest [OF same, of E ?R f] same_trie_full [OF same, of f] same_trie_alive [OF same]
    by (auto simp: search_inv_def)
  obtain f' where f': "forest E ?R s' f'" "full s' f'" "sharded E ?R f'" and dup: "fst x = EMPTY \<longleftrightarrow> (\<exists>w. holds E ?R f key w)"
    and dict: "\<And>l v. holds E ?R f' l v \<longleftrightarrow> holds E ?R f l v \<or> l = key \<and> v = index \<and> (\<forall>w. \<not> holds E ?R f key w)"
    using element_codec.radix_insert_forest [OF E(1) f(1) q key index, of "[]"] ins f(2,3) by auto
  show ?thesis
  proof (cases "fst x = EMPTY")
    case True
    have "search_inv E n (S\<lparr>store := ?s1\<rparr>) f"
      using inv f same by (auto simp: search_inv_def covered_def listed_def mem_get_shortcut_tables same_trie_def
          search_get_chain_def mem_get_key_len_def mem_get_chain_def)
    then show ?thesis using chain True dup by auto
  next
    case False
    let ?s2 = "written E ?N index key ws x sc s'"
    have tab: "mem_get_key_len v s' = mem_get_key_len v (store S)" "mem_get_chain v s' = mem_get_chain v (store S)" for v
      using tables_eq [of s' "store S" v] tables_insert [OF q key, of E index ?s1] ins by simp_all
    note w = written_trie [of s' E ?N index key ws x sc]
    have rec: "\<exists>k'. holds E ?R f' k' v \<and> mem_get_key_len v ?s2 = Some (length k') \<and> search_get_chain E v (S\<lparr>store := ?s2\<rparr>) = Some (Some k')"
      if "holds E ?R f' k v" for k v
    proof (cases "v = index")
      case True
      then show ?thesis
        using dict [of key index] dup False ws by (intro exI [of _ key]) (simp add: written_tables search_get_chain_store)
    next
      case ne: False
      then have "holds E ?R f k v" using that dict by simp
      then show ?thesis
        using inv ne dict by (auto simp: search_inv_def written_tables search_get_chain_store tab search_get_chain_def)
    qed
    have "search_inv E n (S\<lparr>store := ?s2\<rparr>) f'"
      unfolding search_inv_def
      using inv f' s'(1) rec written_covered [OF s'(3)] written_listed [OF s'(2,4) False]
        same_trie_forest [OF w, of E ?R f'] same_trie_full [OF w, of f'] same_trie_alive [OF w]
      by (simp add: search_inv_def)
    then show ?thesis using chain False dup dict by auto
  qed
qed

section \<open>Histories\<close>

definition insert_chains :: "'a element \<Rightarrow> (nat \<times> 'a list \<times> bytes option list) list \<Rightarrow> 'a search \<Rightarrow> 'a search" where
  "insert_chains E calls S = fold (\<lambda>(i, k, ms) S. snd (insert_chain E i k ms S)) calls S"

definition first_chain :: "(nat \<times> 'a list \<times> bytes option list) list \<Rightarrow> 'a list \<Rightarrow> nat option" where
  "first_chain calls = first_record (map (\<lambda>(i, k, ms). (k, i)) calls)"

lemma insert_chains_inv:
  assumes E: "element_codec E" "byte_size E \<le> 8"
  shows "\<exists>f. search_inv E n (insert_chains E calls (in_memory E n)) f \<and>
    (\<forall>k v. holds E (trie (in_memory E n)) f k v \<longleftrightarrow> first_chain calls k = Some v)"
proof (induction calls rule: rev_induct)
  case Nil
  have "\<not> holds E (trie (in_memory E n)) (\<lambda>_. None) k v" for k v by (simp add: holds_def)
  with search_inv_new [of E n] show ?case by (auto simp: insert_chains_def first_chain_def first_record_def)
next
  case (snoc c calls)
  obtain i k ms where c: "c = (i, k, ms)" by (cases c)
  let ?S = "insert_chains E calls (in_memory E n)"
  from snoc obtain f where inv: "search_inv E n ?S f"
    and dict: "\<And>k v. holds E (trie (in_memory E n)) f k v \<longleftrightarrow> first_chain calls k = Some v" by blast
  have step: "insert_chains E (calls @ [c]) (in_memory E n) = snd (insert_chain E i k ms ?S)"
    by (simp add: insert_chains_def c)
  have tr: "trie ?S = trie (in_memory E n)" "pending_split_elems ?S = []" using inv by (simp_all add: search_inv_def)
  have first: "first_chain (calls @ [c]) l = (if first_chain calls l = None \<and> l = k \<and> k \<noteq> [] \<and> i \<noteq> EMPTY then Some i else first_chain calls l)" for l
    by (auto simp: first_chain_def c first_record_snoc)
  show ?case
  proof (cases "k = [] \<or> i = EMPTY")
    case True
    then have "snd (insert_chain E i k ms ?S) = ?S"
      using tr(2) by (cases "k = []") (simp_all add: insert_chain_refused)
    with inv dict step True show ?thesis by (intro exI [of _ f]) (auto simp: first)
  next
    case False
    then obtain S' f' where "insert_chain E i k ms ?S = (if \<exists>w. holds E (trie ?S) f k w then Inl Duplicated else Inr (), S')"
      "search_inv E n S' f'"
      and d: "\<forall>l v. holds E (trie ?S) f' l v \<longleftrightarrow> holds E (trie ?S) f l v \<or> l = k \<and> v = i \<and> (\<forall>w. \<not> holds E (trie ?S) f k w)"
      using insert_chain_inv [OF E inv, of k i ms] by blast
    moreover have "holds E (trie (in_memory E n)) f' l v \<longleftrightarrow> first_chain (calls @ [c]) l = Some v" for l v
      using d False by (auto simp: tr dict first)
    ultimately show ?thesis using step by auto
  qed
qed

end
