(* ===== verification/Search_Correct.thy ===== *)
theory Search_Correct
  imports Search_Insert
begin

text \<open>
  What the substring search returns over an index that satisfies its invariant, and the theorems
  over histories of insertions.
\<close>

section \<open>What the search returns\<close>

definition matches :: "'a element \<Rightarrow> 'a radix \<Rightarrow> (nat \<Rightarrow> 'a rt option) \<Rightarrow> 'a list \<Rightarrow> nat \<Rightarrow> bool" where
  "matches E R f pattern r = (\<exists>k. holds E R f k r \<and> sublist pattern k)"

context element_codec
begin

lemma rep_unique: "rep E s t \<Longrightarrow> rep E s u \<Longrightarrow> rid t = rid u \<Longrightarrow> t = u"
proof (induction t arbitrary: u rule: ids.induct)
  case (1 i p r ts)
  obtain i' p' r' us where u: "u = RT i' p' r' us" by (cases u)
  have eq: "i' = i" "p' = p" "r' = r" "map rid us = map rid ts"
    using 1(2-4) by (auto simp: u rep.simps from_vec_inj)
  have "us = ts"
  proof (rule nth_equalityI)
    show "length us = length ts" using eq(4) map_eq_imp_length_eq by blast
    fix j assume j: "j < length us"
    then have "j < length ts" using \<open>length us = length ts\<close> by simp
    have "ts ! j = us ! j"
    proof (rule 1(1))
      show "ts ! j \<in> set ts" using \<open>j < length ts\<close> by simp
      show "rep E s (ts ! j)" "rep E s (us ! j)" using 1(2,3) j \<open>j < length ts\<close> by (auto simp: u rep.simps)
      show "rid (ts ! j) = rid (us ! j)" using eq(4) j \<open>j < length ts\<close> by (metis nth_map)
    qed
    then show "us ! j = ts ! j" by simp
  qed
  with eq u show ?case by simp
qed

lemma records_below_nonempty:
  assumes "rep E s t" "alive s"
  shows "records_below t \<noteq> {}"
  using assms(1)
proof (induction t rule: ids.induct)
  case (1 i p r ts)
  show ?case
  proof (cases "r = EMPTY")
    case True
    then have "mem_kids s i \<noteq> []" using 1(2) assms(2) by (auto simp: rep.simps alive_def EMPTY_def)
    then obtain t where "t \<in> set ts" using 1(2) by (cases ts) (auto simp: rep.simps)
    moreover from this have "rep E s t" using 1(2) by (simp add: rep.simps)
    ultimately have "\<exists>t \<in> set ts. records_below t \<noteq> {}" using 1(1) by blast
    then show ?thesis by (auto simp: records_below_RT)
  qed (simp add: records_below_RT)
qed

text \<open>A node of the store is the root of a subtree of one of the trees.\<close>

lemma node_subtree:
  assumes "forest E R s f" "full s f" "c \<in> {0<..<next_id s}"
  obtains i t u where "f i = Some t" "u \<in> set (subtrees t)" "rid u = c" "rep E s u"
proof -
  obtain i t where t: "f i = Some t" "c \<in> set (ids t)" using assms(2,3) unfolding full_def by blast
  then obtain u where u: "u \<in> set (subtrees t)" "rid u = c" by (auto simp: subtrees_ids)
  have "rep E s t" using assms(1) t(1) by (auto simp: forest_def tree_ok_def)
  with subtrees_rep [OF this u(1)] t u that show ?thesis by blast
qed

lemma subtree_matches:
  assumes sh: "sharded E R f" and t: "f i = Some t" "u \<in> set (subtrees t)" and hit: "hit_at (kmp pat) pat u 0 q w" and pat: "pat \<noteq> []"
    and r: "r \<in> records_below w"
  shows "matches E R f pat r"
proof -
  obtain k where k: "has w k r" using r by (auto simp: records_below_def)
  obtain q0 where q0: "\<And>k v. has u k v \<Longrightarrow> has t (q0 @ k) v" using subtrees_has [OF t(2)] by blast
  have "has t (q0 @ q @ k) r" by (rule q0 [OF hit_at_has [OF hit k]])
  moreover from this sh t(1) have "q0 @ q @ k \<noteq> []" "shard_of E (hd (q0 @ q @ k)) (sharding R) = i"
    unfolding sharded_def by blast+
  ultimately have "holds E R f (q0 @ q @ k) r" using t(1) unfolding holds_def by simp
  moreover have "sublist pat (q @ rp w)"
    using kmp.hit_at_sublist [OF hit, of "[]"] pat by simp
  then have "sublist pat (q0 @ q @ k)"
    using has_prefix [OF k] by (auto simp: sublist_def) (metis append.assoc)
  ultimately show ?thesis by (auto simp: matches_def)
qed

text \<open>The answer of one candidate: records of matching keys, and some if the matcher hits.\<close>

lemma candidate_answer:
  assumes inv: "search_inv E n S f" and c: "c \<in> {0<..<next_id (store S)}" and pat: "pat \<noteq> []"
  shows "\<exists>N rs. (\<forall>fuel \<ge> N. search_dfs fuel E (trie S) c pat (kmp pat) None [] (store S) = Some (Inr (rs, None))) \<and>
    (\<forall>r \<in> set rs. matches E (trie S) f pat r) \<and>
    (\<forall>i t u. f i = Some t \<longrightarrow> u \<in> set (subtrees t) \<longrightarrow> rid u = c \<longrightarrow> hits (kmp pat) pat u 0 \<longrightarrow> rs \<noteq> [])"
proof -
  have fo: "forest E (trie S) (store S) f" "full (store S) f" "sharded E (trie S) f" "alive (store S)"
    and bloom: "\<not> bloom_search (trie S)"
    using inv search_trie(3) [of E n] by (auto simp: search_inv_def)
  obtain i t u where u: "f i = Some t" "u \<in> set (subtrees t)" "rid u = c" "rep E (store S) u"
    by (rule node_subtree [OF fo(1,2) c])
  obtain N rs where N: "\<forall>fuel \<ge> N. search_dfs fuel E (trie S) c pat (kmp pat) None [] (store S) = Some (Inr (rs, None))"
    and rs: "if hits (kmp pat) pat u 0 then \<exists>q w. hit_at (kmp pat) pat u 0 q w \<and> set rs = records_below w else rs = []"
    using search_dfs_tree [OF u(4) bloom pat, of "kmp pat"] unfolding u(3) by blast
  have "matches E (trie S) f pat r" if "r \<in> set rs" for r
    using rs that subtree_matches [OF fo(3) u(1,2) _ pat] by (metis empty_iff list.set(1))
  moreover have "rs \<noteq> []" if v: "f i' = Some t'" "v \<in> set (subtrees t')" "rid v = c" "hits (kmp pat) pat v 0" for i' t' v
  proof -
    have "rep E (store S) t'" using fo(1) v(1) by (simp add: forest_def tree_ok_def)
    then have "rep E (store S) v" by (rule subtrees_rep [OF _ v(2)])
    then have "v = u" using rep_unique [OF _ u(4)] v(3) u(3) by simp
    then obtain q w where w: "hit_at (kmp pat) pat u 0 q w" "set rs = records_below w" using rs v(4) by auto
    have "rep E (store S) w" by (rule subtrees_rep [OF u(4) hit_at_subtree [OF w(1)]])
    from records_below_nonempty [OF this fo(4)] w(2) show ?thesis by auto
  qed
  ultimately show ?thesis using N by blast
qed

lemma add_records_props:
  "set acc \<subseteq> set (add_records limit rs acc)" "set (add_records limit rs acc) \<subseteq> set acc \<union> set rs"
  "distinct acc \<Longrightarrow> distinct (add_records limit rs acc)"
  "limit = Some l \<Longrightarrow> length acc < l \<Longrightarrow> length (add_records limit rs acc) \<le> l"
  "rs \<noteq> [] \<Longrightarrow> add_records limit rs acc \<noteq> []"
proof -
  show mono: "set acc \<subseteq> set (add_records limit rs acc)" for rs acc
    by (induction limit rs acc rule: add_records.induct) auto
  show "set (add_records limit rs acc) \<subseteq> set acc \<union> set rs"
    by (induction limit rs acc rule: add_records.induct) auto
  show "distinct acc \<Longrightarrow> distinct (add_records limit rs acc)"
    by (induction limit rs acc rule: add_records.induct) auto
  show "limit = Some l \<Longrightarrow> length acc < l \<Longrightarrow> length (add_records limit rs acc) \<le> l"
    by (induction limit rs acc rule: add_records.induct) auto
  assume "rs \<noteq> []"
  then obtain r rs' where rs: "rs = r # rs'" by (auto simp: neq_Nil_conv)
  have "r \<in> set (add_records limit (r # rs') acc)"
    using mono [of "acc @ [r]" rs'] mono [of acc rs'] by auto
  then show "add_records limit rs acc \<noteq> []" using rs by force
qed

lemma candidate_loop_answer:
  assumes inv: "search_inv E n S f" and pat: "pat \<noteq> []" and "set cs \<subseteq> {0<..<next_id (store S)}"
  shows "\<exists>N rs. (\<forall>fuel \<ge> N. candidate_loop fuel E S pat (kmp pat) offset limit cs acc = Some (Inr rs)) \<and>
    set acc \<subseteq> set rs \<and> (\<forall>r \<in> set rs. r \<in> set acc \<or> matches E (trie S) f pat r) \<and> (distinct acc \<longrightarrow> distinct rs) \<and>
    (\<forall>l. limit = Some l \<longrightarrow> length acc \<le> l \<longrightarrow> length rs \<le> l) \<and>
    (offset = None \<longrightarrow> limit \<noteq> Some 0 \<longrightarrow> rs = [] \<longrightarrow>
      (\<forall>i t u. f i = Some t \<longrightarrow> u \<in> set (subtrees t) \<longrightarrow> rid u \<in> set cs \<longrightarrow> \<not> hits (kmp pat) pat u 0))"
  using assms(3)
proof (induction cs arbitrary: acc)
  case Nil
  then show ?case by (intro exI [of _ 0] exI [of _ acc]) auto
next
  case (Cons c cs)
  have cs: "set cs \<subseteq> {0<..<next_id (store S)}" and c: "c \<in> {0<..<next_id (store S)}" using Cons.prems by auto
  consider (skip) o' where "offset = Some o'" "c < o'" |
    (stop) l where "limit = Some l" "length acc \<ge> l" "\<not> (case offset of Some o' \<Rightarrow> c < o' | None \<Rightarrow> False)" |
    (go) "\<not> (case offset of Some o' \<Rightarrow> c < o' | None \<Rightarrow> False)" "\<not> (case limit of Some l \<Rightarrow> length acc \<ge> l | None \<Rightarrow> False)"
    by (cases offset; cases limit) (auto; linarith)+
  then show ?case
  proof cases
    case skip
    with Cons.IH [OF cs, of acc] show ?thesis by auto
  next
    case stop
    then show ?thesis by (intro exI [of _ 0] exI [of _ acc]) auto
  next
    case go
    obtain N1 rs1 where one: "\<And>fuel. fuel \<ge> N1 \<Longrightarrow> search_dfs fuel E (trie S) c pat (kmp pat) None [] (store S) = Some (Inr (rs1, None))"
      "\<forall>r \<in> set rs1. matches E (trie S) f pat r"
      "\<forall>i t u. f i = Some t \<longrightarrow> u \<in> set (subtrees t) \<longrightarrow> rid u = c \<longrightarrow> hits (kmp pat) pat u 0 \<longrightarrow> rs1 \<noteq> []"
      using candidate_answer [OF inv c pat] by blast
    let ?acc = "add_records limit rs1 acc"
    note add = add_records_props [where acc = acc and limit = limit and rs = rs1]
    obtain N2 rs where two: "\<And>fuel. fuel \<ge> N2 \<Longrightarrow> candidate_loop fuel E S pat (kmp pat) offset limit cs ?acc = Some (Inr rs)"
      and props: "set ?acc \<subseteq> set rs" "\<forall>r \<in> set rs. r \<in> set ?acc \<or> matches E (trie S) f pat r" "distinct ?acc \<longrightarrow> distinct rs"
      "\<forall>l. limit = Some l \<longrightarrow> length ?acc \<le> l \<longrightarrow> length rs \<le> l"
      "offset = None \<longrightarrow> limit \<noteq> Some 0 \<longrightarrow> rs = [] \<longrightarrow>
        (\<forall>i t u. f i = Some t \<longrightarrow> u \<in> set (subtrees t) \<longrightarrow> rid u \<in> set cs \<longrightarrow> \<not> hits (kmp pat) pat u 0)"
      using Cons.IH [OF cs, of ?acc] by blast
    have "candidate_loop fuel E S pat (kmp pat) offset limit (c # cs) acc = Some (Inr rs)" if "fuel \<ge> max N1 N2" for fuel
      using go one(1) [of fuel] two [of fuel] that by simp
    moreover have "set acc \<subseteq> set rs" using add(1) props(1) by blast
    moreover have "\<forall>r \<in> set rs. r \<in> set acc \<or> matches E (trie S) f pat r" using add(2) props(2) one(2) by blast
    moreover have "distinct acc \<longrightarrow> distinct rs" using add(3) props(3) by blast
    moreover have "\<forall>l. limit = Some l \<longrightarrow> length acc \<le> l \<longrightarrow> length rs \<le> l" using add(4) props(4) go(2) by (auto simp: not_le)
    moreover have "\<not> hits (kmp pat) pat u 0"
      if "offset = None" "limit \<noteq> Some 0" "rs = []" "f i = Some t" "u \<in> set (subtrees t)" "rid u \<in> set (c # cs)" for i t u
    proof (cases "rid u = c")
      case True
      moreover have "rs1 = []" using add(5) props(1) that(3) by auto
      ultimately show ?thesis using one(3) that(4,5) by blast
    qed (use props(5) that in auto)
    ultimately show ?thesis by (intro exI [of _ "max N1 N2"] exI [of _ rs]) blast
  qed
qed

lemma resolve_records_props:
  "\<exists>rs'. resolve_records s max_len limit rs out = out @ map (\<lambda>r. (r, mem_get_meta r s)) rs' \<and> set rs' \<subseteq> set rs \<and>
    (distinct rs \<longrightarrow> distinct rs') \<and> length rs' \<le> length rs \<and>
    (\<forall>r \<in> set rs'. \<forall>m. max_len = Some m \<longrightarrow> (case mem_get_key_len r s of Some n \<Rightarrow> n | None \<Rightarrow> 2 ^ 64 - 1) \<le> m) \<and>
    (max_len = None \<longrightarrow> (\<forall>r \<in> set rs. r \<noteq> EMPTY) \<longrightarrow> rs \<noteq> [] \<longrightarrow> rs' \<noteq> [])"
proof (induction s max_len limit rs out rule: resolve_records.induct)
  case (2 s max_len limit r rs out)
  let ?deep = "case max_len of Some m \<Rightarrow> (case mem_get_key_len r s of Some n \<Rightarrow> n | None \<Rightarrow> 2 ^ 64 - 1) > m | None \<Rightarrow> False"
  let ?out = "out @ [(r, mem_get_meta r s)]"
  let ?full = "case limit of Some l \<Rightarrow> length ?out \<ge> l | None \<Rightarrow> False"
  consider (empty) "r = EMPTY" | (deep) "r \<noteq> EMPTY" ?deep | (stop) "r \<noteq> EMPTY" "\<not> ?deep" ?full | (go) "r \<noteq> EMPTY" "\<not> ?deep" "\<not> ?full"
    by blast
  then show ?case
  proof cases
    case empty
    with 2(1) show ?thesis by (auto intro: le_SucI)
  next
    case deep
    with 2(2) [OF deep] show ?thesis by (auto intro: le_SucI)
  next
    case stop
    then have "resolve_records s max_len limit (r # rs) out = ?out" by simp
    with stop show ?thesis by (intro exI [of _ "[r]"]) (auto split: option.splits)
  next
    case go
    obtain rs' where rs': "resolve_records s max_len limit rs ?out = ?out @ map (\<lambda>r. (r, mem_get_meta r s)) rs'" "set rs' \<subseteq> set rs"
      "distinct rs \<longrightarrow> distinct rs'" "length rs' \<le> length rs"
      "\<forall>r \<in> set rs'. \<forall>m. max_len = Some m \<longrightarrow> (case mem_get_key_len r s of Some n \<Rightarrow> n | None \<Rightarrow> 2 ^ 64 - 1) \<le> m"
      using 2(3) [OF go(1,2) refl go(3)] by blast
    have "resolve_records s max_len limit (r # rs) out = out @ map (\<lambda>r. (r, mem_get_meta r s)) (r # rs')"
      using go rs'(1) by simp
    with go rs' show ?thesis by (intro exI [of _ "r # rs'"]) (auto split: option.splits)
  qed
qed simp

lemma has_record: "has t k v \<Longrightarrow> v \<noteq> EMPTY"
proof (induction t arbitrary: k rule: ids.induct)
  case (1 i p r ts)
  then show ?case by (auto simp: has.simps)
qed

lemma matching_candidate:
  assumes inv: "search_inv E n S f" and pat: "pat \<noteq> []" and m: "matches E (trie S) f pat r"
  shows "\<exists>i t u. f i = Some t \<and> u \<in> set (subtrees t) \<and> hits (kmp pat) pat u 0 \<and>
    rid u \<in> shortcuts E (sharding (trie S)) (store S) (hd pat)"
proof -
  obtain k where k: "holds E (trie S) f k r" "sublist pat k" using m by (auto simp: matches_def)
  then obtain a b where ab: "k = a @ pat @ b" by (auto simp: sublist_def)
  obtain i t where t: "f i = Some t" "has t k r" using k(1) by (auto simp: holds_def split: option.splits)
  have ok: "wf_rt t" "rep E (store S) t" using inv t(1) by (auto simp: search_inv_def forest_def tree_ok_def)
  obtain u where u: "u \<in> set (subtrees t)" "hits (kmp pat) pat u 0" "hd pat \<in> set (rp u)"
    using kmp.hits_somewhere [OF ok(1) t(2) [unfolded ab] pat] by blast
  have "rep E (store S) u" by (rule subtrees_rep [OF ok(2) u(1)])
  then have "mem_node (store S) (rid u) = Some (from_vec E (rp u), rr u)" "0 < rid u"
    by (cases u; simp add: rep.simps EMPTY_def)+
  then have "rid u \<in> shortcuts E (sharding (trie S)) (store S) (hd pat)"
    using inv u(3) by (auto simp: search_inv_def covered_def)
  with t(1) u(1,2) show ?thesis by blast
qed

lemma search_answer:
  assumes inv: "search_inv E n S f" and pat: "pat \<noteq> []" and iter: "\<And>A. finite A \<Longrightarrow> set (iter A) = A"
  shows "\<exists>N ans. (\<forall>fuel \<ge> N. search_chains fuel E iter pat depth offset limit S = Some ans) \<and>
    (case ans of
       Inl e \<Rightarrow> e = Search_NotFound \<and> (depth = None \<longrightarrow> offset = None \<longrightarrow> limit \<noteq> Some 0 \<longrightarrow> (\<forall>r. \<not> matches E (trie S) f pat r))
     | Inr res \<Rightarrow> res \<noteq> [] \<and> distinct (map fst res) \<and> (\<forall>l. limit = Some l \<longrightarrow> length res \<le> l) \<and>
         (\<forall>(r, m) \<in> set res. matches E (trie S) f pat r \<and>
            (\<forall>d. depth = Some d \<longrightarrow> (\<exists>k. holds E (trie S) f k r \<and> length k \<le> d + 1))))"
proof -
  let ?A = "shortcuts E (sharding (trie S)) (store S) (hd pat)"
  have sub: "?A \<subseteq> {0<..<next_id (store S)}" using inv by (auto simp: search_inv_def listed_def)
  then have "finite ?A" by (rule finite_subset) simp
  then have cs: "set (iter ?A) = ?A" by (rule iter)
  obtain N rs where loop: "\<And>fuel. fuel \<ge> N \<Longrightarrow> candidate_loop fuel E S pat (kmp pat) offset limit (iter ?A) [] = Some (Inr rs)"
    and rs: "\<forall>r \<in> set rs. matches E (trie S) f pat r" "distinct rs" "\<forall>l. limit = Some l \<longrightarrow> length rs \<le> l"
      "offset = None \<longrightarrow> limit \<noteq> Some 0 \<longrightarrow> rs = [] \<longrightarrow>
        (\<forall>i t u. f i = Some t \<longrightarrow> u \<in> set (subtrees t) \<longrightarrow> rid u \<in> ?A \<longrightarrow> \<not> hits (kmp pat) pat u 0)"
    using candidate_loop_answer [OF inv pat, of "iter ?A" offset limit "[]"] sub unfolding cs by auto
  have missed: "\<not> matches E (trie S) f pat r" if "offset = None" "limit \<noteq> Some 0" "rs = []" for r
    using rs(4) that matching_candidate [OF inv pat] by blast
  have rec: "r \<noteq> EMPTY \<and> (\<exists>k. holds E (trie S) f k r \<and> mem_get_key_len r (store S) = Some (length k))" if r: "r \<in> set rs" for r
  proof -
    obtain k where k: "holds E (trie S) f k r" using rs(1) r unfolding matches_def by blast
    then have "r \<noteq> EMPTY" using has_record by (auto simp: holds_def split: option.splits)
    moreover have "\<exists>k. holds E (trie S) f k r \<and> mem_get_key_len r (store S) = Some (length k)"
      using inv k unfolding search_inv_def by blast
    ultimately show ?thesis by blast
  qed
  obtain rs' where res: "resolve_records (store S) (map_option (\<lambda>d. d + 1) depth) limit rs [] = map (\<lambda>r. (r, mem_get_meta r (store S))) rs'"
    and rs': "set rs' \<subseteq> set rs" "distinct rs'" "length rs' \<le> length rs"
      "\<forall>r \<in> set rs'. \<forall>d. depth = Some d \<longrightarrow> (case mem_get_key_len r (store S) of Some n \<Rightarrow> n | None \<Rightarrow> 2 ^ 64 - 1) \<le> d + 1"
      "depth = None \<longrightarrow> rs \<noteq> [] \<longrightarrow> rs' \<noteq> []"
    using resolve_records_props [of "store S" "map_option (\<lambda>d. d + 1) depth" limit rs "[]"] rs(2) rec by auto
  have deep: "\<exists>k. holds E (trie S) f k r \<and> length k \<le> d + 1" if r: "r \<in> set rs'" and d: "depth = Some d" for r d
  proof -
    obtain k where "holds E (trie S) f k r" "mem_get_key_len r (store S) = Some (length k)" using rec r rs'(1) by blast
    with rs'(4) r d show ?thesis by fastforce
  qed
  let ?ans = "if rs = [] \<or> rs' = [] then Inl Search_NotFound else Inr (map (\<lambda>r. (r, mem_get_meta r (store S))) rs')"
  have "search_chains fuel E iter pat depth offset limit S = Some ?ans" if "fuel \<ge> N" for fuel
    using loop [OF that] pat res by (simp add: search_chains_def Let_def)
  moreover have "depth = None \<longrightarrow> offset = None \<longrightarrow> limit \<noteq> Some 0 \<longrightarrow> (\<forall>r. \<not> matches E (trie S) f pat r)" if "rs = [] \<or> rs' = []"
    using that rs'(5) missed by blast
  moreover have "length rs' \<le> l" if "limit = Some l" for l using that rs(3) rs'(3) le_trans by blast
  ultimately show ?thesis
    using rs(1) rs'(1,2) deep
    by (intro exI [of _ N] exI [of _ ?ans]) (auto simp: comp_def)
qed

end

lemma matches_first_chain:
  assumes "\<And>k v. holds E R f k v \<longleftrightarrow> first_chain calls k = Some v"
  shows "matches E R f pat r \<longleftrightarrow> (\<exists>k. first_chain calls k = Some r \<and> sublist pat k)"
  by (simp add: matches_def assms)

lemma word_codec_u64: "element_codec (word_element :: u64 element)" "byte_size (word_element :: u64 element) \<le> 8"
  by (rule u64_element.element_codec_axioms) (simp add: word_element_def)

lemma insert_chain_tables:
  assumes E: "element_codec E" "byte_size E \<le> 8" and inv: "search_inv E n S f" and key: "key \<noteq> []" and index: "index \<noteq> EMPTY"
  shows "search_get_chain E index (snd (insert_chain E index key metas S)) =
    (if fst (insert_chain E index key metas S) = Inr () then Some (Some key) else search_get_chain E index S)"
proof -
  obtain m x s' sc ws where "decode_elements E ws = Some key" "insert_chain E index key metas S =
      (if fst x = EMPTY then (Inl Duplicated, S\<lparr>store := store S\<lparr>mem_node_meta := m\<rparr>\<rparr>)
       else (Inr (), S\<lparr>store := written E (sharding (trie S)) index key ws x sc s'\<rparr>))"
    using insert_chain_step [OF E inv key index, of metas] by blast
  then show ?thesis
    by (cases "fst x = EMPTY") (simp_all add: search_get_chain_store written_tables, simp add: search_get_chain_def mem_get_chain_def)
qed

text \<open>C13: After any history of insertions, an insertion answers as documented: an empty chain is not found,
  record 0 is refused, a chain inserted before is reported as a duplicate, and everything else succeeds.
  After a success the chain read back for the record is the one inserted, element for element; after
  a refusal the record reads as before.\<close>

theorem insert_chain_answers:
  "let S = insert_chains word_element calls (in_memory word_element n);
       (r, S') = insert_chain word_element index (key :: u64 list) metas S
   in r = (if key = [] then Inl Search_NotFound else if index = EMPTY then Inl (Search_Storage InvalidIndex)
           else if first_chain calls key = None then Inr () else Inl Duplicated)
    \<and> search_get_chain word_element index S' = (if r = Inr () then Some (Some key) else search_get_chain word_element index S)"
proof -
  let ?S = "insert_chains word_element calls (in_memory word_element n)"
  obtain f where inv: "search_inv word_element n ?S f"
    and dict: "\<And>k v. holds word_element (trie (in_memory word_element n)) f k v \<longleftrightarrow> first_chain calls k = Some v"
    using insert_chains_inv [OF word_codec_u64, of n calls] by blast
  have tr: "trie ?S = trie (in_memory word_element n)" "pending_split_elems ?S = []" using inv by (simp_all add: search_inv_def)
  show ?thesis
  proof (cases "key = [] \<or> index = EMPTY")
    case True
    then show ?thesis using tr(2) by (cases "key = []") (simp_all add: insert_chain_refused)
  next
    case False
    then have "key \<noteq> []" "index \<noteq> EMPTY" by simp_all
    note ins = insert_chain_inv [OF word_codec_u64 inv this, of metas]
      insert_chain_tables [OF word_codec_u64 inv this, of metas]
    show ?thesis using ins False unfolding Let_def by (auto simp: tr dict split: if_splits)
  qed
qed

text \<open>C6: The substring search returns, without error, after any history of insertions (whatever they
  split, however the chains spread over the shards and in whatever order a hash set is visited), and
  with enough fuel its answer no longer changes. The records it returns are distinct, at most as
  many as the limit, each has a chain that contains the pattern and, given a depth, a chain of at
  most that many hops. Without filters \<open>NotFound\<close> means that no stored chain contains the pattern.\<close>

theorem search_exact:
  assumes "\<And>A. finite A \<Longrightarrow> set (iter A) = A" and "pattern \<noteq> []"
  shows "\<exists>N ans. (\<forall>fuel \<ge> N. search_chains fuel word_element iter (pattern :: u64 list) depth offset limit
        (insert_chains word_element calls (in_memory word_element n)) = Some ans) \<and>
    (case ans of
       Inl e \<Rightarrow> e = Search_NotFound \<and> (depth = None \<longrightarrow> offset = None \<longrightarrow> limit \<noteq> Some 0 \<longrightarrow>
         (\<forall>k r. first_chain calls k = Some r \<longrightarrow> \<not> sublist pattern k))
     | Inr res \<Rightarrow> res \<noteq> [] \<and> distinct (map fst res) \<and> (\<forall>l. limit = Some l \<longrightarrow> length res \<le> l) \<and>
         (\<forall>(r, m) \<in> set res. (\<exists>k. first_chain calls k = Some r \<and> sublist pattern k) \<and>
            (\<forall>d. depth = Some d \<longrightarrow> (\<exists>k. first_chain calls k = Some r \<and> length k \<le> d + 1))))"
proof -
  let ?S = "insert_chains word_element calls (in_memory word_element n)"
  obtain f where inv: "search_inv word_element n ?S f"
    and dict: "\<And>k v. holds word_element (trie (in_memory word_element n)) f k v \<longleftrightarrow> first_chain calls k = Some v"
    using insert_chains_inv [OF word_codec_u64, of n calls] by blast
  have "trie ?S = trie (in_memory word_element n)" using inv by (simp add: search_inv_def)
  with dict have dict: "holds word_element (trie ?S) f k v \<longleftrightarrow> first_chain calls k = Some v" for k v by simp
  from u64_element.search_answer [OF inv assms(2,1), of depth offset limit]
  show ?thesis
    unfolding matches_first_chain [OF dict] dict by (fastforce split: sum.split)
qed

text \<open>Witness of C6: two chains of a sharded index, a pattern that one of them contains.\<close>

theorem search_exact_witness:
  "\<exists>N ans. (\<forall>fuel \<ge> N. search_chains fuel word_element sorted_list_of_set [1 :: u64, 2] (Some 3) None (Some 2)
        (insert_chains word_element [(5, [7, 1, 2], []), (6, [7, 1, 3], [])] (in_memory word_element 4)) = Some ans) \<and>
    (case ans of
       Inl e \<Rightarrow> e = Search_NotFound \<and> (Some (3 :: nat) = None \<longrightarrow> (None :: nat option) = None \<longrightarrow> Some 2 \<noteq> Some (0 :: nat) \<longrightarrow>
         (\<forall>k r. first_chain [(5, [7 :: u64, 1, 2], []), (6, [7, 1, 3], [])] k = Some r \<longrightarrow> \<not> sublist [1, 2] k))
     | Inr res \<Rightarrow> res \<noteq> [] \<and> distinct (map fst res) \<and> (\<forall>l. Some 2 = Some l \<longrightarrow> length res \<le> l) \<and>
         (\<forall>(r, m) \<in> set res. (\<exists>k. first_chain [(5, [7 :: u64, 1, 2], []), (6, [7, 1, 3], [])] k = Some r \<and> sublist [1, 2] k) \<and>
            (\<forall>d. Some 3 = Some d \<longrightarrow> (\<exists>k. first_chain [(5, [7 :: u64, 1, 2], []), (6, [7, 1, 3], [])] k = Some r \<and> length k \<le> d + 1))))"
  by (rule search_exact) simp_all

end
