(* ===== verification/Lru.thy ===== *)
theory Lru
  imports Storage
begin

text \<open>
  The sharded LRU cache (\<open>crates/opsense-mlib/src/lru.rs\<close>): an arena of nodes, one doubly linked
  list per shard with the most recently used node first, a map from keys to nodes, and, with
  the feature \<open>lru-shared-memory\<close> (the default of \<open>opsense-core\<close>), a free list common to all
  shards. The feature is the argument \<open>shared\<close>; without it the arena is cut into fixed blocks.

  Operations are whole calls: the locks and the compare-exchange loops of a call are taken
  without interference, except that \<open>try_lock\<close> may find the lock taken (\<open>contended\<close>). The hash
  function is a parameter, as are the callbacks. What a call hands to callbacks and to the
  timeseries (a spawned append) is recorded in order in the field \<open>lru_log\<close>. Nodes are read with
  list indexing; that no operation leaves the arena is part of the invariant of
  \<open>Lru_Refine\<close>.
\<close>

section \<open>State\<close>

definition NULL :: nat where "NULL = 2 ^ 64 - 1"

record ('k, 'v) lru_node =
  n_key :: "'k option"
  n_val :: "'v option"
  nxt :: nat
  prv :: nat

record head_tail =
  ht_first :: nat
  ht_last :: nat

datatype ('k, 'v) lru_event =
    Removing 'k 'v
  | Updating 'k 'v
  | Append bytes u64 bytes

record ('k, 'v) lru =
  mapping :: "'k \<rightharpoonup> nat"
  caching :: "('k, 'v) lru_node list"
  shards :: "head_tail list"
  shard_mask :: u64
  free_head :: nat
  lru_log :: "('k, 'v) lru_event list"

record ('k, 'v) lru_hooks =
  on_removing :: bool
  on_updating :: bool
  timeseries :: "(bytes \<Rightarrow> u64 \<Rightarrow> u64 \<Rightarrow> storage_error + point list) option"
  ts_series_of :: "('k \<Rightarrow> bytes) option"
  ts_encode :: "('v \<Rightarrow> bytes) option"
  ts_clock :: "(u64 \<Rightarrow> u64) option"   \<comment> \<open>a clock, as a function of the wall time\<close>
  decode :: "(bytes \<Rightarrow> 'v option) option"
  validate :: "('k \<Rightarrow> 'v \<Rightarrow> u64 \<Rightarrow> u64 \<Rightarrow> bool) option"
  coverage_gap :: "('k \<Rightarrow> 'v \<Rightarrow> u64 \<Rightarrow> u64 \<Rightarrow> (u64 \<times> u64) option) option"
  fallback :: "('k \<Rightarrow> u64 \<Rightarrow> u64 \<Rightarrow> string + 'v) option"
  ts_merge :: "('v \<Rightarrow> 'v \<Rightarrow> 'v) option"
  ts_timestamp_of :: "('k \<Rightarrow> 'v \<Rightarrow> u64) option"

text \<open>What a call finds around it: the wall clock, whether a runtime is there to spawn on, and
  whether \<open>try_lock\<close> fails.\<close>

record lru_env =
  wall_ms :: u64
  has_runtime :: bool
  contended :: bool

definition no_hooks :: "('k, 'v) lru_hooks" where
  "no_hooks = \<lparr>on_removing = False, on_updating = False, timeseries = None, ts_series_of = None,
     ts_encode = None, ts_clock = None, decode = None, validate = None, coverage_gap = None,
     fallback = None, ts_merge = None, ts_timestamp_of = None\<rparr>"

section \<open>Construction\<close>

definition is_power_of_two :: "nat \<Rightarrow> bool" where
  "is_power_of_two n = (n \<in> set (map (\<lambda>e. 2 ^ e) [0..<64]))"

definition div_ceil :: "nat \<Rightarrow> nat \<Rightarrow> nat" where
  "div_ceil a b = (a + b - 1) div b"

definition block_nodes :: "nat \<Rightarrow> nat \<Rightarrow> ('k, 'v) lru_node list" where
  "block_nodes S per =
     concat (map (\<lambda>sh. map (\<lambda>i. \<lparr>n_key = None, n_val = None,
         nxt = (if i + 1 < per then sh * per + i + 1 else NULL),
         prv = (if i > 0 then sh * per + i - 1 else NULL)\<rparr>) [0..<per]) [0..<S])"

definition block_shards :: "nat \<Rightarrow> nat \<Rightarrow> head_tail list" where
  "block_shards S per =
     map (\<lambda>sh. \<lparr>ht_first = (if per > 0 then sh * per else NULL),
               ht_last = (if per > 0 then sh * per + per - 1 else NULL)\<rparr>) [0..<S]"

definition free_nodes :: "nat \<Rightarrow> ('k, 'v) lru_node list" where
  "free_nodes n =
     map (\<lambda>i. \<lparr>n_key = None, n_val = None, nxt = (if i + 1 < n then i + 1 else NULL), prv = NULL\<rparr>) [0..<n]"

definition empty_shards :: "nat \<Rightarrow> head_tail list" where
  "empty_shards S = replicate S \<lparr>ht_first = NULL, ht_last = NULL\<rparr>"

text \<open>\<open>None\<close> is the failed assertion on the number of shards.\<close>

definition lru_new :: "bool \<Rightarrow> nat \<Rightarrow> nat \<Rightarrow> ('k, 'v) lru option" where
  "lru_new shared S total_capacity =
     (if \<not> (S > 0 \<and> is_power_of_two S) then None
      else if shared then
        Some \<lparr>mapping = Map.empty, caching = free_nodes total_capacity, shards = empty_shards S,
              shard_mask = of_nat (S - 1), free_head = (if total_capacity = 0 then NULL else 0), lru_log = []\<rparr>
      else
        let per = div_ceil total_capacity S
        in Some \<lparr>mapping = Map.empty, caching = block_nodes S per, shards = block_shards S per,
                 shard_mask = of_nat (S - 1), free_head = NULL, lru_log = []\<rparr>)"

definition get_shard_idx :: "('k \<Rightarrow> u64) \<Rightarrow> ('k, 'v) lru \<Rightarrow> 'k \<Rightarrow> nat" where
  "get_shard_idx hash s k = unat (hash k AND shard_mask s)"

section \<open>Hooks\<close>

definition attach_timeseries ::
    "(bytes \<Rightarrow> u64 \<Rightarrow> u64 \<Rightarrow> storage_error + point list) \<Rightarrow> ('k \<Rightarrow> bytes) \<Rightarrow> ('v \<Rightarrow> bytes)
     \<Rightarrow> ('k, 'v) lru_hooks \<Rightarrow> ('k, 'v) lru_hooks" where
  "attach_timeseries ts series_of encode h =
     h\<lparr>timeseries := Some ts, ts_series_of := Some series_of, ts_encode := Some encode\<rparr>"

definition attach_timeseries_with_clock ::
    "(bytes \<Rightarrow> u64 \<Rightarrow> u64 \<Rightarrow> storage_error + point list) \<Rightarrow> ('k \<Rightarrow> bytes) \<Rightarrow> ('v \<Rightarrow> bytes) \<Rightarrow> (u64 \<Rightarrow> u64)
     \<Rightarrow> ('k, 'v) lru_hooks \<Rightarrow> ('k, 'v) lru_hooks" where
  "attach_timeseries_with_clock ts series_of encode clock h =
     h\<lparr>timeseries := Some ts, ts_series_of := Some series_of, ts_encode := Some encode, ts_clock := Some clock\<rparr>"

definition detach_timeseries :: "('k, 'v) lru_hooks \<Rightarrow> ('k, 'v) lru_hooks" where
  "detach_timeseries h =
     h\<lparr>timeseries := None, ts_series_of := None, ts_encode := None, ts_clock := None\<rparr>"

definition attach_fallback ::
    "(bytes \<Rightarrow> u64 \<Rightarrow> u64 \<Rightarrow> storage_error + point list) \<Rightarrow> ('k \<Rightarrow> bytes) \<Rightarrow> ('v \<Rightarrow> bytes)
     \<Rightarrow> (bytes \<Rightarrow> 'v option) \<Rightarrow> ('k \<Rightarrow> 'v \<Rightarrow> u64 \<Rightarrow> u64 \<Rightarrow> bool)
     \<Rightarrow> ('k \<Rightarrow> 'v \<Rightarrow> u64 \<Rightarrow> u64 \<Rightarrow> (u64 \<times> u64) option) \<Rightarrow> ('k \<Rightarrow> u64 \<Rightarrow> u64 \<Rightarrow> string + 'v)
     \<Rightarrow> ('k, 'v) lru_hooks \<Rightarrow> ('k, 'v) lru_hooks" where
  "attach_fallback ts series_of encode dec valid gap fb h =
     h\<lparr>timeseries := Some ts, ts_series_of := Some series_of, ts_encode := Some encode,
       decode := Some dec, validate := Some valid, coverage_gap := Some gap, fallback := Some fb\<rparr>"

definition attach_storage ::
    "(bytes \<Rightarrow> u64 \<Rightarrow> u64 \<Rightarrow> storage_error + point list) \<Rightarrow> ('k \<Rightarrow> bytes) \<Rightarrow> ('v \<Rightarrow> bytes)
     \<Rightarrow> (bytes \<Rightarrow> 'v option) \<Rightarrow> ('k \<Rightarrow> 'v \<Rightarrow> u64 \<Rightarrow> u64 \<Rightarrow> bool)
     \<Rightarrow> ('k \<Rightarrow> 'v \<Rightarrow> u64 \<Rightarrow> u64 \<Rightarrow> (u64 \<times> u64) option) \<Rightarrow> ('k, 'v) lru_hooks \<Rightarrow> ('k, 'v) lru_hooks" where
  "attach_storage ts series_of encode dec valid gap h =
     h\<lparr>timeseries := Some ts, ts_series_of := Some series_of, ts_encode := Some encode,
       decode := Some dec, validate := Some valid, coverage_gap := Some gap\<rparr>"

definition detach_fallback :: "('k, 'v) lru_hooks \<Rightarrow> ('k, 'v) lru_hooks" where
  "detach_fallback h =
     h\<lparr>timeseries := None, ts_series_of := None, ts_encode := None, ts_clock := None, decode := None,
       validate := None, fallback := None, ts_timestamp_of := None\<rparr>"

definition log_event :: "('k, 'v) lru_event \<Rightarrow> ('k, 'v) lru \<Rightarrow> ('k, 'v) lru" where
  "log_event e s = s\<lparr>lru_log := lru_log s @ [e]\<rparr>"

definition clock_value :: "lru_env \<Rightarrow> ('k, 'v) lru_hooks \<Rightarrow> u64" where
  "clock_value env h = (case ts_clock h of Some c \<Rightarrow> c (wall_ms env) | None \<Rightarrow> wall_ms env)"

definition persist_point :: "lru_env \<Rightarrow> ('k, 'v) lru_hooks \<Rightarrow> 'k \<Rightarrow> 'v \<Rightarrow> ('k, 'v) lru \<Rightarrow> ('k, 'v) lru" where
  "persist_point env h k v s =
     (case (timeseries h, ts_series_of h, ts_encode h) of
        (Some _, Some series_of, Some encode) \<Rightarrow>
          let ts = (case ts_timestamp_of h of Some f \<Rightarrow> f k v | None \<Rightarrow> clock_value env h)
          in if has_runtime env then log_event (Append (series_of k) ts (encode v)) s else s
      | _ \<Rightarrow> s)"

section \<open>Linked lists\<close>

definition set_next :: "nat \<Rightarrow> nat \<Rightarrow> ('k, 'v) lru_node list \<Rightarrow> ('k, 'v) lru_node list" where
  "set_next i n c = c[i := (c ! i)\<lparr>nxt := n\<rparr>]"

definition set_prev :: "nat \<Rightarrow> nat \<Rightarrow> ('k, 'v) lru_node list \<Rightarrow> ('k, 'v) lru_node list" where
  "set_prev i p c = c[i := (c ! i)\<lparr>prv := p\<rparr>]"

definition set_entry ::
    "nat \<Rightarrow> 'k option \<Rightarrow> 'v option \<Rightarrow> ('k, 'v) lru_node list \<Rightarrow> ('k, 'v) lru_node list" where
  "set_entry i k v c = c[i := (c ! i)\<lparr>n_key := k, n_val := v\<rparr>]"

definition unlink_inside_lock :: "nat \<Rightarrow> nat \<Rightarrow> ('k, 'v) lru \<Rightarrow> ('k, 'v) lru" where
  "unlink_inside_lock sh i s =
     (let ht = shards s ! sh;
          p = prv (caching s ! i);
          n = nxt (caching s ! i);
          (c, ht) = (if p \<noteq> NULL then (set_next p n (caching s), ht) else (caching s, ht\<lparr>ht_first := n\<rparr>));
          (c, ht) = (if n \<noteq> NULL then (set_prev n p c, ht) else (c, ht\<lparr>ht_last := p\<rparr>))
      in s\<lparr>caching := set_next i NULL (set_prev i NULL c), shards := (shards s)[sh := ht]\<rparr>)"

definition move_to_front_inside_lock :: "nat \<Rightarrow> nat \<Rightarrow> ('k, 'v) lru \<Rightarrow> ('k, 'v) lru" where
  "move_to_front_inside_lock sh i s =
     (let ht = shards s ! sh in
      if ht_first ht = i \<or> ht_first ht = NULL then s
      else
        let p = prv (caching s ! i);
            n = nxt (caching s ! i);
            c = (if p \<noteq> NULL then set_next p n (caching s) else caching s);
            c = (if n \<noteq> NULL then set_prev n p c else c);
            l = (if i = ht_last ht then p else ht_last ht);
            old_first = ht_first ht;
            c = set_prev i NULL (set_next i old_first c);
            c = (if old_first \<noteq> NULL then set_prev old_first i c else c)
        in s\<lparr>caching := c, shards := (shards s)[sh := \<lparr>ht_first = i, ht_last = l\<rparr>]\<rparr>)"

definition free_pop :: "('k, 'v) lru \<Rightarrow> (nat \<times> ('k, 'v) lru) option" where
  "free_pop s =
     (let head = free_head s in
      if head = NULL then None
      else Some (head, s\<lparr>free_head := nxt (caching s ! head), caching := set_next head NULL (caching s)\<rparr>))"

definition free_push :: "nat \<Rightarrow> ('k, 'v) lru \<Rightarrow> ('k, 'v) lru" where
  "free_push i s = s\<lparr>caching := set_next i (free_head s) (caching s), free_head := i\<rparr>"

text \<open>Taking the last node of a shard out of its list and out of the map.\<close>

definition evict_last :: "nat \<Rightarrow> ('k, 'v) lru \<Rightarrow> nat \<times> ('k \<times> 'v) option \<times> ('k, 'v) lru" where
  "evict_last sh s =
     (let i = ht_last (shards s ! sh);
          evicted = (case n_key (caching s ! i) of
             None \<Rightarrow> None | Some k \<Rightarrow> Some (k, the (n_val (caching s ! i))));
          s = (if evicted = None then s else s\<lparr>caching := set_entry i None None (caching s)\<rparr>);
          s = unlink_inside_lock sh i s;
          s = (case evicted of Some (k, _) \<Rightarrow> s\<lparr>mapping := (mapping s)(k := None)\<rparr> | None \<Rightarrow> s)
      in (i, evicted, s))"

definition acquire_node :: "nat \<Rightarrow> ('k, 'v) lru \<Rightarrow> (nat \<times> ('k \<times> 'v) option \<times> ('k, 'v) lru) option" where
  "acquire_node shard_idx s =
     (case free_pop s of
        Some (i, s) \<Rightarrow> Some (i, None, s)
      | None \<Rightarrow>
          let S = length (shards s);
              scan = concat (map (\<lambda>start. map (\<lambda>off. (start + off) mod S) [0..<S]) [0..<S])
          in case find (\<lambda>sh. ht_last (shards s ! sh) \<noteq> NULL) scan of
               None \<Rightarrow> None
             | Some sh \<Rightarrow> Some (evict_last sh s))"

section \<open>Operations\<close>

definition touch :: "lru_env \<Rightarrow> nat \<Rightarrow> nat \<Rightarrow> ('k, 'v) lru \<Rightarrow> ('k, 'v) lru" where
  "touch env sh i s = (if contended env then s else move_to_front_inside_lock sh i s)"

definition lru_get :: "('k \<Rightarrow> u64) \<Rightarrow> lru_env \<Rightarrow> 'k \<Rightarrow> ('k, 'v) lru \<Rightarrow> 'v option \<times> ('k, 'v) lru" where
  "lru_get hash env k s =
     (case mapping s k of
        None \<Rightarrow> (None, s)
      | Some i \<Rightarrow>
          (case n_val (caching s ! i) of
             None \<Rightarrow> (None, s)
           | Some v \<Rightarrow> (Some v, touch env (get_shard_idx hash s k) i s)))"

definition put_update ::
    "('k \<Rightarrow> u64) \<Rightarrow> lru_env \<Rightarrow> ('k, 'v) lru_hooks \<Rightarrow> 'k \<Rightarrow> 'v \<Rightarrow> nat \<Rightarrow> ('k, 'v) lru \<Rightarrow> ('k, 'v) lru" where
  "put_update hash env h k v i s =
     (let s = (if on_updating h then log_event (Updating k v) s else s);
          s = persist_point env h k v s;
          s = s\<lparr>caching := (caching s)[i := (caching s ! i)\<lparr>n_val := Some v\<rparr>]\<rparr>
      in touch env (get_shard_idx hash s k) i s)"

definition put_shared ::
    "('k \<Rightarrow> u64) \<Rightarrow> lru_env \<Rightarrow> ('k, 'v) lru_hooks \<Rightarrow> 'k \<Rightarrow> 'v \<Rightarrow> ('k, 'v) lru \<Rightarrow> ('k, 'v) lru" where
  "put_shared hash env h k v s =
     (let sh = get_shard_idx hash s k in
      case acquire_node sh s of
        None \<Rightarrow> s
      | Some (i, evicted, s) \<Rightarrow>
          let s = s\<lparr>caching := set_entry i (Some k) (Some v) (caching s), mapping := (mapping s)(k \<mapsto> i)\<rparr>;
              s = (if ht_first (shards s ! sh) = NULL
                   then s\<lparr>caching := set_next i NULL (set_prev i NULL (caching s)),
                          shards := (shards s)[sh := \<lparr>ht_first = i, ht_last = i\<rparr>]\<rparr>
                   else move_to_front_inside_lock sh i s)
          in case evicted of
               None \<Rightarrow> s
             | Some (ek, ev) \<Rightarrow>
                 persist_point env h ek ev (if on_removing h then log_event (Removing ek ev) s else s))"

definition put_blocks ::
    "('k \<Rightarrow> u64) \<Rightarrow> lru_env \<Rightarrow> ('k, 'v) lru_hooks \<Rightarrow> 'k \<Rightarrow> 'v \<Rightarrow> ('k, 'v) lru \<Rightarrow> ('k, 'v) lru" where
  "put_blocks hash env h k v s =
     (let sh = get_shard_idx hash s k;
          i = ht_last (shards s ! sh)
      in if i = NULL then s
         else
           let evicted = (case n_key (caching s ! i) of
                 None \<Rightarrow> None | Some ek \<Rightarrow> Some (ek, the (n_val (caching s ! i))));
               s = (case evicted of
                      None \<Rightarrow> s
                    | Some (ek, ev) \<Rightarrow>
                        let s = s\<lparr>mapping := (mapping s)(ek := None)\<rparr>
                        in if on_removing h then log_event (Removing ek ev) s else s);
               s = s\<lparr>caching := set_entry i (Some k) (Some v) (caching s), mapping := (mapping s)(k \<mapsto> i)\<rparr>;
               s = move_to_front_inside_lock sh i s
           in case evicted of None \<Rightarrow> s | Some (ek, ev) \<Rightarrow> persist_point env h ek ev s)"

definition lru_put ::
    "bool \<Rightarrow> ('k \<Rightarrow> u64) \<Rightarrow> lru_env \<Rightarrow> ('k, 'v) lru_hooks \<Rightarrow> 'k \<Rightarrow> 'v \<Rightarrow> ('k, 'v) lru \<Rightarrow> ('k, 'v) lru" where
  "lru_put shared hash env h k v s =
     (case mapping s k of
        Some i \<Rightarrow> put_update hash env h k v i s
      | None \<Rightarrow> if shared then put_shared hash env h k v s else put_blocks hash env h k v s)"

definition lru_clear :: "bool \<Rightarrow> ('k, 'v) lru \<Rightarrow> nat \<times> ('k, 'v) lru" where
  "lru_clear shared s =
     (card (dom (mapping s)),
      let s = s\<lparr>mapping := Map.empty\<rparr>; n = length (caching s); S = length (shards s) in
      if shared then
        s\<lparr>caching := free_nodes n, shards := empty_shards S, free_head := (if n = 0 then NULL else 0)\<rparr>
      else s\<lparr>caching := block_nodes S (n div S), shards := block_shards S (n div S)\<rparr>)"

definition lru_remove ::
    "bool \<Rightarrow> ('k \<Rightarrow> u64) \<Rightarrow> lru_env \<Rightarrow> ('k, 'v) lru_hooks \<Rightarrow> 'k \<Rightarrow> ('k, 'v) lru \<Rightarrow> 'v option \<times> ('k, 'v) lru" where
  "lru_remove shared hash env h k s =
     (case mapping s k of
        None \<Rightarrow> (None, s)
      | Some i \<Rightarrow>
          let s = s\<lparr>mapping := (mapping s)(k := None)\<rparr>;
              v = n_val (caching s ! i);
              s = (if shared
                   then free_push i (unlink_inside_lock (get_shard_idx hash s k) i
                          (s\<lparr>caching := set_entry i None None (caching s)\<rparr>))
                   else s)
          in (v, case v of Some v \<Rightarrow> persist_point env h k v s | None \<Rightarrow> s))"

section \<open>Reading through\<close>

text \<open>The newest stored point that decodes and passes validation.\<close>

fun newest_valid ::
    "(bytes \<Rightarrow> 'v option) \<Rightarrow> ('v \<Rightarrow> bool) \<Rightarrow> point list \<Rightarrow> 'v option" where
  "newest_valid dec valid [] = None"
| "newest_valid dec valid ((_, bs) # pts) =
     (case dec bs of
        Some v \<Rightarrow> if valid v then Some v else newest_valid dec valid pts
      | None \<Rightarrow> newest_valid dec valid pts)"

definition from_disk :: "('k, 'v) lru_hooks \<Rightarrow> 'k \<Rightarrow> u64 \<Rightarrow> u64 \<Rightarrow> 'v option" where
  "from_disk h k from_ts to_ts =
     (case (timeseries h, ts_series_of h, decode h, validate h) of
        (Some rng, Some series_of, Some dec, Some valid) \<Rightarrow>
          (case rng (series_of k) from_ts to_ts of
             Inr pts \<Rightarrow> newest_valid dec (\<lambda>v. valid k v from_ts to_ts) (rev pts)
           | Inl _ \<Rightarrow> None)
      | _ \<Rightarrow> None)"

definition get_with_load ::
    "bool \<Rightarrow> ('k \<Rightarrow> u64) \<Rightarrow> lru_env \<Rightarrow> ('k, 'v) lru_hooks \<Rightarrow> 'k \<Rightarrow> u64 \<Rightarrow> u64 \<Rightarrow> ('k, 'v) lru
     \<Rightarrow> 'v option \<times> ('k, 'v) lru" where
  "get_with_load shared hash env h k from_ts to_ts s =
     (let (hit, s) = lru_get hash env k s in
      case (case hit of
              Some v \<Rightarrow> (case validate h of None \<Rightarrow> True | Some valid \<Rightarrow> valid k v from_ts to_ts)
            | None \<Rightarrow> False) of
        True \<Rightarrow> (hit, s)
      | False \<Rightarrow>
        (case from_disk h k from_ts to_ts of
           Some v \<Rightarrow> (Some v, lru_put shared hash env h k v s)
         | None \<Rightarrow>
           (case fallback h of
              None \<Rightarrow> (None, s)
            | Some fetch \<Rightarrow>
                let (cached, s) = lru_get hash env k s in
                (case (case (coverage_gap h, cached) of
                         (Some gap, Some v) \<Rightarrow> gap k v from_ts to_ts
                       | _ \<Rightarrow> Some (from_ts, to_ts)) of
                   None \<Rightarrow> (cached, s)
                 | Some (f, t) \<Rightarrow>
                     (case fetch k f t of
                        Inl _ \<Rightarrow> (cached, s)
                      | Inr v \<Rightarrow>
                          let merged = (case (ts_merge h, cached) of
                                (Some mrg, Some c) \<Rightarrow> mrg c v | _ \<Rightarrow> v)
                          in (Some merged, persist_point env h k merged (lru_put shared hash env h k merged s)))))))"

end
