(* ===== verification/Lru_Refine.thy ===== *)
theory Lru_Refine
  imports Lru
begin

text \<open>
  The cache with the shared arena implements lists of entries, most recently used first: the
  linked lists of the arena represent them (\<open>lru_rep\<close>), and every operation acts on them as its
  abstract counterpart does. The first part is about doubly linked lists in an array.
\<close>

section \<open>Linked lists in the arena\<close>

definition nx :: "('k, 'v) lru_node list \<Rightarrow> nat \<Rightarrow> nat" where "nx c i = nxt (c ! i)"

definition pv :: "('k, 'v) lru_node list \<Rightarrow> nat \<Rightarrow> nat" where "pv c i = prv (c ! i)"

definition entry :: "('k, 'v) lru_node list \<Rightarrow> nat \<Rightarrow> 'k option \<times> 'v option" where
  "entry c i = (n_key (c ! i), n_val (c ! i))"

lemma set_next_views:
  "(i < length c \<longrightarrow> nx (set_next i n c) j = (if j = i then n else nx c j))
   \<and> pv (set_next i n c) j = pv c j \<and> entry (set_next i n c) j = entry c j
   \<and> length (set_next i n c) = length c"
  by (cases "i < length c") (simp_all add: nx_def pv_def entry_def set_next_def nth_list_update not_less list_update_beyond)

lemma set_prev_views:
  "nx (set_prev i p c) j = nx c j \<and> (i < length c \<longrightarrow> pv (set_prev i p c) j = (if j = i then p else pv c j))
   \<and> entry (set_prev i p c) j = entry c j \<and> length (set_prev i p c) = length c"
  by (cases "i < length c") (simp_all add: nx_def pv_def entry_def set_prev_def nth_list_update not_less list_update_beyond)

lemma set_entry_views:
  "nx (set_entry i k v c) j = nx c j \<and> pv (set_entry i k v c) j = pv c j
   \<and> (i < length c \<longrightarrow> entry (set_entry i k v c) j = (if j = i then (k, v) else entry c j))
   \<and> length (set_entry i k v c) = length c"
  by (cases "i < length c") (simp_all add: nx_def pv_def entry_def set_entry_def nth_list_update not_less list_update_beyond)

lemma node_views [simp]:
  "i < length c \<Longrightarrow> nx (set_next i n c) j = (if j = i then n else nx c j)"
  "pv (set_next i n c) j = pv c j" "entry (set_next i n c) j = entry c j"
  "length (set_next i n c) = length c"
  "nx (set_prev i n c) j = nx c j" "i < length c \<Longrightarrow> pv (set_prev i n c) j = (if j = i then n else pv c j)"
  "entry (set_prev i n c) j = entry c j" "length (set_prev i n c) = length c"
  "nx (set_entry i k v c) j = nx c j" "pv (set_entry i k v c) j = pv c j"
  "i < length c \<Longrightarrow> entry (set_entry i k v c) j = (if j = i then (k, v) else entry c j)"
  "length (set_entry i k v c) = length c"
  using set_next_views [of i c n j] set_prev_views [of i n c j] set_entry_views [of i k v c j] by blast+

definition hd0 :: "nat list \<Rightarrow> nat \<Rightarrow> nat" where
  "hd0 xs q = (case xs of [] \<Rightarrow> q | x # _ \<Rightarrow> x)"

definition last0 :: "nat \<Rightarrow> nat list \<Rightarrow> nat" where
  "last0 p xs = (if xs = [] then p else last xs)"

lemma hd0_simps [simp]: "hd0 [] q = q" "hd0 (x # xs) q = x"
  by (simp_all add: hd0_def)

lemma hd0_append [simp]: "hd0 (xs @ ys) q = hd0 xs (hd0 ys q)"
  by (cases xs) simp_all

lemma last0_simps [simp]: "last0 p [] = p" "last0 p (x # xs) = last0 x xs"
  by (simp_all add: last0_def)

lemma last0_append [simp]: "last0 p (xs @ ys) = last0 (last0 p xs) ys"
  by (induction xs arbitrary: p) simp_all

text \<open>\<open>dseg c p xs q\<close>: the nodes \<open>xs\<close> are linked both ways, after \<open>p\<close> and before \<open>q\<close>.\<close>

fun dseg :: "('k, 'v) lru_node list \<Rightarrow> nat \<Rightarrow> nat list \<Rightarrow> nat \<Rightarrow> bool" where
  "dseg c p [] q = True"
| "dseg c p (x # xs) q = (pv c x = p \<and> nx c x = hd0 xs q \<and> dseg c x xs q)"

lemma dseg_append: "dseg c p (xs @ ys) q \<longleftrightarrow> dseg c p xs (hd0 ys q) \<and> dseg c (last0 p xs) ys q"
  by (induction xs arbitrary: p) auto

lemma dseg_cong:
  "(\<And>x. x \<in> set xs \<Longrightarrow> nx c' x = nx c x \<and> pv c' x = pv c x) \<Longrightarrow> dseg c' p xs q = dseg c p xs q"
  by (induction xs arbitrary: p) auto

lemma dseg_set_next_other: "i \<notin> set xs \<Longrightarrow> i < length c \<Longrightarrow> dseg (set_next i n c) p xs q = dseg c p xs q"
  by (rule dseg_cong) auto

lemma dseg_set_prev_other: "i \<notin> set xs \<Longrightarrow> i < length c \<Longrightarrow> dseg (set_prev i n c) p xs q = dseg c p xs q"
  by (rule dseg_cong) auto

lemma dseg_set_entry [simp]: "dseg (set_entry i k v c) p xs q = dseg c p xs q"
  by (rule dseg_cong) auto

lemmas dseg_frame = dseg_set_next_other dseg_set_prev_other

lemma dseg_relink_last:
  assumes "dseg c p xs q" and "distinct xs" and "set xs \<subseteq> {..<length c}" and "xs \<noteq> []"
  shows "dseg (set_next (last xs) n c) p xs n"
  using assms
proof (induction xs arbitrary: p)
  case (Cons x xs)
  show ?case
  proof (cases "xs = []")
    case True
    with Cons.prems show ?thesis by simp
  next
    case False
    then have "last xs \<noteq> x" using Cons.prems(2) last_in_set by fastforce
    moreover have "last xs < length c" using Cons.prems(3) False last_in_set by fastforce
    moreover have "hd0 xs n = hd0 xs q" using False by (cases xs) auto
    ultimately show ?thesis using Cons False by simp
  qed
qed simp

lemma dseg_relink_first:
  "dseg c p (x # xs) q \<Longrightarrow> x \<notin> set xs \<Longrightarrow> x < length c \<Longrightarrow> dseg (set_prev x m c) m (x # xs) q"
  by (simp add: dseg_frame)

text \<open>Cutting a node out of its list, as both list operations do first.\<close>

definition cut :: "nat \<Rightarrow> ('k, 'v) lru_node list \<Rightarrow> ('k, 'v) lru_node list" where
  "cut i c =
     (let p = pv c i; n = nx c i;
          c = (if p \<noteq> NULL then set_next p n c else c)
      in if n \<noteq> NULL then set_prev n p c else c)"

lemma cut_links:
  assumes d: "dseg c NULL (xs @ i # ys) NULL" and dist: "distinct (xs @ i # ys)"
    and bound: "set (xs @ i # ys) \<subseteq> {..<length c}" "length c \<le> NULL"
  shows "dseg (cut i c) NULL (xs @ ys) NULL"
    and "\<And>j. j \<notin> set (xs @ ys) \<Longrightarrow> nx (cut i c) j = nx c j \<and> pv (cut i c) j = pv c j"
    and "\<And>j. entry (cut i c) j = entry c j" and "length (cut i c) = length c"
proof -
  let ?p = "last0 NULL xs" and ?n = "hd0 ys NULL"
  have links: "pv c i = ?p" "nx c i = ?n" and dx: "dseg c NULL xs i" and dy: "dseg c i ys NULL"
    using d by (auto simp: dseg_append)
  let ?c = "if ?p \<noteq> NULL then set_next ?p ?n c else c"
  have cut: "cut i c = (if ?n \<noteq> NULL then set_prev ?n ?p ?c else ?c)"
    by (simp add: cut_def links Let_def)
  have mem: "j < length c \<and> j \<noteq> NULL" if "j \<in> set (xs @ i # ys)" for j
    using subsetD [OF bound(1) that] bound(2) by auto
  have px: "xs \<noteq> [] \<Longrightarrow> last xs \<in> set xs \<and> last xs < length c \<and> last xs \<noteq> NULL"
    using mem [of "last xs"] by simp
  have ny: "ys \<noteq> [] \<Longrightarrow> hd ys \<in> set ys \<and> hd ys < length c \<and> hd ys \<noteq> NULL"
    using mem [of "hd ys"] by simp
  have pn: "?p = NULL \<longleftrightarrow> xs = []" "?n = NULL \<longleftrightarrow> ys = []"
    using px ny by (auto simp: last0_def hd0_def split: list.splits)
  have inter: "set xs \<inter> set ys = {}" using dist by auto
  have d1: "dseg ?c NULL xs ?n"
  proof (cases "xs = []")
    case False
    then show ?thesis using dseg_relink_last [OF dx, of ?n] px pn dist bound by (simp add: last0_def)
  qed simp
  have d2: "dseg ?c i ys NULL"
  proof (cases "xs = []")
    case False
    then have "last xs \<notin> set ys" using px inter by blast
    then show ?thesis using False dy px pn by (simp add: last0_def dseg_set_next_other)
  qed (simp add: dy)
  show "dseg (cut i c) NULL (xs @ ys) NULL"
  proof (cases ys)
    case Nil
    then show ?thesis using d1 by (simp add: cut)
  next
    case (Cons y zs)
    then have y: "y \<noteq> NULL" "y < length ?c" "y \<notin> set xs" "y \<notin> set zs" using ny inter dist by auto
    have "dseg (set_prev y ?p ?c) ?p (y # zs) NULL"
      using d2 y Cons by (intro dseg_relink_first [of _ i]) auto
    moreover have "dseg (set_prev y ?p ?c) NULL xs y"
      using d1 y Cons by (simp add: dseg_set_prev_other)
    ultimately show ?thesis using Cons y by (simp add: cut dseg_append)
  qed
  show "nx (cut i c) j = nx c j \<and> pv (cut i c) j = pv c j" if "j \<notin> set (xs @ ys)" for j
    using that px ny pn unfolding cut by (auto simp: last0_def hd0_def split: list.splits)
  show "entry (cut i c) j = entry c j" for j by (simp add: cut)
  show "length (cut i c) = length c" by (simp add: cut)
qed

lemma cut_outside:
  "dseg c NULL (xs @ i # ys) NULL \<Longrightarrow> distinct (xs @ i # ys) \<Longrightarrow> set (xs @ i # ys) \<subseteq> {..<length c}
   \<Longrightarrow> length c \<le> NULL \<Longrightarrow> j \<notin> set (xs @ i # ys) \<Longrightarrow> nx (cut i c) j = nx c j \<and> pv (cut i c) j = pv c j"
  using cut_links(2) [of c xs i ys j] by simp

section \<open>The structure of the arena\<close>

definition shard_ok :: "('k, 'v) lru_node list \<Rightarrow> head_tail \<Rightarrow> nat list \<Rightarrow> bool" where
  "shard_ok c ht xs \<longleftrightarrow> dseg c NULL xs NULL \<and> ht_first ht = hd0 xs NULL \<and> ht_last ht = last0 NULL xs"

fun fchain :: "('k, 'v) lru_node list \<Rightarrow> nat \<Rightarrow> nat list \<Rightarrow> bool" where
  "fchain c h [] = (h = NULL)"
| "fchain c h (x # xs) = (h = x \<and> pv c x = NULL \<and> fchain c (nx c x) xs)"

lemma fchain_cong:
  "(\<And>x. x \<in> set xs \<Longrightarrow> nx c' x = nx c x \<and> pv c' x = pv c x) \<Longrightarrow> fchain c' h xs = fchain c h xs"
  by (induction xs arbitrary: h) auto

lemma shard_ok_cong:
  "(\<And>x. x \<in> set xs \<Longrightarrow> nx c' x = nx c x \<and> pv c' x = pv c x) \<Longrightarrow> shard_ok c' ht xs = shard_ok c ht xs"
  unfolding shard_ok_def using dseg_cong by blast

text \<open>Every shard a doubly linked list, the free nodes a chain, nothing shared.\<close>

definition arena ::
    "('k, 'v) lru_node list \<Rightarrow> head_tail list \<Rightarrow> nat \<Rightarrow> nat list list \<Rightarrow> nat list \<Rightarrow> bool" where
  "arena c hts fh ls fl \<longleftrightarrow>
     length hts = length ls \<and> length c \<le> NULL \<and> fchain c fh fl \<and> distinct fl \<and> set fl \<subseteq> {..<length c}
     \<and> (\<forall>a < length ls. shard_ok c (hts ! a) (ls ! a) \<and> distinct (ls ! a) \<and> set (ls ! a) \<subseteq> {..<length c}
          \<and> set fl \<inter> set (ls ! a) = {})
     \<and> (\<forall>a < length ls. \<forall>b < length ls. a \<noteq> b \<longrightarrow> set (ls ! a) \<inter> set (ls ! b) = {})"

lemma arenaD:
  assumes "arena c hts fh ls fl" and "a < length ls"
  shows "shard_ok c (hts ! a) (ls ! a)" "distinct (ls ! a)" "set (ls ! a) \<subseteq> {..<length c}"
    "set fl \<inter> set (ls ! a) = {}" "\<And>b. b < length ls \<Longrightarrow> a \<noteq> b \<Longrightarrow> set (ls ! a) \<inter> set (ls ! b) = {}"
    "dseg c NULL (ls ! a) NULL" "ht_first (hts ! a) = hd0 (ls ! a) NULL" "ht_last (hts ! a) = last0 NULL (ls ! a)"
  using assms unfolding arena_def shard_ok_def by auto

lemma arena_free:
  assumes "arena c hts fh ls fl"
  shows "length hts = length ls" "length c \<le> NULL" "fchain c fh fl" "distinct fl" "set fl \<subseteq> {..<length c}"
  using assms unfolding arena_def by auto

lemma arena_update:
  assumes ar: "arena c hts fh ls fl" and sh: "sh < length ls" and len: "length c' = length c"
    and new: "shard_ok c' ht xs" "distinct xs" "set xs \<subseteq> {..<length c}"
    and other: "\<And>b. b < length ls \<Longrightarrow> b \<noteq> sh \<Longrightarrow> set xs \<inter> set (ls ! b) = {}"
    and same: "\<And>b j. b < length ls \<Longrightarrow> b \<noteq> sh \<Longrightarrow> j \<in> set (ls ! b) \<Longrightarrow> nx c' j = nx c j \<and> pv c' j = pv c j"
    and free: "fchain c' fh' fl'" "distinct fl'" "set fl' \<subseteq> {..<length c}" "set fl' \<inter> set xs = {}"
      "\<And>b. b < length ls \<Longrightarrow> b \<noteq> sh \<Longrightarrow> set fl' \<inter> set (ls ! b) = {}"
  shows "arena c' (hts[sh := ht]) fh' (ls[sh := xs]) fl'"
proof -
  have keep: "shard_ok c' (hts ! b) (ls ! b)" if "b < length ls" "b \<noteq> sh" for b
    using arenaD(1) [OF ar that(1)] same [OF that] shard_ok_cong [of "ls ! b" c' c] by blast
  have each: "shard_ok c' (hts[sh := ht] ! a) (ls[sh := xs] ! a) \<and> distinct (ls[sh := xs] ! a)
      \<and> set (ls[sh := xs] ! a) \<subseteq> {..<length c'} \<and> set fl' \<inter> set (ls[sh := xs] ! a) = {}"
    if "a < length ls" for a
  proof (cases "a = sh")
    case True
    then show ?thesis using sh new free arena_free(1) [OF ar] len by simp
  next
    case False
    then show ?thesis using keep that free(5) arenaD(2,3) [OF ar that] len by simp
  qed
  have dis: "set (ls[sh := xs] ! a) \<inter> set (ls[sh := xs] ! b) = {}"
    if "a < length ls" "b < length ls" "a \<noteq> b" for a b
    using arenaD(5) [OF ar that(1,2,3)] other [OF that(1)] other [OF that(2)] that sh
    by (cases "a = sh"; cases "b = sh") (auto simp: Int_commute)
  show ?thesis
    unfolding arena_def using each dis free arena_free(1,2) [OF ar] len by simp
qed

lemma head_tail_updates:
  "ht\<lparr>ht_first := f\<rparr> = \<lparr>ht_first = f, ht_last = ht_last ht\<rparr>"
  "ht\<lparr>ht_last := l\<rparr> = \<lparr>ht_first = ht_first ht, ht_last = l\<rparr>"
  "\<lparr>ht_first = ht_first ht, ht_last = ht_last ht\<rparr> = ht"
  by simp_all

lemma unlink_cut:
  "caching (unlink_inside_lock sh i s) = set_next i NULL (set_prev i NULL (cut i (caching s)))"
  "mapping (unlink_inside_lock sh i s) = mapping s" "free_head (unlink_inside_lock sh i s) = free_head s"
  "shard_mask (unlink_inside_lock sh i s) = shard_mask s"
  "shards (unlink_inside_lock sh i s) = (shards s)[sh :=
     \<lparr>ht_first = (if pv (caching s) i = NULL then nx (caching s) i else ht_first (shards s ! sh)),
      ht_last = (if nx (caching s) i = NULL then pv (caching s) i else ht_last (shards s ! sh))\<rparr>]"
  by (simp_all add: unlink_inside_lock_def cut_def nx_def pv_def Let_def head_tail_updates)

lemma split_shard:
  assumes "arena c hts fh ls fl" and "sh < length ls" and "ls ! sh = xs @ i # ys"
  shows "pv c i = last0 NULL xs" "nx c i = hd0 ys NULL" "i < length c" "i \<noteq> NULL"
    "last0 NULL xs = NULL \<longleftrightarrow> xs = []" "hd0 ys NULL = NULL \<longleftrightarrow> ys = []"
proof -
  note facts = arenaD [OF assms(1,2)] arena_free(2) [OF assms(1)]
  have b: "j < length c" "j \<noteq> NULL" if "j \<in> set (xs @ i # ys)" for j
    using facts that assms(3) by auto
  show "pv c i = last0 NULL xs" "nx c i = hd0 ys NULL" using facts(6) assms(3) by (auto simp: dseg_append)
  show "i < length c" "i \<noteq> NULL" using b [of i] by simp_all
  show "last0 NULL xs = NULL \<longleftrightarrow> xs = []" using b [of "last xs"] by (auto simp: last0_def)
  show "hd0 ys NULL = NULL \<longleftrightarrow> ys = []" using b [of "hd ys"] by (cases ys) auto
qed

lemma unlink_arena:
  assumes ar: "arena (caching s) (shards s) (free_head s) ls fl" and sh: "sh < length ls"
    and at: "ls ! sh = xs @ i # ys"
  defines "s' \<equiv> unlink_inside_lock sh i s"
  shows "arena (caching s') (shards s') (free_head s') (ls[sh := xs @ ys]) fl"
    and "nx (caching s') i = NULL" "pv (caching s') i = NULL"
    and "\<And>j. entry (caching s') j = entry (caching s) j" "length (caching s') = length (caching s)"
proof -
  let ?c = "caching s"
  note fr = arena_free [OF ar] and sd = arenaD [OF ar sh] and sp = split_shard [OF ar sh at]
  note pre = sd(6) [unfolded at] sd(2) [unfolded at] sd(3) [unfolded at] fr(2)
  note cl = cut_links [OF pre]
  have c': "caching s' = set_next i NULL (set_prev i NULL (cut i ?c))" by (simp add: s'_def unlink_cut)
  have i: "i \<notin> set (xs @ ys)" "i < length (cut i ?c)" using pre(2) sp(3) cl(4) by simp_all
  have same: "nx (caching s') j = nx ?c j \<and> pv (caching s') j = pv ?c j" if "j \<notin> set (ls ! sh)" for j
    using cut_outside [OF pre, of j] that at i by (auto simp: c')
  have "dseg (caching s') NULL (xs @ ys) NULL"
    using cl(1) i by (simp add: c' dseg_frame)
  then have ok: "shard_ok (caching s') \<lparr>ht_first = (if pv ?c i = NULL then nx ?c i else ht_first (shards s ! sh)),
      ht_last = (if nx ?c i = NULL then pv ?c i else ht_last (shards s ! sh))\<rparr> (xs @ ys)"
    using sp sd(7,8) at by (cases xs; cases ys) (auto simp: shard_ok_def last0_def)
  have freeok: "fchain (caching s') (free_head s) fl"
    using fr(3) fchain_cong [of fl "caching s'" ?c] same sd(4) by blast
  have "arena (caching s') ((shards s)[sh := \<lparr>ht_first = (if pv ?c i = NULL then nx ?c i else ht_first (shards s ! sh)),
      ht_last = (if nx ?c i = NULL then pv ?c i else ht_last (shards s ! sh))\<rparr>]) (free_head s) (ls[sh := xs @ ys]) fl"
  proof (rule arena_update [OF ar sh _ ok])
    show "length (caching s') = length ?c" using cl(4) by (simp add: c')
    show "distinct (xs @ ys)" "set (xs @ ys) \<subseteq> {..<length ?c}" "set fl \<inter> set (xs @ ys) = {}"
      using pre sd(4) at by auto
    show "set (xs @ ys) \<inter> set (ls ! b) = {}" if "b < length ls" "b \<noteq> sh" for b
      using sd(5) [OF that(1)] that at by auto
    show "nx (caching s') j = nx ?c j \<and> pv (caching s') j = pv ?c j"
      if "b < length ls" "b \<noteq> sh" "j \<in> set (ls ! b)" for b j
      using same sd(5) [OF that(1)] that by blast
    show "set fl \<inter> set (ls ! b) = {}" if "b < length ls" "b \<noteq> sh" for b
      using arenaD(4) [OF ar that(1)] .
  qed (use freeok fr in auto)
  then show "arena (caching s') (shards s') (free_head s') (ls[sh := xs @ ys]) fl"
    by (simp add: s'_def unlink_cut)
  show "nx (caching s') i = NULL" "pv (caching s') i = NULL"
    and "\<And>j. entry (caching s') j = entry ?c j" "length (caching s') = length ?c"
    using i cl(3,4) by (simp_all add: c')
qed

text \<open>Linking a node that is in no list in front of one; both list operations end this way.\<close>

definition front :: "nat \<Rightarrow> nat \<Rightarrow> ('k, 'v) lru_node list \<Rightarrow> ('k, 'v) lru_node list" where
  "front i f c = (let c = set_prev i NULL (set_next i f c) in if f \<noteq> NULL then set_prev f i c else c)"

lemma front_links:
  assumes d: "dseg c NULL xs NULL" and dist: "distinct (i # xs)"
    and bound: "set (i # xs) \<subseteq> {..<length c}" "length c \<le> NULL"
  shows "dseg (front i (hd0 xs NULL) c) NULL (i # xs) NULL"
    and "\<And>j. j \<notin> set (i # xs) \<Longrightarrow> nx (front i (hd0 xs NULL) c) j = nx c j \<and> pv (front i (hd0 xs NULL) c) j = pv c j"
    and "\<And>j. entry (front i (hd0 xs NULL) c) j = entry c j" "length (front i (hd0 xs NULL) c) = length c"
proof -
  have x: "x < length c" "x \<noteq> NULL" "x \<noteq> i" "x \<notin> set ys" "i \<notin> set ys" if "xs = x # ys" for x ys
    using that bound dist by auto
  show "dseg (front i (hd0 xs NULL) c) NULL (i # xs) NULL"
  proof (cases xs)
    case Nil
    then show ?thesis using bound by (simp add: front_def)
  next
    case (Cons y ys)
    then show ?thesis using x [OF Cons] d bound by (simp add: front_def dseg_frame)
  qed
  show "nx (front i (hd0 xs NULL) c) j = nx c j \<and> pv (front i (hd0 xs NULL) c) j = pv c j" if "j \<notin> set (i # xs)" for j
    using that x bound by (cases xs) (simp_all add: front_def)
  show "entry (front i (hd0 xs NULL) c) j = entry c j" for j by (simp add: front_def Let_def)
  show "length (front i (hd0 xs NULL) c) = length c" by (simp add: front_def Let_def)
qed

text \<open>A node of no list of the arena is put in front of the list of a shard.\<close>

lemma front_arena:
  assumes ar: "arena c hts fh ls fl" and sh: "sh < length ls"
    and i: "i < length c" "i \<notin> set fl" "\<And>b. b < length ls \<Longrightarrow> i \<notin> set (ls ! b)"
    and last: "l = last0 i (ls ! sh)"
  shows "arena (front i (hd0 (ls ! sh) NULL) c) (hts[sh := \<lparr>ht_first = i, ht_last = l\<rparr>]) fh (ls[sh := i # ls ! sh]) fl"
proof -
  note fr = arena_free [OF ar] and sd = arenaD [OF ar sh]
  let ?c = "front i (hd0 (ls ! sh) NULL) c"
  have pre: "distinct (i # ls ! sh)" "set (i # ls ! sh) \<subseteq> {..<length c}" using sd(2,3) i sh by simp_all
  note fl = front_links [OF sd(6) pre fr(2)]
  have same: "nx ?c j = nx c j \<and> pv ?c j = pv c j" if "j \<noteq> i" "j \<notin> set (ls ! sh)" for j
    using fl(2) [of j] that by simp
  have ok: "shard_ok ?c \<lparr>ht_first = i, ht_last = l\<rparr> (i # ls ! sh)" using fl(1) last by (simp add: shard_ok_def)
  have "fchain ?c fh fl = fchain c fh fl"
    using sd(4) i(2) by (intro fchain_cong same) auto
  then have "fchain ?c fh fl" using fr(3) by simp
  moreover have "nx ?c j = nx c j \<and> pv ?c j = pv c j" if "b < length ls" "b \<noteq> sh" "j \<in> set (ls ! b)" for b j
    using same [of j] i(3) [OF that(1)] sd(5) [OF that(1)] that by blast
  moreover have "set (i # ls ! sh) \<inter> set (ls ! b) = {}" if "b < length ls" "b \<noteq> sh" for b
    using i(3) [OF that(1)] sd(5) [OF that(1)] that by auto
  moreover have "set fl \<inter> set (i # ls ! sh) = {}" using sd(4) i(2) by simp
  ultimately show ?thesis
    using arena_update [OF ar sh fl(4) ok pre] fr(4,5) arenaD(4) [OF ar] by blast
qed

lemma move_to_front_cut:
  assumes "ht_first (shards s ! sh) \<noteq> i" "ht_first (shards s ! sh) \<noteq> NULL"
  shows "move_to_front_inside_lock sh i s =
    s\<lparr>caching := front i (ht_first (shards s ! sh)) (cut i (caching s)),
      shards := (shards s)[sh := \<lparr>ht_first = i,
        ht_last = (if i = ht_last (shards s ! sh) then pv (caching s) i else ht_last (shards s ! sh))\<rparr>]\<rparr>"
  using assms by (simp add: move_to_front_inside_lock_def front_def cut_def nx_def pv_def Let_def)

lemma front_forgets_links:
  "i < length c \<Longrightarrow> f \<noteq> i \<Longrightarrow> front i f (set_next i n (set_prev i p c)) = front i f c"
  by (simp add: front_def set_next_def set_prev_def Let_def list_update_swap)

lemma move_to_front_arena:
  assumes ar: "arena (caching s) (shards s) (free_head s) ls fl" and sh: "sh < length ls"
    and at: "ls ! sh = xs @ i # ys"
  defines "s' \<equiv> move_to_front_inside_lock sh i s"
  shows "arena (caching s') (shards s') (free_head s') (ls[sh := i # xs @ ys]) fl"
    and "\<And>j. entry (caching s') j = entry (caching s) j" "length (caching s') = length (caching s)"
proof -
  note sp = split_shard [OF ar sh at] and sd = arenaD [OF ar sh] and u = unlink_arena [OF ar sh at]
  let ?u = "unlink_inside_lock sh i s"
  have at': "ls[sh := xs @ ys] ! sh = xs @ ys" and sh': "sh < length (ls[sh := xs @ ys])" using sh by simp_all
  have i: "i \<notin> set fl" "i \<notin> set (xs @ ys)" using sd(2,4) at by auto
  have out: "i \<notin> set (ls[sh := xs @ ys] ! b)" if "b < length (ls[sh := xs @ ys])" for b
    using sd(5) [of b] that i at by (cases "b = sh") auto
  have "arena (caching s') (shards s') (free_head s') (ls[sh := i # xs @ ys]) fl
    \<and> (\<forall>j. entry (caching s') j = entry (caching s) j) \<and> length (caching s') = length (caching s)"
  proof (cases xs)
    case Nil
    then have "s' = s" using sd(7) at by (simp add: s'_def move_to_front_inside_lock_def Let_def)
    moreover have "ls[sh := i # xs @ ys] = ls" using Nil at list_update_id [of ls sh] by simp
    ultimately show ?thesis using ar by simp
  next
    case (Cons x zs)
    then have f: "ht_first (shards s ! sh) = x" "x \<noteq> i" "x \<noteq> NULL"
      using sd(7) at i arena_free(2) [OF ar] sd(3) by auto
    have l: "(if i = ht_last (shards s ! sh) then pv (caching s) i else ht_last (shards s ! sh)) = last0 i (xs @ ys)"
      using sd(2,8) at sp(1) Cons i by (cases ys) (auto simp: last0_def)
    have "front i x (cut i (caching s)) = front i x (caching ?u)"
      using f(2) sp(3) cut_links(4) [OF sd(6) [unfolded at] sd(2) [unfolded at] sd(3) [unfolded at] arena_free(2) [OF ar]]
      by (simp add: unlink_cut front_forgets_links)
    then have s': "s' = s\<lparr>caching := front i x (caching ?u), shards := (shards s)[sh := \<lparr>ht_first = i, ht_last = last0 i (xs @ ys)\<rparr>]\<rparr>"
      using f l by (simp add: s'_def move_to_front_cut)
    have "arena (front i (hd0 (xs @ ys) NULL) (caching ?u)) ((shards ?u)[sh := \<lparr>ht_first = i, ht_last = last0 i (xs @ ys)\<rparr>])
        (free_head ?u) ((ls[sh := xs @ ys])[sh := i # xs @ ys]) fl"
      using front_arena [OF u(1) sh' _ i(1) out refl] sp(3) u(5) unfolding at' by simp
    moreover have "entry (front i x (caching ?u)) j = entry (caching s) j" for j
      using u(4) by (simp add: front_def Let_def)
    moreover have "length (front i x (caching ?u)) = length (caching s)"
      using u(5) by (simp add: front_def Let_def)
    ultimately show ?thesis using Cons by (simp add: s' unlink_cut)
  qed
  then show "arena (caching s') (shards s') (free_head s') (ls[sh := i # xs @ ys]) fl"
    and "\<And>j. entry (caching s') j = entry (caching s) j" "length (caching s') = length (caching s)" by blast+
qed

lemma arena_free_pop:
  assumes ar: "arena c hts fh ls (i # fl)"
  shows "fh = i" "i \<noteq> NULL" "i < length c" "i \<notin> set fl" "\<And>b. b < length ls \<Longrightarrow> i \<notin> set (ls ! b)"
    and "arena (set_next i NULL c) hts (nx c i) ls fl" "pv c i = NULL"
proof -
  note fr = arena_free [OF ar]
  show i: "fh = i" "i < length c" "i \<notin> set fl" "i \<noteq> NULL" "pv c i = NULL" using fr by auto
  show out: "i \<notin> set (ls ! b)" if "b < length ls" for b using arenaD(4) [OF ar that] by auto
  have "fchain (set_next i NULL c) (nx c i) fl = fchain c (nx c i) fl"
    by (rule fchain_cong) (use i in auto)
  moreover have "shard_ok (set_next i NULL c) (hts ! b) (ls ! b)" if "b < length ls" for b
  proof -
    have "shard_ok (set_next i NULL c) (hts ! b) (ls ! b) = shard_ok c (hts ! b) (ls ! b)"
      by (rule shard_ok_cong) (use i out [OF that] in auto)
    then show ?thesis using arenaD(1) [OF ar that] by simp
  qed
  ultimately show "arena (set_next i NULL c) hts (nx c i) ls fl"
    using ar by (simp add: arena_def)
qed

lemma arena_free_push:
  assumes ar: "arena c hts fh ls fl" and i: "i < length c" "i \<notin> set fl" "pv c i = NULL"
    and out: "\<And>b. b < length ls \<Longrightarrow> i \<notin> set (ls ! b)"
  shows "arena (set_next i fh c) hts i ls (i # fl)"
proof -
  have "fchain (set_next i fh c) fh fl = fchain c fh fl"
    by (rule fchain_cong) (use i in auto)
  moreover have "shard_ok (set_next i fh c) (hts ! b) (ls ! b)" if "b < length ls" for b
  proof -
    have "shard_ok (set_next i fh c) (hts ! b) (ls ! b) = shard_ok c (hts ! b) (ls ! b)"
      by (rule shard_ok_cong) (use i out [OF that] in auto)
    then show ?thesis using arenaD(1) [OF ar that] by simp
  qed
  ultimately show ?thesis using ar i out by (simp add: arena_def)
qed

lemma arena_set_entry: "arena c hts fh ls fl \<Longrightarrow> arena (set_entry i k v c) hts fh ls fl"
  unfolding arena_def shard_ok_def using fchain_cong [of fl "set_entry i k v c" c fh] by simp

section \<open>Entries\<close>

definition kv :: "('k, 'v) lru_node list \<Rightarrow> nat \<Rightarrow> 'k \<times> 'v" where
  "kv c i = (the (fst (entry c i)), the (snd (entry c i)))"

definition lru_abs :: "('k, 'v) lru_node list \<Rightarrow> nat list list \<Rightarrow> ('k \<times> 'v) list list" where
  "lru_abs c ls = map (map (kv c)) ls"

text \<open>The nodes of a shard hold entries of that shard, and the map leads to them.\<close>

definition holds ::
    "('k \<Rightarrow> nat) \<Rightarrow> ('k, 'v) lru_node list \<Rightarrow> ('k \<rightharpoonup> nat) \<Rightarrow> nat list list \<Rightarrow> bool" where
  "holds idx c m ls \<longleftrightarrow>
     (\<forall>a < length ls. \<forall>i \<in> set (ls ! a). \<exists>k v. entry c i = (Some k, Some v) \<and> idx k = a \<and> m k = Some i)
     \<and> (\<forall>k i. m k = Some i \<longrightarrow> idx k < length ls \<and> i \<in> set (ls ! idx k) \<and> fst (entry c i) = Some k)"

lemma holds_node:
  assumes "holds idx c m ls" and "a < length ls" and "i \<in> set (ls ! a)"
  obtains k v where "entry c i = (Some k, Some v)" "kv c i = (k, v)" "idx k = a" "m k = Some i"
proof -
  obtain k v where "entry c i = (Some k, Some v)" "idx k = a" "m k = Some i"
    using assms unfolding holds_def by blast
  then show ?thesis using that by (simp add: kv_def)
qed

lemma holds_map:
  "holds idx c m ls \<Longrightarrow> m k = Some i \<Longrightarrow> idx k < length ls \<and> i \<in> set (ls ! idx k) \<and> fst (entry c i) = Some k"
  unfolding holds_def by blast

lemma holds_update:
  assumes h: "holds idx c m ls" and sh: "sh < length ls"
    and new: "\<And>i. i \<in> set xs \<Longrightarrow> \<exists>k v. entry c' i = (Some k, Some v) \<and> idx k = sh \<and> m' k = Some i"
    and same: "\<And>b i. b < length ls \<Longrightarrow> b \<noteq> sh \<Longrightarrow> i \<in> set (ls ! b) \<Longrightarrow> entry c' i = entry c i"
    and mp: "\<And>k. idx k \<noteq> sh \<Longrightarrow> m' k = m k"
    and inv: "\<And>k i. idx k = sh \<Longrightarrow> m' k = Some i \<Longrightarrow> i \<in> set xs \<and> fst (entry c' i) = Some k"
  shows "holds idx c' m' (ls[sh := xs])"
  unfolding holds_def
proof (intro conjI allI impI ballI)
  fix a i assume a: "a < length (ls[sh := xs])" and i: "i \<in> set (ls[sh := xs] ! a)"
  show "\<exists>k v. entry c' i = (Some k, Some v) \<and> idx k = a \<and> m' k = Some i"
  proof (cases "a = sh")
    case True
    then show ?thesis using new i sh by simp
  next
    case False
    then have i': "i \<in> set (ls ! a)" and a': "a < length ls" using a i by simp_all
    obtain k v where "entry c i = (Some k, Some v)" "kv c i = (k, v)" "idx k = a" "m k = Some i"
      using holds_node [OF h a' i'] .
    then show ?thesis using same [OF a' False i'] mp [of k] False by simp
  qed
next
  fix k i assume m: "m' k = Some i"
  show "idx k < length (ls[sh := xs])"
    using holds_map [OF h] mp m sh by (cases "idx k = sh") auto
  show "i \<in> set (ls[sh := xs] ! idx k)" and "fst (entry c' i) = Some k"
    using holds_map [OF h, of k i] mp [of k] inv [of k i] same [of "idx k" i] m sh
    by (cases "idx k = sh"; simp)+
qed

lemma abs_update:
  assumes "\<And>b i. b < length ls \<Longrightarrow> b \<noteq> sh \<Longrightarrow> i \<in> set (ls ! b) \<Longrightarrow> entry c' i = entry c i"
  shows "lru_abs c' (ls[sh := xs]) = (lru_abs c ls)[sh := map (kv c') xs]"
proof (rule nth_equalityI)
  fix a assume "a < length (lru_abs c' (ls[sh := xs]))"
  then have "a < length ls" by (simp add: lru_abs_def)
  then show "lru_abs c' (ls[sh := xs]) ! a = (lru_abs c ls)[sh := map (kv c') xs] ! a"
    using assms by (cases "a = sh") (auto simp: lru_abs_def kv_def)
qed (simp add: lru_abs_def)

lemma holds_lookup:
  assumes h: "holds idx c m ls" and sh: "idx k < length ls" and dist: "distinct (ls ! idx k)"
  shows "m k = None \<Longrightarrow> k \<notin> fst ` set (lru_abs c ls ! idx k)"
    and "m k = Some i \<Longrightarrow> \<exists>xs ys v. ls ! idx k = xs @ i # ys \<and> entry c i = (Some k, Some v) \<and> kv c i = (k, v)
       \<and> k \<notin> fst ` set (map (kv c) (xs @ ys))"
proof -
  have key: "m (fst (kv c j)) = Some j" if "j \<in> set (ls ! idx k)" for j
    by (rule holds_node [OF h sh that]) simp
  show "k \<notin> fst ` set (lru_abs c ls ! idx k)" if "m k = None"
    using key that sh by (auto simp: lru_abs_def)
  show "\<exists>xs ys v. ls ! idx k = xs @ i # ys \<and> entry c i = (Some k, Some v) \<and> kv c i = (k, v)
       \<and> k \<notin> fst ` set (map (kv c) (xs @ ys))" if m: "m k = Some i"
  proof -
    have i: "i \<in> set (ls ! idx k)" "fst (entry c i) = Some k" using holds_map [OF h m] by blast+
    obtain v where v: "entry c i = (Some k, Some v)" "kv c i = (k, v)"
      by (rule holds_node [OF h sh i(1)]) (use i(2) in simp)
    obtain xs ys where at: "ls ! idx k = xs @ i # ys" using i(1) by (meson split_list)
    have "k \<notin> fst ` set (map (kv c) (xs @ ys))"
    proof
      assume "k \<in> fst ` set (map (kv c) (xs @ ys))"
      then obtain j where j: "j \<in> set (xs @ ys)" "fst (kv c j) = k" unfolding set_map by blast
      then have "j = i" using key [of j] m at by auto
      then show False using j(1) dist at by auto
    qed
    then show ?thesis using at v by blast
  qed
qed

section \<open>The abstract cache\<close>

text \<open>Per shard, the entries with the most recently used first.\<close>

type_synonym ('k, 'v) acache = "('k \<times> 'v) list list"

definition a_drop :: "'k \<Rightarrow> ('k \<times> 'v) list \<Rightarrow> ('k \<times> 'v) list" where
  "a_drop k xs = filter (\<lambda>e. fst e \<noteq> k) xs"

definition a_promote :: "'k \<Rightarrow> ('k \<times> 'v) list \<Rightarrow> ('k \<times> 'v) list" where
  "a_promote k xs = (case map_of xs k of None \<Rightarrow> xs | Some v \<Rightarrow> (k, v) # a_drop k xs)"

definition a_touch :: "bool \<Rightarrow> 'k \<Rightarrow> ('k \<times> 'v) list \<Rightarrow> ('k \<times> 'v) list" where
  "a_touch locked k xs = (if locked then xs else a_promote k xs)"

definition a_size :: "('k, 'v) acache \<Rightarrow> nat" where "a_size A = sum_list (map length A)"

definition a_evict :: "('k, 'v) acache \<Rightarrow> ('k, 'v) acache" where
  "a_evict A = (case find (\<lambda>a. A ! a \<noteq> []) [0..<length A] of None \<Rightarrow> A | Some a \<Rightarrow> A[a := butlast (A ! a)])"

definition a_put :: "bool \<Rightarrow> nat \<Rightarrow> nat \<Rightarrow> 'k \<Rightarrow> 'v \<Rightarrow> ('k, 'v) acache \<Rightarrow> ('k, 'v) acache" where
  "a_put locked cap sh k v A =
     (if map_of (A ! sh) k \<noteq> None
      then A[sh := a_touch locked k (map (\<lambda>e. if fst e = k then (k, v) else e) (A ! sh))]
      else if cap = 0 then A
      else let A = (if a_size A < cap then A else a_evict A) in A[sh := (k, v) # A ! sh])"

lemma a_drop_none: "k \<notin> fst ` set xs \<Longrightarrow> a_drop k xs = xs"
  unfolding a_drop_def by (rule filter_True) blast

lemma a_drop_split: "k \<notin> fst ` set xs \<Longrightarrow> k \<notin> fst ` set ys \<Longrightarrow> a_drop k (xs @ (k, v) # ys) = xs @ ys"
  using a_drop_none [of k xs] a_drop_none [of k ys] by (simp add: a_drop_def)

lemma a_promote_split:
  "k \<notin> fst ` set xs \<Longrightarrow> k \<notin> fst ` set ys \<Longrightarrow> a_promote k (xs @ (k, v) # ys) = (k, v) # xs @ ys"
proof -
  assume k: "k \<notin> fst ` set xs" "k \<notin> fst ` set ys"
  then have "map_of xs k = None" by (simp add: map_of_eq_None_iff)
  then have "map_of (xs @ (k, v) # ys) k = Some v" by (simp add: map_add_def)
  then show ?thesis using a_drop_split [OF k, of v] by (simp add: a_promote_def)
qed

text \<open>What a cache state represents.\<close>

definition lru_rep :: "('k \<Rightarrow> u64) \<Rightarrow> ('k, 'v) lru \<Rightarrow> nat list list \<Rightarrow> nat list \<Rightarrow> bool" where
  "lru_rep hash s ls fl \<longleftrightarrow>
     arena (caching s) (shards s) (free_head s) ls fl
     \<and> holds (get_shard_idx hash s) (caching s) (mapping s) ls
     \<and> (\<forall>k. get_shard_idx hash s k < length ls)"

definition represents :: "('k \<Rightarrow> u64) \<Rightarrow> ('k, 'v) lru \<Rightarrow> ('k, 'v) acache \<Rightarrow> bool" where
  "represents hash s A \<longleftrightarrow>
     (\<exists>ls fl. lru_rep hash s ls fl \<and> length fl + sum_list (map length ls) = length (caching s)
        \<and> A = lru_abs (caching s) ls)"

lemma lru_repD:
  assumes "lru_rep hash s ls fl"
  shows "arena (caching s) (shards s) (free_head s) ls fl"
    "holds (get_shard_idx hash s) (caching s) (mapping s) ls" "get_shard_idx hash s k < length ls"
  using assms by (simp_all add: lru_rep_def)

lemma size_update:
  "a < length ls \<Longrightarrow> sum_list (map length (ls[a := xs])) = sum_list (map length ls) + length xs - length (ls ! a)"
  "a < length ls \<Longrightarrow> length (ls ! a) \<le> sum_list (map length ls)"
  using elem_le_sum_list [of a "map length ls"] by (simp_all add: map_update sum_list_update)

text \<open>Finding the entry of a key.\<close>

lemma rep_miss:
  assumes r: "lru_rep hash s ls fl" and "mapping s k = None"
  shows "map_of (lru_abs (caching s) ls ! get_shard_idx hash s k) k = None"
  using holds_lookup(1) [OF lru_repD(2,3) [OF r] arenaD(2) [OF lru_repD(1,3) [OF r]]] assms(2)
  by (simp add: map_of_eq_None_iff)

lemma rep_hit:
  assumes r: "lru_rep hash s ls fl" and m: "mapping s k = Some i"
  obtains xs ys v where "ls ! get_shard_idx hash s k = xs @ i # ys"
    "entry (caching s) i = (Some k, Some v)" "kv (caching s) i = (k, v)"
    "k \<notin> fst ` set (map (kv (caching s)) xs)" "k \<notin> fst ` set (map (kv (caching s)) ys)"
    "i \<notin> set (xs @ ys)"
proof -
  note ar = lru_repD(1,3) [OF r]
  obtain xs ys v where *: "ls ! get_shard_idx hash s k = xs @ i # ys" "entry (caching s) i = (Some k, Some v)"
      "kv (caching s) i = (k, v)" "k \<notin> fst ` set (map (kv (caching s)) (xs @ ys))"
    using holds_lookup(2) [OF lru_repD(2,3) [OF r] arenaD(2) [OF ar] m] by blast
  have "i \<notin> set (xs @ ys)" using arenaD(2) [OF ar, of k] *(1) by simp
  then show ?thesis using that [OF *(1-3)] *(4) by auto
qed

lemma abs_nth: "a < length ls \<Longrightarrow> lru_abs c ls ! a = map (kv c) (ls ! a)"
  by (simp add: lru_abs_def)

lemma map_of_split: "k \<notin> fst ` set xs \<Longrightarrow> map_of (xs @ (k, v) # ys) k = Some v"
  by (simp add: map_add_def map_of_eq_None_iff [THEN iffD2])

lemma move_to_front_simps [simp]:
  "mapping (move_to_front_inside_lock sh i s) = mapping s"
  "shard_mask (move_to_front_inside_lock sh i s) = shard_mask s"
  "get_shard_idx hash (move_to_front_inside_lock sh i s) = get_shard_idx hash s"
  by (simp_all add: move_to_front_inside_lock_def get_shard_idx_def fun_eq_iff Let_def)

text \<open>Moving the node of a key to the front promotes its entry.\<close>

lemma move_to_front_rep:
  assumes r: "lru_rep hash s ls fl" and m: "mapping s k = Some i"
  defines "sh \<equiv> get_shard_idx hash s k"
  defines "s' \<equiv> move_to_front_inside_lock sh i s"
  obtains xs where "lru_rep hash s' (ls[sh := xs]) fl" "length xs = length (ls ! sh)" "length (caching s') = length (caching s)"
    "lru_abs (caching s') (ls[sh := xs]) = (lru_abs (caching s) ls)[sh := a_promote k (lru_abs (caching s) ls ! sh)]"
proof -
  note d = lru_repD [OF r]
  obtain xs ys v where at: "ls ! sh = xs @ i # ys" and e: "entry (caching s) i = (Some k, Some v)" "kv (caching s) i = (k, v)"
    and nk: "k \<notin> fst ` set (map (kv (caching s)) xs)" "k \<notin> fst ` set (map (kv (caching s)) ys)"
    unfolding sh_def by (rule rep_hit [OF r m])
  have sh: "sh < length ls" using d(3) by (simp add: sh_def)
  note mv = move_to_front_arena [OF d(1) sh at, folded s'_def]
  have "holds (get_shard_idx hash s) (caching s') (mapping s) (ls[sh := i # xs @ ys])"
  proof (rule holds_update [OF d(2) sh])
    show "\<exists>k v. entry (caching s') j = (Some k, Some v) \<and> get_shard_idx hash s k = sh \<and> mapping s k = Some j"
      if "j \<in> set (i # xs @ ys)" for j
      by (rule holds_node [OF d(2) sh, of j]) (use that at mv(2) in auto)
    show "j \<in> set (i # xs @ ys) \<and> fst (entry (caching s') j) = Some k'"
      if "get_shard_idx hash s k' = sh" "mapping s k' = Some j" for k' j
      using holds_map [OF d(2) that(2)] that(1) at mv(2) by auto
  qed (use mv(2) in simp_all)
  then have "lru_rep hash s' (ls[sh := i # xs @ ys]) fl"
    using mv(1) d(3) by (simp add: lru_rep_def s'_def)
  moreover have "lru_abs (caching s') (ls[sh := i # xs @ ys]) = (lru_abs (caching s) ls)[sh := a_promote k (lru_abs (caching s) ls ! sh)]"
  proof -
    have kvs: "kv (caching s') = kv (caching s)" using mv(2) by (simp add: kv_def fun_eq_iff)
    have "lru_abs (caching s) ls ! sh = map (kv (caching s)) xs @ (k, v) # map (kv (caching s)) ys"
      using at e sh by (simp add: abs_nth)
    then have "a_promote k (lru_abs (caching s) ls ! sh) = map (kv (caching s)) (i # xs @ ys)"
      using a_promote_split [OF nk, of v] e(2) by simp
    then show ?thesis using abs_update [of ls sh "caching s'" "caching s"] mv(2) kvs by simp
  qed
  moreover have "length (i # xs @ ys) = length (ls ! sh)" using at by simp
  ultimately show ?thesis using that mv(3) by blast
qed

section \<open>The operations refine the abstract cache\<close>

lemma get_shard_idx_update [simp]:
  "get_shard_idx hash (s\<lparr>lru_log := l\<rparr>) = get_shard_idx hash s"
  "get_shard_idx hash (s\<lparr>mapping := m\<rparr>) = get_shard_idx hash s"
  "get_shard_idx hash (s\<lparr>caching := c\<rparr>) = get_shard_idx hash s"
  "get_shard_idx hash (s\<lparr>shards := hts\<rparr>) = get_shard_idx hash s"
  "get_shard_idx hash (s\<lparr>free_head := f\<rparr>) = get_shard_idx hash s"
  "get_shard_idx hash (unlink_inside_lock sh i s) = get_shard_idx hash s"
  by (simp_all add: get_shard_idx_def fun_eq_iff unlink_cut)

lemma represents_log [simp]:
  "lru_rep hash (s\<lparr>lru_log := l\<rparr>) ls fl = lru_rep hash s ls fl"
  "represents hash (s\<lparr>lru_log := l\<rparr>) A = represents hash s A"
  by (simp_all add: lru_rep_def represents_def)

lemma persist_point_log: "\<exists>l. persist_point env h k v s = s\<lparr>lru_log := l\<rparr>"
proof -
  have "\<exists>l. s = s\<lparr>lru_log := l\<rparr>" by (rule exI [of _ "lru_log s"]) simp
  then show ?thesis by (auto simp: persist_point_def log_event_def Let_def split: option.splits)
qed

lemma representsD:
  assumes "represents hash s A"
  obtains ls fl where "lru_rep hash s ls fl" "length fl + sum_list (map length ls) = length (caching s)"
    "A = lru_abs (caching s) ls" "length A = length ls" "get_shard_idx hash s k < length ls"
  using assms lru_repD(3) by (force simp: represents_def lru_abs_def)

lemma representsI:
  "lru_rep hash s ls fl \<Longrightarrow> length fl + sum_list (map length ls) = length (caching s)
   \<Longrightarrow> lru_abs (caching s) ls = A \<Longrightarrow> represents hash s A"
  by (auto simp: represents_def)

lemma touch_represents:
  assumes r: "represents hash s A" and m: "mapping s k = Some i"
  defines "sh \<equiv> get_shard_idx hash s k"
  shows "represents hash (touch env sh i s) (A[sh := a_touch (contended env) k (A ! sh)])"
    and "length (caching (touch env sh i s)) = length (caching s)"
proof -
  obtain ls fl where rep: "lru_rep hash s ls fl" and n: "length fl + sum_list (map length ls) = length (caching s)"
    and A: "A = lru_abs (caching s) ls" and sh: "sh < length ls"
    unfolding sh_def by (rule representsD [OF r, of k])
  obtain xs where "lru_rep hash (move_to_front_inside_lock sh i s) (ls[sh := xs]) fl" "length xs = length (ls ! sh)"
    "length (caching (move_to_front_inside_lock sh i s)) = length (caching s)"
    "lru_abs (caching (move_to_front_inside_lock sh i s)) (ls[sh := xs]) = A[sh := a_promote k (A ! sh)]"
    unfolding A sh_def by (rule move_to_front_rep [OF rep m])
  then have "represents hash (move_to_front_inside_lock sh i s) (A[sh := a_promote k (A ! sh)])"
      "length (caching (move_to_front_inside_lock sh i s)) = length (caching s)"
    using n size_update [OF sh] by (auto simp: represents_def intro!: exI [of _ "ls[sh := xs]"] exI [of _ fl])
  then show "represents hash (touch env sh i s) (A[sh := a_touch (contended env) k (A ! sh)])"
    and "length (caching (touch env sh i s)) = length (caching s)"
    using r by (simp_all add: touch_def a_touch_def)
qed

lemma represents_lookup:
  assumes r: "represents hash s A"
  shows "map_of (A ! get_shard_idx hash s k) k = (case mapping s k of None \<Rightarrow> None | Some i \<Rightarrow> n_val (caching s ! i))"
    and "mapping s k = Some i \<Longrightarrow> n_val (caching s ! i) \<noteq> None"
proof -
  obtain ls fl where rep: "lru_rep hash s ls fl" and A: "A = lru_abs (caching s) ls"
    and sh: "get_shard_idx hash s k < length ls"
    by (rule representsD [OF r, of k])
  have hit: "map_of (A ! get_shard_idx hash s k) k = n_val (caching s ! i) \<and> n_val (caching s ! i) \<noteq> None"
    if m: "mapping s k = Some i" for i
  proof (rule rep_hit [OF rep m])
    fix xs ys v
    assume "ls ! get_shard_idx hash s k = xs @ i # ys" "entry (caching s) i = (Some k, Some v)"
      "kv (caching s) i = (k, v)" "k \<notin> fst ` set (map (kv (caching s)) xs)"
    then show ?thesis using sh map_of_split [of k "map (kv (caching s)) xs" v "map (kv (caching s)) ys"]
      by (simp add: A abs_nth entry_def)
  qed
  show "map_of (A ! get_shard_idx hash s k) k = (case mapping s k of None \<Rightarrow> None | Some i \<Rightarrow> n_val (caching s ! i))"
    using rep_miss [OF rep, of k] hit by (auto simp: A split: option.split)
  show "mapping s k = Some i \<Longrightarrow> n_val (caching s ! i) \<noteq> None" using hit by blast
qed

lemma a_touch_miss: "map_of xs k = None \<Longrightarrow> a_touch b k xs = xs"
  by (simp add: a_touch_def a_promote_def)

lemma lru_get_refines:
  fixes k :: 'k and s :: "('k, 'v) lru"
  assumes r: "represents hash s A"
  defines "sh \<equiv> get_shard_idx hash s k"
  shows "fst (lru_get hash env k s) = map_of (A ! sh) k"
    and "represents hash (snd (lru_get hash env k s)) (A[sh := a_touch (contended env) k (A ! sh)])"
    and "length (caching (snd (lru_get hash env k s))) = length (caching s)"
proof -
  note l = represents_lookup [OF r, of k]
  show "fst (lru_get hash env k s) = map_of (A ! sh) k"
    using l by (auto simp: lru_get_def sh_def split: option.splits)
  have "represents hash (snd (lru_get hash env k s)) (A[sh := a_touch (contended env) k (A ! sh)])
    \<and> length (caching (snd (lru_get hash env k s))) = length (caching s)"
  proof (cases "mapping s k")
    case None
    then show ?thesis using l(1) r by (simp add: lru_get_def sh_def a_touch_miss)
  next
    case (Some i)
    then show ?thesis using l(2) touch_represents [OF r Some, of env] by (auto simp: lru_get_def sh_def)
  qed
  then show "represents hash (snd (lru_get hash env k s)) (A[sh := a_touch (contended env) k (A ! sh)])"
    and "length (caching (snd (lru_get hash env k s))) = length (caching s)" by blast+
qed

text \<open>Updating the value of a key in place.\<close>

lemma set_value_entry:
  "n_key (c ! i) = Some k \<Longrightarrow> c[i := (c ! i)\<lparr>n_val := Some v\<rparr>] = set_entry i (Some k) (Some v) c"
  by (cases "c ! i") (simp add: set_entry_def)

lemma set_value_represents:
  assumes r: "represents hash s A" and m: "mapping s k = Some i"
  defines "sh \<equiv> get_shard_idx hash s k"
  shows "represents hash (s\<lparr>caching := set_entry i (Some k) (Some v) (caching s)\<rparr>)
           (A[sh := map (\<lambda>e. if fst e = k then (k, v) else e) (A ! sh)])"
proof -
  let ?c = "set_entry i (Some k) (Some v) (caching s)"
  obtain ls fl where rep: "lru_rep hash s ls fl" and n: "length fl + sum_list (map length ls) = length (caching s)"
    and A: "A = lru_abs (caching s) ls" and sh: "sh < length ls"
    unfolding sh_def by (rule representsD [OF r, of k])
  note d = lru_repD [OF rep]
  obtain xs ys w where at: "ls ! sh = xs @ i # ys" and kvi: "kv (caching s) i = (k, w)"
    and nk: "k \<notin> fst ` set (map (kv (caching s)) xs)" "k \<notin> fst ` set (map (kv (caching s)) ys)"
    and i: "i \<notin> set (xs @ ys)"
    unfolding sh_def by (rule rep_hit [OF rep m])
  have il: "i < length (caching s)" using split_shard(3) [OF d(1) sh at] .
  have same: "entry ?c j = entry (caching s) j" if "b < length ls" "b \<noteq> sh" "j \<in> set (ls ! b)" for b j
    using arenaD(5) [OF d(1) sh that(1)] that at il by auto
  have "holds (get_shard_idx hash s) ?c (mapping s) (ls[sh := ls ! sh])"
  proof (rule holds_update [OF d(2) sh _ same])
    show "\<exists>k v. entry ?c j = (Some k, Some v) \<and> get_shard_idx hash s k = sh \<and> mapping s k = Some j"
      if "j \<in> set (ls ! sh)" for j
      by (rule holds_node [OF d(2) sh that]) (use il m sh_def in auto)
    show "j \<in> set (ls ! sh) \<and> fst (entry ?c j) = Some k'"
      if "get_shard_idx hash s k' = sh" "mapping s k' = Some j" for k' j
      using holds_map [OF d(2) that(2)] holds_map [OF d(2) m] that(1) il by auto
  qed simp_all
  then have "lru_rep hash (s\<lparr>caching := ?c\<rparr>) ls fl"
    using arena_set_entry [OF d(1)] d(3) by (simp add: lru_rep_def)
  moreover have "lru_abs ?c ls = A[sh := map (\<lambda>e. if fst e = k then (k, v) else e) (A ! sh)]"
  proof -
    have "kv ?c j = (if fst (kv (caching s) j) = k then (k, v) else kv (caching s) j)" if "j \<in> set (ls ! sh)" for j
    proof (cases "j = i")
      case False
      then have "fst (kv (caching s) j) \<noteq> k" using that at nk unfolding set_map by auto
      then show ?thesis using False il by (simp add: kv_def)
    qed (use kvi il in \<open>simp add: kv_def\<close>)
    then have "map (kv ?c) (ls ! sh) = map (\<lambda>e. if fst e = k then (k, v) else e) (A ! sh)"
      using sh by (simp add: A abs_nth)
    then show ?thesis using abs_update [of ls sh ?c "caching s" "ls ! sh", OF same] by (simp add: A)
  qed
  ultimately show ?thesis using n by (intro representsI [of hash _ ls fl]) simp_all
qed

lemma put_update_refines:
  assumes r: "represents hash s A" and m: "mapping s k = Some i"
  defines "sh \<equiv> get_shard_idx hash s k"
  shows "represents hash (put_update hash env h k v i s)
     (A[sh := a_touch (contended env) k (map (\<lambda>e. if fst e = k then (k, v) else e) (A ! sh))])"
    and "length (caching (put_update hash env h k v i s)) = length (caching s)"
proof -
  obtain ls fl where rep: "lru_rep hash s ls fl" and A: "A = lru_abs (caching s) ls"
    and sh: "sh < length A"
    unfolding sh_def by (rule representsD [OF r, of k]) simp
  have key: "n_key (caching s ! i) = Some k" using holds_map [OF lru_repD(2) [OF rep] m] by (simp add: entry_def)
  let ?B = "A[sh := map (\<lambda>e. if fst e = k then (k, v) else e) (A ! sh)]"
  obtain l where l: "persist_point env h k v (if on_updating h then log_event (Updating k v) s else s) = s\<lparr>lru_log := l\<rparr>"
    using persist_point_log [of env h k v "if on_updating h then log_event (Updating k v) s else s"]
    by (auto simp: log_event_def split: if_splits)
  let ?s = "s\<lparr>lru_log := l, caching := set_entry i (Some k) (Some v) (caching s)\<rparr>"
  have put: "put_update hash env h k v i s = touch env sh i ?s"
    using l key by (simp add: put_update_def Let_def set_value_entry sh_def)
  have "represents hash (s\<lparr>lru_log := l\<rparr>) A" using r by simp
  from set_value_represents [OF this, of k i v] m have "represents hash ?s ?B" by (simp add: sh_def)
  from touch_represents [OF this, of k i env] m
  show "represents hash (put_update hash env h k v i s)
     (A[sh := a_touch (contended env) k (map (\<lambda>e. if fst e = k then (k, v) else e) (A ! sh))])"
    and "length (caching (put_update hash env h k v i s)) = length (caching s)"
    using sh by (simp_all add: put sh_def)
qed

text \<open>Taking a node out of its shard, and with it its entry.\<close>

lemma unlink_rep:
  assumes rep: "lru_rep hash s ls fl" and sh: "sh < length ls" and at: "ls ! sh = xs @ i # ys"
    and e: "entry (caching s) i = (Some k, Some v)"
  defines "s' \<equiv> (unlink_inside_lock sh i (s\<lparr>caching := set_entry i None None (caching s)\<rparr>))\<lparr>mapping := (mapping s)(k := None)\<rparr>"
  shows "lru_rep hash s' (ls[sh := xs @ ys]) fl"
    and "lru_abs (caching s') (ls[sh := xs @ ys]) = (lru_abs (caching s) ls)[sh := map (kv (caching s)) (xs @ ys)]"
    and "nx (caching s') i = NULL" "pv (caching s') i = NULL" "i < length (caching s)" "i \<noteq> NULL" "i \<notin> set fl"
      "\<And>b. b < length ls \<Longrightarrow> i \<notin> set (ls[sh := xs @ ys] ! b)" "length (caching s') = length (caching s)"
proof -
  note d = lru_repD [OF rep] and sp = split_shard [OF lru_repD(1) [OF rep] sh at]
  note sd = arenaD [OF d(1) sh]
  let ?s = "s\<lparr>caching := set_entry i None None (caching s)\<rparr>"
  have ar: "arena (caching ?s) (shards ?s) (free_head ?s) ls fl" using arena_set_entry [OF d(1)] by simp
  note u = unlink_arena [OF ar sh at]
  have i: "i \<notin> set (xs @ ys)" "i \<notin> set fl" using sd(2,4) at by auto
  have m: "mapping s k = Some i" "get_shard_idx hash s k = sh"
    by (rule holds_node [OF d(2) sh, of i]; use e at in simp)+
  have ent: "entry (caching s') j = entry (caching s) j" if "j \<noteq> i" for j
    using that u(4) sp(3) by (simp add: s'_def)
  have same: "entry (caching s') j = entry (caching s) j" if "b < length ls" "b \<noteq> sh" "j \<in> set (ls ! b)" for b j
    using sd(5) [OF that(1)] that at by (intro ent) auto
  have "holds (get_shard_idx hash s) (caching s') (mapping s') (ls[sh := xs @ ys])"
  proof (rule holds_update [OF d(2) sh _ same])
    show "\<exists>k v. entry (caching s') j = (Some k, Some v) \<and> get_shard_idx hash s k = sh \<and> mapping s' k = Some j"
      if j: "j \<in> set (xs @ ys)" for j
    proof (rule holds_node [OF d(2) sh, of j])
      fix k' v' assume *: "entry (caching s) j = (Some k', Some v')" "get_shard_idx hash s k' = sh" "mapping s k' = Some j"
      have "j \<noteq> i" using j i by auto
      then show ?thesis using * ent m by (auto simp: s'_def)
    qed (use j at in auto)
    show "mapping s' k' = mapping s k'" if "get_shard_idx hash s k' \<noteq> sh" for k'
      using that m by (auto simp: s'_def)
    show "j \<in> set (xs @ ys) \<and> fst (entry (caching s') j) = Some k'"
      if "get_shard_idx hash s k' = sh" "mapping s' k' = Some j" for k' j
    proof -
      have k': "k' \<noteq> k" "mapping s k' = Some j" using that(2) by (auto simp: s'_def split: if_splits)
      have *: "j \<in> set (ls ! sh)" "fst (entry (caching s) j) = Some k'" using holds_map [OF d(2) k'(2)] that(1) by auto
      have "j \<noteq> i" using *(2) e k'(1) by auto
      then show ?thesis using * ent at by auto
    qed
  qed
  then show "lru_rep hash s' (ls[sh := xs @ ys]) fl"
    using u(1) d(3) by (simp add: lru_rep_def s'_def)
  have "kv (caching s') j = kv (caching s) j" if "j \<in> set (xs @ ys)" for j
  proof -
    have "j \<noteq> i" using that i(1) by blast
    then show ?thesis using ent by (simp add: kv_def)
  qed
  then have kvs: "map (kv (caching s')) (xs @ ys) = map (kv (caching s)) (xs @ ys)" by simp
  show "lru_abs (caching s') (ls[sh := xs @ ys]) = (lru_abs (caching s) ls)[sh := map (kv (caching s)) (xs @ ys)]"
    unfolding kvs [symmetric] by (rule abs_update) (rule same)
  show "nx (caching s') i = NULL" "pv (caching s') i = NULL" "i < length (caching s)" "i \<noteq> NULL" "i \<notin> set fl"
    "length (caching s') = length (caching s)"
    using u sp i by (simp_all add: s'_def)
  show "i \<notin> set (ls[sh := xs @ ys] ! b)" if "b < length ls" for b
    using sd(5) [OF that] that i at by (cases "b = sh") auto
qed

text \<open>Putting a loose node with a new entry in front of its shard.\<close>

definition link_entry :: "nat \<Rightarrow> nat \<Rightarrow> 'k \<Rightarrow> 'v \<Rightarrow> ('k, 'v) lru \<Rightarrow> ('k, 'v) lru" where
  "link_entry sh i k v s =
     (let s = s\<lparr>caching := set_entry i (Some k) (Some v) (caching s), mapping := (mapping s)(k \<mapsto> i)\<rparr>
      in if ht_first (shards s ! sh) = NULL
         then s\<lparr>caching := set_next i NULL (set_prev i NULL (caching s)),
                shards := (shards s)[sh := \<lparr>ht_first = i, ht_last = i\<rparr>]\<rparr>
         else move_to_front_inside_lock sh i s)"

lemma cut_loose: "nx c i = NULL \<Longrightarrow> pv c i = NULL \<Longrightarrow> cut i c = c"
  by (simp add: cut_def)

lemma set_next_prev_commute: "set_next i n (set_prev i p c) = set_prev i p (set_next i n c)"
  by (cases "i < length c"; cases "c ! i") (simp_all add: set_next_def set_prev_def not_less list_update_beyond)

lemma link_entry_front:
  assumes ar: "arena (caching s) (shards s) (free_head s) ls fl" and sh: "sh < length ls"
    and i: "nx (caching s) i = NULL" "pv (caching s) i = NULL" "i \<notin> set (ls ! sh)" "i \<noteq> NULL"
  shows "link_entry sh i k v s =
    s\<lparr>caching := front i (hd0 (ls ! sh) NULL) (set_entry i (Some k) (Some v) (caching s)),
      mapping := (mapping s)(k \<mapsto> i), shards := (shards s)[sh := \<lparr>ht_first = i, ht_last = last0 i (ls ! sh)\<rparr>]\<rparr>"
proof -
  note sd = arenaD [OF ar sh]
  have bound: "j \<noteq> NULL" if "j \<in> set (ls ! sh)" for j using that sd(3) arena_free(2) [OF ar] by auto
  show ?thesis
  proof (cases "ls ! sh")
    case Nil
    then show ?thesis using sd(7) by (simp add: link_entry_def front_def Let_def set_next_prev_commute)
  next
    case (Cons x xs)
    then have x: "x \<noteq> NULL" "x \<noteq> i" using bound i(3) by auto
    have l: "ht_last (shards s ! sh) = last (ls ! sh)" using sd(8) Cons by (simp add: last0_def)
    have "last (ls ! sh) \<noteq> i" using i(3) Cons last_in_set [of "ls ! sh"] by auto
    then show ?thesis using sd(7) Cons x i l
      by (simp add: link_entry_def Let_def move_to_front_cut cut_loose last0_def)
  qed
qed

lemma link_entry_rep:
  fixes s :: "('k, 'v) lru" and k :: 'k and v :: 'v
  assumes rep: "lru_rep hash s ls fl" and m: "mapping s k = None"
    and i: "nx (caching s) i = NULL" "pv (caching s) i = NULL" "i < length (caching s)" "i \<notin> set fl"
      "\<And>b. b < length ls \<Longrightarrow> i \<notin> set (ls ! b)"
  defines "sh \<equiv> get_shard_idx hash s k"
  defines "s' \<equiv> link_entry sh i k v s"
  shows "lru_rep hash s' (ls[sh := i # ls ! sh]) fl"
    and "lru_abs (caching s') (ls[sh := i # ls ! sh]) = (lru_abs (caching s) ls)[sh := (k, v) # lru_abs (caching s) ls ! sh]"
    and "length (caching s') = length (caching s)"
proof -
  note d = lru_repD [OF rep]
  have sh: "sh < length ls" using d(3) by (simp add: sh_def)
  let ?c = "set_entry i (Some k) (Some v) (caching s)"
  have "i \<noteq> NULL" using i(3) arena_free(2) [OF d(1)] by simp
  then have s': "s' = s\<lparr>caching := front i (hd0 (ls ! sh) NULL) ?c, mapping := (mapping s)(k \<mapsto> i),
      shards := (shards s)[sh := \<lparr>ht_first = i, ht_last = last0 i (ls ! sh)\<rparr>]\<rparr>"
    unfolding s'_def using link_entry_front [OF d(1) sh i(1,2) i(5) [OF sh]] by simp
  have ar: "arena (caching s') (shards s') (free_head s') (ls[sh := i # ls ! sh]) fl"
    using front_arena [OF arena_set_entry [OF d(1)] sh _ i(4,5) refl, of i "Some k" "Some v"] i(3) by (simp add: s')
  have ent: "entry (caching s') j = (if j = i then (Some k, Some v) else entry (caching s) j)" for j
    using i(3) by (simp add: s' front_def Let_def)
  have same: "entry (caching s') j = entry (caching s) j" if "b < length ls" "j \<in> set (ls ! b)" for b j
    using that i(5) ent by auto
  have "holds (get_shard_idx hash s) (caching s') ((mapping s)(k \<mapsto> i)) (ls[sh := i # ls ! sh])"
  proof (rule holds_update [OF d(2) sh _ same])
    show "\<exists>k' v. entry (caching s') j = (Some k', Some v) \<and> get_shard_idx hash s k' = sh
        \<and> ((mapping s)(k \<mapsto> i)) k' = Some j" if j: "j \<in> set (i # ls ! sh)" for j
    proof (cases "j = i")
      case True
      then show ?thesis using ent by (simp add: sh_def)
    next
      case False
      then have j': "j \<in> set (ls ! sh)" using j by simp
      show ?thesis
        by (rule holds_node [OF d(2) sh j']) (use ent False m in auto)
    qed
    show "((mapping s)(k \<mapsto> i)) k' = mapping s k'" if "get_shard_idx hash s k' \<noteq> sh" for k'
      using that by (auto simp: sh_def)
    show "j \<in> set (i # ls ! sh) \<and> fst (entry (caching s') j) = Some k'"
      if "get_shard_idx hash s k' = sh" "((mapping s)(k \<mapsto> i)) k' = Some j" for k' j
    proof (cases "k' = k")
      case False
      then have "j \<in> set (ls ! sh)" "fst (entry (caching s) j) = Some k'"
        using holds_map [OF d(2), of k' j] that by auto
      then show ?thesis using same [OF sh] by simp
    qed (use that ent in auto)
  qed auto
  then show "lru_rep hash s' (ls[sh := i # ls ! sh]) fl"
    using ar d(3) by (simp add: lru_rep_def s')
  have "kv (caching s') j = kv (caching s) j" if "j \<in> set (ls ! sh)" for j
    using same [OF sh that] by (simp add: kv_def)
  then have kvs: "map (kv (caching s')) (i # ls ! sh) = (k, v) # lru_abs (caching s) ls ! sh"
    using sh ent by (simp add: abs_nth kv_def)
  show "lru_abs (caching s') (ls[sh := i # ls ! sh]) = (lru_abs (caching s) ls)[sh := (k, v) # lru_abs (caching s) ls ! sh]"
    unfolding kvs [symmetric] by (rule abs_update) (rule same)
  show "length (caching s') = length (caching s)" by (simp add: s' front_def Let_def)
qed

text \<open>The shard a full cache takes its victim from: the scan starts at the first shard.\<close>

lemma find_append_cases: "find P (xs @ ys) = (case find P xs of None \<Rightarrow> find P ys | Some x \<Rightarrow> Some x)"
  by (induction xs) simp_all

lemma find_concat_first:
  assumes "\<And>xs. xs \<in> set xss \<Longrightarrow> set xs \<subseteq> set ys"
  shows "find P (ys @ concat xss) = find P ys"
proof (cases "find P ys")
  case None
  then have "find P (concat xss) = None" using assms by (fastforce simp: find_None_iff)
  then show ?thesis using None by (simp add: find_append_cases)
qed (simp add: find_append_cases)

lemma concat_map_upt: "0 < S \<Longrightarrow> concat (map f [0..<S]) = f 0 @ concat (map f [1..<S])"
  by (simp add: upt_conv_Cons)

lemma scan_order:
  "find P (concat (map (\<lambda>start. map (\<lambda>off. (start + off) mod S) [0..<S]) [0..<S])) = find P [0..<S]"
proof (cases "0 < S")
  case True
  have first: "map (\<lambda>off. (0 + off) mod S) [0..<S] = [0..<S]" by (rule map_idI) simp
  have "set xs \<subseteq> set [0..<S]" if "xs \<in> set (map (\<lambda>start. map (\<lambda>off. (start + off) mod S) [0..<S]) [1..<S])" for xs
    using that True by auto
  then show ?thesis unfolding concat_map_upt [OF True] first by (rule find_concat_first)
qed simp

definition victim :: "nat list list \<Rightarrow> nat option" where
  "victim ls = find (\<lambda>a. ls ! a \<noteq> []) [0..<length ls]"

lemma victim_Some: "victim ls = Some a \<Longrightarrow> a < length ls \<and> ls ! a \<noteq> []"
  unfolding victim_def by (auto simp: find_Some_iff)

lemma a_evict_abs:
  "a_evict (lru_abs c ls) =
     (case victim ls of None \<Rightarrow> lru_abs c ls | Some a \<Rightarrow> (lru_abs c ls)[a := map (kv c) (butlast (ls ! a))])"
proof -
  have "find (\<lambda>a. lru_abs c ls ! a \<noteq> []) [0..<length ls] = victim ls"
    unfolding victim_def by (rule find_cong) (auto simp: abs_nth)
  then show ?thesis
    by (auto simp: a_evict_def lru_abs_def map_butlast dest!: victim_Some split: option.split)
qed

lemma acquire_victim:
  assumes ar: "arena (caching s) (shards s) (free_head s) ls []"
  shows "acquire_node sh s = (case victim ls of None \<Rightarrow> None | Some a \<Rightarrow> Some (evict_last a s))"
proof -
  have last: "ht_last (shards s ! a) = NULL \<longleftrightarrow> ls ! a = []" if "a < length ls" for a
  proof (cases "ls ! a = []")
    case False
    then have "last (ls ! a) < length (caching s)" using arenaD(3) [OF ar that] last_in_set by blast
    then show ?thesis using False arenaD(8) [OF ar that] arena_free(2) [OF ar] by (simp add: last0_def)
  qed (use arenaD(8) [OF ar that] in simp)
  have "find (\<lambda>a. ht_last (shards s ! a) \<noteq> NULL) [0..<length ls] = victim ls"
    unfolding victim_def by (rule find_cong) (auto simp: last)
  then show ?thesis
    using arena_free(1,3) [OF ar] by (simp add: acquire_node_def free_pop_def Let_def scan_order)
qed

lemma acquire_free:
  assumes "arena (caching s) (shards s) (free_head s) ls (i # fl)"
  shows "acquire_node sh s = Some (i, None, s\<lparr>free_head := nx (caching s) i, caching := set_next i NULL (caching s)\<rparr>)"
  using arena_free_pop(1,2) [OF assms] by (simp add: acquire_node_def free_pop_def nx_def)

lemma put_shared_link:
  "put_shared hash env h k v s =
     (case acquire_node (get_shard_idx hash s k) s of
        None \<Rightarrow> s
      | Some (i, evicted, s1) \<Rightarrow>
          (case evicted of
             None \<Rightarrow> link_entry (get_shard_idx hash s k) i k v s1
           | Some (ek, ev) \<Rightarrow>
               let s2 = link_entry (get_shard_idx hash s k) i k v s1 in
               persist_point env h ek ev (if on_removing h then log_event (Removing ek ev) s2 else s2)))"
  by (simp add: put_shared_def link_entry_def Let_def split: option.split prod.split)

lemma put_shared_evict:
  assumes "acquire_node (get_shard_idx hash s k) s = Some (i, Some (ek, ev), s1)"
  shows "\<exists>l. put_shared hash env h k v s = (link_entry (get_shard_idx hash s k) i k v s1)\<lparr>lru_log := l\<rparr>"
proof -
  let ?s = "link_entry (get_shard_idx hash s k) i k v s1"
  let ?l = "if on_removing h then log_event (Removing ek ev) ?s else ?s"
  obtain l where "persist_point env h ek ev ?l = ?l\<lparr>lru_log := l\<rparr>"
    using persist_point_log [of env h ek ev ?l] by blast
  then have "put_shared hash env h k v s = ?l\<lparr>lru_log := l\<rparr>"
    using assms by (simp add: put_shared_link Let_def)
  then show ?thesis by (auto simp: log_event_def)
qed

lemma free_pop_rep:
  assumes rep: "lru_rep hash s ls (i # fl)"
  defines "s' \<equiv> s\<lparr>free_head := nx (caching s) i, caching := set_next i NULL (caching s)\<rparr>"
  shows "lru_rep hash s' ls fl" "lru_abs (caching s') ls = lru_abs (caching s) ls" "nx (caching s') i = NULL"
    "pv (caching s') i = NULL" "i < length (caching s')" "i \<notin> set fl" "\<And>b. b < length ls \<Longrightarrow> i \<notin> set (ls ! b)"
    "length (caching s') = length (caching s)"
proof -
  note d = lru_repD [OF rep] and fp = arena_free_pop [OF lru_repD(1) [OF rep]]
  have ent: "entry (caching s') j = entry (caching s) j" for j by (simp add: s'_def)
  have "holds (get_shard_idx hash s) (caching s') (mapping s) ls"
    using d(2) unfolding holds_def ent .
  then show "lru_rep hash s' ls fl" using fp d(3) by (simp add: lru_rep_def s'_def)
  show "lru_abs (caching s') ls = lru_abs (caching s) ls" using ent by (simp add: lru_abs_def kv_def)
  show "nx (caching s') i = NULL" "pv (caching s') i = NULL" "i < length (caching s')" "i \<notin> set fl"
    "length (caching s') = length (caching s)" "\<And>b. b < length ls \<Longrightarrow> i \<notin> set (ls ! b)"
    using fp by (simp_all add: s'_def)
qed

lemma evict_last_rep:
  assumes rep: "lru_rep hash s ls fl" and a: "a < length ls" and ne: "ls ! a \<noteq> []"
  defines "i \<equiv> last (ls ! a)" and "s' \<equiv> snd (snd (evict_last a s))"
  shows "\<exists>e. evict_last a s = (i, Some e, s')"
    and "lru_rep hash s' (ls[a := butlast (ls ! a)]) fl" "mapping s k = None \<Longrightarrow> mapping s' k = None"
    and "lru_abs (caching s') (ls[a := butlast (ls ! a)]) = (lru_abs (caching s) ls)[a := map (kv (caching s)) (butlast (ls ! a))]"
    and "nx (caching s') i = NULL" "pv (caching s') i = NULL" "i < length (caching s')" "i \<notin> set fl"
      "\<And>b. b < length ls \<Longrightarrow> i \<notin> set (ls[a := butlast (ls ! a)] ! b)" "length (caching s') = length (caching s)"
      "get_shard_idx hash s' = get_shard_idx hash s"
proof -
  note d = lru_repD [OF rep]
  have at: "ls ! a = butlast (ls ! a) @ i # []" using ne by (simp add: i_def)
  then have "i \<in> set (ls ! a)" using ne by (simp add: i_def)
  then obtain ek ev where e: "entry (caching s) i = (Some ek, Some ev)"
    by (rule holds_node [OF d(2) a])
  have lst: "ht_last (shards s ! a) = i" using arenaD(8) [OF d(1) a] ne by (simp add: last0_def i_def)
  have ev: "evict_last a s = (i, Some (ek, ev),
      (unlink_inside_lock a i (s\<lparr>caching := set_entry i None None (caching s)\<rparr>))\<lparr>mapping := (mapping s)(ek := None)\<rparr>)"
    using e by (simp add: evict_last_def lst Let_def entry_def unlink_cut)
  have s': "s' = (unlink_inside_lock a i (s\<lparr>caching := set_entry i None None (caching s)\<rparr>))\<lparr>mapping := (mapping s)(ek := None)\<rparr>"
    by (simp add: s'_def ev)
  note u = unlink_rep [OF rep a at e, folded s', simplified]
  show "\<exists>e. evict_last a s = (i, Some e, s')" using ev s' by blast
  show "mapping s k = None \<Longrightarrow> mapping s' k = None" "get_shard_idx hash s' = get_shard_idx hash s" by (simp_all add: s')
  show "lru_rep hash s' (ls[a := butlast (ls ! a)]) fl" "nx (caching s') i = NULL" "pv (caching s') i = NULL"
    "i < length (caching s')" "i \<notin> set fl" "length (caching s') = length (caching s)"
    "\<And>b. b < length ls \<Longrightarrow> i \<notin> set (ls[a := butlast (ls ! a)] ! b)"
    "lru_abs (caching s') (ls[a := butlast (ls ! a)]) = (lru_abs (caching s) ls)[a := map (kv (caching s)) (butlast (ls ! a))]"
    using u by simp_all
qed

lemma put_shared_refines:
  assumes r: "represents hash s A" and m: "mapping s k = None"
  defines "sh \<equiv> get_shard_idx hash s k"
  shows "represents hash (put_shared hash env h k v s) (a_put (contended env) (length (caching s)) sh k v A)"
    and "length (caching (put_shared hash env h k v s)) = length (caching s)"
proof -
  obtain ls fl where rep: "lru_rep hash s ls fl" and n: "length fl + sum_list (map length ls) = length (caching s)"
    and A: "A = lru_abs (caching s) ls" and sh: "sh < length ls"
    unfolding sh_def by (rule representsD [OF r, of k])
  have size: "a_size A = sum_list (map length ls)" by (simp add: A lru_abs_def a_size_def o_def)
  have miss: "map_of (A ! sh) k = None" using rep_miss [OF rep m] by (simp add: A sh_def)
  have "represents hash (put_shared hash env h k v s) (a_put (contended env) (length (caching s)) sh k v A)
    \<and> length (caching (put_shared hash env h k v s)) = length (caching s)"
  proof (cases fl)
    case (Cons i fl')
    note fp = free_pop_rep [OF rep [unfolded Cons]]
    let ?s = "s\<lparr>free_head := nx (caching s) i, caching := set_next i NULL (caching s)\<rparr>"
    have put: "put_shared hash env h k v s = link_entry sh i k v ?s"
      using acquire_free [OF lru_repD(1) [OF rep, unfolded Cons]] by (simp add: put_shared_link sh_def)
    have idx: "get_shard_idx hash ?s k = sh" by (simp add: sh_def)
    note le = link_entry_rep [where v = v, OF fp(1) _ fp(3,4,5,6,7), of k, unfolded idx]
    have "represents hash (link_entry sh i k v ?s) (A[sh := (k, v) # A ! sh])"
      using le fp(2,8) m n sh Cons size_update [OF sh] by (intro representsI [of hash _ "ls[sh := i # ls ! sh]" fl']) (simp_all add: A)
    moreover have "a_size A < length (caching s)" using size n Cons by simp
    ultimately show ?thesis using miss le(3) m fp(8) by (auto simp: put a_put_def)
  next
    case Nil
    note ac = acquire_victim [OF lru_repD(1) [OF rep, unfolded Nil], of sh]
    show ?thesis
    proof (cases "victim ls")
      case None
      then have "\<forall>xs \<in> set ls. xs = []" by (auto simp: victim_def find_None_iff in_set_conv_nth)
      then have "sum_list (map length ls) = 0" by (simp add: sum_list_eq_0_iff)
      then have "length (caching s) = 0" using n unfolding Nil list.size(3) by linarith
      then show ?thesis using None ac r miss by (simp add: put_shared_link a_put_def sh_def)
    next
      case (Some a)
      then have a: "a < length ls" "ls ! a \<noteq> []" using victim_Some by blast+
      note ev = evict_last_rep [OF rep a]
      let ?i = "last (ls ! a)" and ?s = "snd (snd (evict_last a s))" and ?ls = "ls[a := butlast (ls ! a)]"
      obtain e where e: "evict_last a s = (?i, Some e, ?s)" using ev(1) by blast
      have idx: "get_shard_idx hash ?s k = sh" by (simp add: ev(11) sh_def)
      note le = link_entry_rep [where v = v, OF ev(2) ev(3) [OF m] ev(5,6,7,8) ev(9) [simplified], simplified idx]
      let ?B = "a_evict A"
      have B: "?B = lru_abs (caching ?s) ?ls" using ev(4) Some by (simp add: A a_evict_abs)
      have pos: "0 < length (ls ! a)" using a(2) by simp
      have "length ?ls = length ls" "sh < length ?ls" using sh by simp_all
      have "represents hash (link_entry sh ?i k v ?s) (?B[sh := (k, v) # ?B ! sh])"
      proof (rule representsI [of hash _ "?ls[sh := ?i # ?ls ! sh]" fl])
        show "length fl + sum_list (map length (?ls[sh := ?i # ?ls ! sh])) = length (caching (link_entry sh ?i k v ?s))"
          using n size_update [OF a(1)] size_update [OF \<open>sh < length ?ls\<close>] pos le(3) ev(10) by simp
      qed (use le B in simp_all)
      moreover have "\<exists>l. put_shared hash env h k v s = (link_entry sh ?i k v ?s)\<lparr>lru_log := l\<rparr>"
        unfolding sh_def by (rule put_shared_evict [of _ _ _ _ "fst e" "snd e"]) (use ac Some e in \<open>simp add: sh_def\<close>)
      moreover have "\<not> a_size A < length (caching s)" "length (caching s) \<noteq> 0"
        using size n Nil size_update(2) [OF a(1)] pos unfolding Nil list.size(3) by linarith+
      ultimately show ?thesis using miss le(3) ev(10) by (auto simp: a_put_def Let_def)
    qed
  qed
  then show "represents hash (put_shared hash env h k v s) (a_put (contended env) (length (caching s)) sh k v A)"
    and "length (caching (put_shared hash env h k v s)) = length (caching s)" by blast+
qed

lemma unlink_mapping_commute:
  "unlink_inside_lock sh i (s\<lparr>mapping := m, caching := c\<rparr>) = (unlink_inside_lock sh i (s\<lparr>caching := c\<rparr>))\<lparr>mapping := m\<rparr>"
  by (simp add: unlink_inside_lock_def Let_def split: prod.split)

lemma lru_remove_refines:
  fixes k :: 'k and s :: "('k, 'v) lru" and env :: lru_env and h :: "('k, 'v) lru_hooks"
  assumes r: "represents hash s A"
  defines "sh \<equiv> get_shard_idx hash s k" and "rm \<equiv> lru_remove True hash env h k s"
  shows "fst rm = map_of (A ! sh) k" and "represents hash (snd rm) (A[sh := a_drop k (A ! sh)])"
    and "length (caching (snd rm)) = length (caching s)"
proof -
  obtain ls fl where rep: "lru_rep hash s ls fl" and n: "length fl + sum_list (map length ls) = length (caching s)"
    and A: "A = lru_abs (caching s) ls" and sh: "sh < length ls"
    unfolding sh_def by (rule representsD [OF r, of k])
  note l = represents_lookup [OF r, of k]
  show fst_rm: "fst rm = map_of (A ! sh) k"
    using l by (simp add: rm_def lru_remove_def sh_def Let_def split: option.split)
  have "represents hash (snd rm) (A[sh := a_drop k (A ! sh)]) \<and> length (caching (snd rm)) = length (caching s)"
  proof (cases "mapping s k")
    case None
    then have "k \<notin> fst ` set (A ! sh)" using l(1) by (simp add: sh_def map_of_eq_None_iff)
    then show ?thesis using None r by (simp add: rm_def lru_remove_def a_drop_none)
  next
    case (Some i)
    obtain xs ys v where at: "ls ! sh = xs @ i # ys" and e: "entry (caching s) i = (Some k, Some v)"
      and kvi: "kv (caching s) i = (k, v)"
      and nk: "k \<notin> fst ` set (map (kv (caching s)) xs)" "k \<notin> fst ` set (map (kv (caching s)) ys)"
      unfolding sh_def by (rule rep_hit [OF rep Some])
    note u = unlink_rep [OF rep sh at e]
    let ?u = "(unlink_inside_lock sh i (s\<lparr>caching := set_entry i None None (caching s)\<rparr>))\<lparr>mapping := (mapping s)(k := None)\<rparr>"
    let ?s = "free_push i ?u" and ?ls = "ls[sh := xs @ ys]"
    have "snd rm = persist_point env h k v ?s"
      using Some e by (simp add: rm_def lru_remove_def sh_def Let_def entry_def unlink_mapping_commute)
    then obtain lg where lg: "snd rm = ?s\<lparr>lru_log := lg\<rparr>" using persist_point_log by metis
    have ent: "entry (caching ?s) j = entry (caching ?u) j" for j by (simp add: free_push_def)
    have ar: "arena (caching ?s) (shards ?s) (free_head ?s) ?ls (i # fl)"
      using arena_free_push [OF lru_repD(1) [OF u(1)] _ u(7,4)] u(5,8,9) by (simp add: free_push_def)
    have "holds (get_shard_idx hash s) (caching ?s) (mapping ?u) ?ls"
      using lru_repD(2) [OF u(1)] unfolding holds_def ent by simp
    then have rep': "lru_rep hash ?s ?ls (i # fl)"
      using ar lru_repD(3) [OF rep] by (simp add: lru_rep_def free_push_def)
    have "lru_abs (caching ?s) ?ls = lru_abs (caching ?u) ?ls" by (simp add: lru_abs_def kv_def ent)
    moreover have "a_drop k (A ! sh) = map (kv (caching s)) (xs @ ys)"
      using a_drop_split [OF nk, of v] at kvi sh by (simp add: A abs_nth)
    ultimately have "lru_abs (caching ?s) ?ls = A[sh := a_drop k (A ! sh)]" using u(2) by (simp add: A)
    moreover have "length (caching ?s) = length (caching s)" using u(9) by (simp add: free_push_def)
    ultimately show ?thesis
      using rep' n size_update [OF sh] at by (auto simp: lg intro!: representsI [of hash _ ?ls "i # fl"])
  qed
  then show "represents hash (snd rm) (A[sh := a_drop k (A ! sh)])"
    and "length (caching (snd rm)) = length (caching s)" by blast+
qed

text \<open>The arena as it is built, and again after \<open>clear\<close>.\<close>

lemma free_nodes_views:
  "m < n \<Longrightarrow> nx (free_nodes n) m = (if m + 1 < n then m + 1 else NULL) \<and> pv (free_nodes n) m = NULL"
  by (simp add: free_nodes_def nx_def pv_def)

lemma fchain_free_nodes:
  "m \<le> n \<Longrightarrow> n \<le> NULL \<Longrightarrow> c = free_nodes n \<Longrightarrow> fchain c (if m < n then m else NULL) [m..<n]"
proof (induction "n - m" arbitrary: m)
  case (Suc d)
  have m: "m < n" "d = n - (m + 1)" "m + 1 \<le> n" using Suc.hyps(2) by linarith+
  have "fchain c (if m + 1 < n then m + 1 else NULL) [m + 1..<n]"
    using Suc.hyps(1) [OF m(2,3)] Suc.prems(2,3) by blast
  then have "fchain c m (m # [m + 1..<n])"
    using free_nodes_views [OF m(1)] unfolding Suc.prems(3) fchain.simps(2) by metis
  then show ?case using m(1) upt_conv_Cons [OF m(1)] by (simp only: if_True Suc_eq_plus1)
qed simp

lemma fresh_represents:
  assumes "caching s = free_nodes n" "shards s = empty_shards S" "mapping s = Map.empty"
    and "free_head s = (if n = 0 then NULL else 0)" "n \<le> NULL" "\<And>k. get_shard_idx hash s k < S"
  shows "represents hash s (replicate S [])"
proof -
  have len: "length (free_nodes n :: ('a, 'b) lru_node list) = n" by (simp add: free_nodes_def)
  have "fchain (free_nodes n :: ('a, 'b) lru_node list) (if 0 < n then 0 else NULL) [0..<n]"
    by (rule fchain_free_nodes) (use assms in simp_all)
  then have "arena (caching s) (shards s) (free_head s) (replicate S []) [0..<n]"
    using assms len by (auto simp: arena_def shard_ok_def empty_shards_def split: if_splits)
  moreover have "holds (get_shard_idx hash s) (caching s) (mapping s) (replicate S [])"
    using assms by (simp add: holds_def)
  ultimately have "lru_rep hash s (replicate S []) [0..<n]" using assms by (simp add: lru_rep_def)
  then show ?thesis
    by (rule representsI) (use assms len in \<open>simp_all add: lru_abs_def\<close>)
qed

lemma map_size:
  assumes r: "represents hash s A"
  shows "card (dom (mapping s)) = a_size A"
proof -
  obtain ls fl where rep: "lru_rep hash s ls fl" and A: "A = lru_abs (caching s) ls"
    by (rule representsD [OF r])
  note d = lru_repD [OF rep]
  let ?N = "\<Union>a < length ls. set (ls ! a)"
  have inj: "inj_on (\<lambda>k. the (mapping s k)) (dom (mapping s))"
  proof (rule inj_onI)
    fix k k' assume "k \<in> dom (mapping s)" "k' \<in> dom (mapping s)" "the (mapping s k) = the (mapping s k')"
    then obtain i where "mapping s k = Some i" "mapping s k' = Some i" by auto
    then have "fst (entry (caching s) i) = Some k" "fst (entry (caching s) i) = Some k'"
      using holds_map [OF d(2)] by blast+
    then show "k = k'" by simp
  qed
  have "(\<lambda>k. the (mapping s k)) ` dom (mapping s) = ?N"
  proof (intro equalityI subsetI)
    fix i assume "i \<in> (\<lambda>k. the (mapping s k)) ` dom (mapping s)"
    then obtain k where "mapping s k = Some i" by auto
    then show "i \<in> ?N" using holds_map [OF d(2)] by blast
  next
    fix i assume "i \<in> ?N"
    then obtain a where a: "a < length ls" "i \<in> set (ls ! a)" by blast
    obtain k where "mapping s k = Some i" by (rule holds_node [OF d(2) a])
    then show "i \<in> (\<lambda>k. the (mapping s k)) ` dom (mapping s)" by force
  qed
  then have "card (dom (mapping s)) = card ?N" using card_image [OF inj] by simp
  also have "\<dots> = (\<Sum>a < length ls. card (set (ls ! a)))"
    using arenaD(5) [OF d(1)] by (intro card_UN_disjoint) auto
  also have "\<dots> = (\<Sum>a < length ls. length (ls ! a))"
    using arenaD(2) [OF d(1)] by (intro sum.cong) (auto simp: distinct_card)
  also have "\<dots> = a_size A"
    by (simp add: A a_size_def lru_abs_def o_def sum_list_sum_nth atLeast0LessThan)
  finally show ?thesis .
qed

lemma lru_clear_refines:
  assumes r: "represents hash s A"
  shows "fst (lru_clear True s) = a_size A" "represents hash (snd (lru_clear True s)) (replicate (length A) [])"
    "length (caching (snd (lru_clear True s))) = length (caching s)"
proof -
  obtain ls fl where rep: "lru_rep hash s ls fl" and len: "length A = length ls"
    by (rule representsD [OF r])
  note d = lru_repD [OF rep]
  show "fst (lru_clear True s) = a_size A" using map_size [OF r] by (simp add: lru_clear_def)
  show "represents hash (snd (lru_clear True s)) (replicate (length A) [])"
    using d(3) arena_free(1,2) [OF d(1)] len
    by (intro fresh_represents [where n = "length (caching s)"]) (simp_all add: lru_clear_def Let_def)
  show "length (caching (snd (lru_clear True s))) = length (caching s)"
    by (simp add: lru_clear_def Let_def free_nodes_def)
qed

lemma lru_put_refines:
  assumes r: "represents hash s A"
  shows "represents hash (lru_put True hash env h k v s)
      (a_put (contended env) (length (caching s)) (get_shard_idx hash s k) k v A)"
    and "length (caching (lru_put True hash env h k v s)) = length (caching s)"
proof -
  note l = represents_lookup [OF r, of k]
  have "represents hash (lru_put True hash env h k v s)
      (a_put (contended env) (length (caching s)) (get_shard_idx hash s k) k v A)
    \<and> length (caching (lru_put True hash env h k v s)) = length (caching s)"
  proof (cases "mapping s k")
    case None
    then show ?thesis using put_shared_refines [OF r None] by (simp add: lru_put_def)
  next
    case (Some i)
    then show ?thesis using put_update_refines [OF r Some] l by (simp add: lru_put_def a_put_def)
  qed
  then show "represents hash (lru_put True hash env h k v s)
      (a_put (contended env) (length (caching s)) (get_shard_idx hash s k) k v A)"
    and "length (caching (lru_put True hash env h k v s)) = length (caching s)" by blast+
qed

end
