(* ===== verification/Lru_History.thy ===== *)
theory Lru_History
  imports Lru_Refine
begin

text \<open>
  Histories of cache operations. The locale \<open>simulation\<close> is the contract between a machine and
  its specification, step by step; its lemma carries it to histories. The cache with the shared
  arena is interpreted in it with the abstract cache of \<open>Lru_Refine\<close>, and what a client relies on
  (values, capacity, recency) is shown on the abstract side.
\<close>

section \<open>Machines and their specifications\<close>

fun run :: "('c \<Rightarrow> 's \<Rightarrow> 'o \<times> 's) \<Rightarrow> 'c list \<Rightarrow> 's \<Rightarrow> 'o list \<times> 's" where
  "run step [] s = ([], s)"
| "run step (c # cs) s =
     (let (out, s) = step c s; (outs, s) = run step cs s in (out # outs, s))"

lemma run_append:
  "run step (cs @ ds) s = (let (o1, s1) = run step cs s; (o2, s2) = run step ds s1 in (o1 @ o2, s2))"
  by (induction cs arbitrary: s) (simp_all add: Let_def split: prod.split)

lemma run_inv:
  "I s \<Longrightarrow> (\<And>c s. c \<in> set cs \<Longrightarrow> I s \<Longrightarrow> I (snd (step c s))) \<Longrightarrow> I (snd (run step cs s))"
  by (induction cs arbitrary: s) (simp_all add: Let_def case_prod_unfold)

locale simulation =
  fixes step :: "'c \<Rightarrow> 's \<Rightarrow> 'o \<times> 's" and astep :: "'c \<Rightarrow> 'a \<Rightarrow> 'o \<times> 'a" and rel :: "'s \<Rightarrow> 'a \<Rightarrow> bool"
  assumes same_output: "rel s a \<Longrightarrow> fst (step c s) = fst (astep c a)"
    and related: "rel s a \<Longrightarrow> rel (snd (step c s)) (snd (astep c a))"
begin

lemma run_simulates:
  "rel s a \<Longrightarrow> fst (run step cs s) = fst (run astep cs a) \<and> rel (snd (run step cs s)) (snd (run astep cs a))"
proof (induction cs arbitrary: s a)
  case (Cons c cs)
  show ?case
    using same_output [OF Cons.prems] Cons.IH [OF related [OF Cons.prems, of c]]
    by (simp add: Let_def case_prod_unfold)
qed simp

end

section \<open>The cache as a machine\<close>

datatype ('k, 'v) lru_op = LGet 'k | LPut 'k 'v | LRemove 'k | LClear

datatype 'v lru_out = Value "'v option" | Done | Count nat

type_synonym ('k, 'v) lru_call = "lru_env \<times> ('k, 'v) lru_op"

fun lru_step ::
    "bool \<Rightarrow> ('k \<Rightarrow> u64) \<Rightarrow> ('k, 'v) lru_hooks \<Rightarrow> ('k, 'v) lru_call \<Rightarrow> ('k, 'v) lru \<Rightarrow> 'v lru_out \<times> ('k, 'v) lru" where
  "lru_step shared hash h (env, LGet k) s = (let (v, s) = lru_get hash env k s in (Value v, s))"
| "lru_step shared hash h (env, LPut k v) s = (Done, lru_put shared hash env h k v s)"
| "lru_step shared hash h (env, LRemove k) s = (let (v, s) = lru_remove shared hash env h k s in (Value v, s))"
| "lru_step shared hash h (env, LClear) s = (let (n, s) = lru_clear shared s in (Count n, s))"

fun a_step :: "('k \<Rightarrow> nat) \<Rightarrow> nat \<Rightarrow> ('k, 'v) lru_call \<Rightarrow> ('k, 'v) acache \<Rightarrow> 'v lru_out \<times> ('k, 'v) acache" where
  "a_step idx cap (env, LGet k) A =
     (Value (map_of (A ! idx k) k), A[idx k := a_touch (contended env) k (A ! idx k)])"
| "a_step idx cap (env, LPut k v) A = (Done, a_put (contended env) cap (idx k) k v A)"
| "a_step idx cap (env, LRemove k) A =
     (Value (map_of (A ! idx k) k), A[idx k := a_drop k (A ! idx k)])"
| "a_step idx cap (env, LClear) A = (Count (a_size A), replicate (length A) [])"

definition lru_rel ::
    "('k \<Rightarrow> u64) \<Rightarrow> ('k \<Rightarrow> nat) \<Rightarrow> nat \<Rightarrow> ('k, 'v) lru \<Rightarrow> ('k, 'v) acache \<Rightarrow> bool" where
  "lru_rel hash idx cap s A \<longleftrightarrow>
     represents hash s A \<and> length (caching s) = cap \<and> get_shard_idx hash s = idx"

lemma get_shard_idx_mask: "shard_mask s' = shard_mask s \<Longrightarrow> get_shard_idx hash s' = get_shard_idx hash s"
  by (simp add: get_shard_idx_def fun_eq_iff)

lemma persist_point_mask [simp]: "shard_mask (persist_point env h k v s) = shard_mask s"
  using persist_point_log [of env h k v s] by auto

lemma touch_mask [simp]: "shard_mask (touch env sh i s) = shard_mask s"
  by (simp add: touch_def)

lemma acquire_mask: "acquire_node sh s = Some (i, e, s') \<Longrightarrow> shard_mask s' = shard_mask s"
  by (auto simp: acquire_node_def free_pop_def evict_last_def Let_def unlink_cut
      split: option.splits if_splits prod.splits)

lemma put_mask [simp]: "shard_mask (lru_put True hash env h k v s) = shard_mask s"
proof (cases "mapping s k")
  case None
  have "shard_mask (link_entry sh i k v s) = shard_mask s" for sh i s
    by (simp add: link_entry_def Let_def)
  then show ?thesis
    using None by (auto simp: lru_put_def put_shared_link Let_def log_event_def dest!: acquire_mask split: option.split)
next
  case (Some i)
  then show ?thesis by (simp add: lru_put_def put_update_def Let_def log_event_def)
qed

lemma step_mask: "shard_mask (snd (lru_step True hash h c s)) = shard_mask s"
  by (cases "(True, hash, h, c, s)" rule: lru_step.cases)
    (auto simp: lru_get_def lru_remove_def lru_clear_def Let_def free_push_def unlink_cut split: option.split)

interpretation cache: simulation "lru_step True hash h" "a_step idx cap" "lru_rel hash idx cap"
  for hash h idx cap
proof
  fix c :: "('a, 'b) lru_call" and s :: "('a, 'b) lru" and A assume r: "lru_rel hash idx cap s A"
  then have r': "represents hash s A" and cap: "cap = length (caching s)" and idx: "idx = get_shard_idx hash s"
    by (auto simp: lru_rel_def)
  note g = lru_get_refines [OF r'] and p = lru_put_refines [OF r'] and rm = lru_remove_refines [OF r']
    and cl = lru_clear_refines [OF r']
  obtain env x where c: "c = (env, x)" by (cases c)
  show "fst (lru_step True hash h c s) = fst (a_step idx cap c A)"
    using g(1) rm(1) cl(1) by (cases x) (simp_all add: c idx Let_def case_prod_unfold)
  have "represents hash (snd (lru_step True hash h c s)) (snd (a_step idx cap c A))
      \<and> length (caching (snd (lru_step True hash h c s))) = cap"
    using g(2,3) p rm(2,3) cl(2,3) by (cases x) (simp_all add: c idx cap Let_def case_prod_unfold)
  then show "lru_rel hash idx cap (snd (lru_step True hash h c s)) (snd (a_step idx cap c A))"
    using get_shard_idx_mask [OF step_mask, of hash hash h c s] by (simp add: lru_rel_def idx)
qed

section \<open>The cache as it is built\<close>

definition lru_shard :: "('k \<Rightarrow> u64) \<Rightarrow> nat \<Rightarrow> 'k \<Rightarrow> nat" where
  "lru_shard hash S k = unat (hash k AND of_nat (S - 1))"

lemma lru_shard_less:
  assumes "is_power_of_two S"
  shows "lru_shard hash S k < S"
proof -
  obtain e where e: "S = 2 ^ e" "e < 64" using assms by (auto simp: is_power_of_two_def)
  have "2 ^ e < (2 ^ 64 :: nat)" using e(2) by (intro power_strict_increasing) simp_all
  then have "unat (of_nat (S - 1) :: u64) = S - 1" unfolding unat_of_nat e(1) by (intro mod_less) simp
  moreover have "hash k AND of_nat (S - 1) \<le> (of_nat (S - 1) :: u64)" by (rule word_and_le1)
  ultimately have "lru_shard hash S k \<le> S - 1" by (simp add: lru_shard_def word_le_nat_alt)
  moreover have "0 < S" using e by simp
  ultimately show ?thesis by linarith
qed

lemma new_related:
  assumes new: "lru_new True S cap = Some s" and cap: "cap \<le> NULL"
  shows "lru_rel hash (lru_shard hash S) cap s (replicate S [])"
proof -
  have S: "is_power_of_two S" "S > 0" and s: "s = \<lparr>mapping = Map.empty, caching = free_nodes cap, shards = empty_shards S,
      shard_mask = of_nat (S - 1), free_head = (if cap = 0 then NULL else 0), lru_log = []\<rparr>"
    using new by (auto simp: lru_new_def split: if_splits)
  have idx: "get_shard_idx hash s = lru_shard hash S" by (simp add: s get_shard_idx_def lru_shard_def fun_eq_iff)
  have "represents hash s (replicate S [])"
    by (rule fresh_represents [where n = cap]) (use cap S lru_shard_less idx in \<open>simp_all add: s\<close>)
  then show ?thesis using idx by (simp add: lru_rel_def s free_nodes_def)
qed

lemmas cache_run = cache.run_simulates [OF new_related]

section \<open>Lookups in the abstract cache\<close>

definition a_find :: "('k \<Rightarrow> nat) \<Rightarrow> ('k, 'v) acache \<Rightarrow> 'k \<Rightarrow> 'v option" where
  "a_find idx A k = map_of (A ! idx k) k"

lemma map_of_drop: "map_of (a_drop k xs) k' = (if k' = k then None else map_of xs k')"
  by (induction xs) (auto simp: a_drop_def)

lemma map_of_touch [simp]: "map_of (a_touch b k xs) k' = map_of xs k'"
  by (auto simp: a_touch_def a_promote_def map_of_drop split: option.split)

lemma map_of_set_value:
  "map_of (map (\<lambda>e. if fst e = k then (k, v) else e) xs) k' =
     (if k' = k \<and> map_of xs k \<noteq> None then Some v else map_of xs k')"
  by (induction xs) auto

lemma map_of_butlast: "map_of (butlast xs) k = Some v \<Longrightarrow> map_of xs k = Some v"
  by (induction xs) (auto split: if_splits)

lemma a_evict_length [simp]: "length (a_evict A) = length A"
  by (simp add: a_evict_def split: option.split)

lemma a_put_length [simp]: "length (a_put b cap sh k v A) = length A"
  by (simp add: a_put_def Let_def)

lemma a_step_length [simp]: "length (snd (a_step idx cap c A)) = length A"
  by (cases "(idx, cap, c, A)" rule: a_step.cases) simp_all

lemma a_evict_find:
  assumes "map_of (a_evict A ! a) k = Some v"
  shows "map_of (A ! a) k = Some v"
proof (cases "find (\<lambda>a. A ! a \<noteq> []) [0..<length A]")
  case (Some b)
  then have "b < length A" by (auto simp: find_Some_iff)
  then show ?thesis using assms Some map_of_butlast by (cases "a = b") (auto simp: a_evict_def)
qed (use assms in \<open>simp add: a_evict_def\<close>)

text \<open>The value a key was last given, unless removed since.\<close>

fun last_write :: "'k \<Rightarrow> ('k, 'v) lru_call list \<Rightarrow> 'v option \<Rightarrow> 'v option" where
  "last_write k [] w = w"
| "last_write k ((_, LGet _) # cs) w = last_write k cs w"
| "last_write k ((_, LPut k' v) # cs) w = last_write k cs (if k' = k then Some v else w)"
| "last_write k ((_, LRemove k') # cs) w = last_write k cs (if k' = k then None else w)"
| "last_write k ((_, LClear) # cs) w = last_write k cs None"

lemma last_write_append: "last_write k (cs @ ds) w = last_write k ds (last_write k cs w)"
  by (induction k cs w rule: last_write.induct) simp_all

lemma a_find_update:
  "idx k < length A \<Longrightarrow> a_find idx (A[a := xs]) k = (if idx k = a then map_of xs k else a_find idx A k)"
  by (simp add: a_find_def)

lemma a_put_find:
  fixes A :: "('k, 'v) acache" and k :: 'k and v :: 'v and b :: bool and cap :: nat
  assumes "\<And>k. idx k < length A"
  defines "B \<equiv> a_put b cap (idx k) k v A"
  shows "a_find idx B k = (if cap > 0 \<or> a_find idx A k \<noteq> None then Some v else None)"
    and "k' \<noteq> k \<Longrightarrow> a_find idx B k' = Some w \<Longrightarrow> a_find idx A k' = Some w"
    and "k' \<noteq> k \<Longrightarrow> a_find idx A k \<noteq> None \<or> a_size A < cap \<Longrightarrow> a_find idx B k' = a_find idx A k'"
proof -
  let ?A = "if a_size A < cap then A else a_evict A"
  have evict: "a_find idx ?A j = Some u \<Longrightarrow> a_find idx A j = Some u" for j u
    using a_evict_find [of A] by (auto simp: a_find_def split: if_splits)
  have B: "B = (if a_find idx A k \<noteq> None
      then A[idx k := a_touch b k (map (\<lambda>e. if fst e = k then (k, v) else e) (A ! idx k))]
      else if cap = 0 then A else ?A[idx k := (k, v) # ?A ! idx k])"
    by (simp add: B_def a_put_def a_find_def Let_def)
  have upd: "a_find idx (?A[idx k := (k, v) # ?A ! idx k]) j = (if j = k then Some v else a_find idx ?A j)" for j
    using a_find_update [of idx j ?A "idx k"] assms(1) by (simp add: a_find_def)
  have hit: "a_find idx (A[idx k := a_touch b k (map (\<lambda>e. if fst e = k then (k, v) else e) (A ! idx k))]) j
      = (if j = k then Some v else a_find idx A j)" if "a_find idx A k \<noteq> None" for j
    using a_find_update [of idx j A "idx k"] assms(1) that by (simp add: a_find_def map_of_set_value)
  show "a_find idx B k = (if cap > 0 \<or> a_find idx A k \<noteq> None then Some v else None)"
    using upd [of k] hit [of k] by (simp add: B)
  show "a_find idx A k' = Some w" if "k' \<noteq> k" "a_find idx B k' = Some w"
    using that upd [of k'] hit [of k'] evict [of k' w] unfolding B by (auto split: if_splits)
  show "a_find idx B k' = a_find idx A k'" if "k' \<noteq> k" "a_find idx A k \<noteq> None \<or> a_size A < cap"
    using that upd [of k'] hit [of k'] unfolding B by (auto split: if_splits)
qed

text \<open>One step on lookups: never a value that was not written, and exactly the last one written
  as long as there is room.\<close>

lemma a_step_find:
  fixes A :: "('k, 'v) acache"
  assumes "\<And>k. idx k < length A"
  shows "a_find idx (snd (a_step idx cap c A)) k = Some v \<Longrightarrow>
      (\<And>w. a_find idx A k = Some w \<Longrightarrow> last_write k cs u = Some w) \<Longrightarrow> last_write k (cs @ [c]) u = Some v"
    and "(\<And>env j w. c = (env, LPut j w) \<Longrightarrow> a_find idx A j \<noteq> None \<or> a_size A < cap) \<Longrightarrow>
      a_find idx A k = last_write k cs u \<Longrightarrow> a_find idx (snd (a_step idx cap c A)) k = last_write k (cs @ [c]) u"
proof -
  obtain env x where c: "c = (env, x)" by (cases c)
  note put = a_put_find [of idx A, OF assms]
  have get: "a_find idx (A[idx j := a_touch b j (A ! idx j)]) k = a_find idx A k" for j b
    using assms by (simp add: a_find_update) (simp add: a_find_def)
  have rem: "a_find idx (A[idx j := a_drop j (A ! idx j)]) k = (if k = j then None else a_find idx A k)" for j
    using assms by (simp add: a_find_update map_of_drop) (simp add: a_find_def)
  have clr: "a_find idx (replicate (length A) [] :: ('k, 'v) acache) k = None" using assms by (simp add: a_find_def)
  show "last_write k (cs @ [c]) u = Some v"
    if "a_find idx (snd (a_step idx cap c A)) k = Some v" "\<And>w. a_find idx A k = Some w \<Longrightarrow> last_write k cs u = Some w"
  proof (cases x)
    case (LPut j w)
    then show ?thesis using that put(1) [of "contended env" cap j w] put(2) [of k j "contended env" cap w v]
      by (cases "k = j") (auto simp: c last_write_append split: if_splits)
  qed (use that get rem clr in \<open>auto simp: c last_write_append split: if_splits\<close>)
  show "a_find idx (snd (a_step idx cap c A)) k = last_write k (cs @ [c]) u"
    if "\<And>env j w. c = (env, LPut j w) \<Longrightarrow> a_find idx A j \<noteq> None \<or> a_size A < cap" "a_find idx A k = last_write k cs u"
  proof (cases x)
    case (LPut j w)
    then have "a_find idx A j \<noteq> None \<or> a_size A < cap" using that(1) c by simp
    then show ?thesis using that(2) LPut put(1) [of "contended env" cap j w] put(3) [of k j cap "contended env" w]
      by (cases "k = j") (auto simp: c last_write_append)
  qed (use that get rem clr in \<open>auto simp: c last_write_append\<close>)
qed

section \<open>Properties of the cache\<close>

definition puts :: "('k, 'v) lru_call list \<Rightarrow> 'k set" where
  "puts cs = {k. \<exists>env v. (env, LPut k v) \<in> set cs}"

lemma puts_finite [simp]: "finite (puts cs)"
proof -
  have "puts cs \<subseteq> (\<lambda>c. case snd c of LPut k v \<Rightarrow> k | _ \<Rightarrow> undefined) ` set cs"
    unfolding puts_def by (force split: lru_op.split)
  then show ?thesis by (rule finite_subset) simp
qed

lemma last_write_puts: "last_write k cs None \<noteq> None \<Longrightarrow> k \<in> puts cs"
proof (induction cs rule: rev_induct)
  case (snoc c cs)
  obtain env x where "c = (env, x)" by (cases c)
  then show ?case using snoc by (cases x) (auto simp: last_write_append puts_def split: if_splits)
qed simp

lemma run_snoc: "snd (run step (cs @ [c]) s) = snd (step c (snd (run step cs s)))"
  by (simp add: run_append Let_def case_prod_unfold)

lemma run_length: "length (snd (run (a_step idx cap) cs A)) = length A"
  by (induction cs rule: rev_induct) (simp_all add: run_snoc)

text \<open>Lookups along a history, with and without evictions.\<close>

lemma run_find:
  assumes "\<And>k. idx k < S"
  shows "a_find idx (snd (run (a_step idx cap) cs (replicate S []))) k = Some v \<Longrightarrow> last_write k cs None = Some v"
proof (induction cs arbitrary: v rule: rev_induct)
  case (snoc c cs)
  let ?A = "snd (run (a_step idx cap) cs (replicate S []))"
  have "\<And>k. idx k < length ?A" using assms by (simp add: run_length)
  from a_step_find(1) [OF this] snoc show ?case by (simp add: run_snoc)
qed (use assms in \<open>simp add: a_find_def\<close>)

lemma run_find_exact:
  fixes s :: "('k, 'v) lru" and cs :: "('k, 'v) lru_call list"
  assumes S: "\<And>k. lru_shard hash S k < S" and new: "lru_rel hash (lru_shard hash S) cap s (replicate S [])"
    and room: "card (puts cs) \<le> cap"
  shows "a_find (lru_shard hash S) (snd (run (a_step (lru_shard hash S) cap) cs (replicate S []))) k = last_write k cs None"
  using room
proof (induction cs arbitrary: k rule: rev_induct)
  case (snoc c cs)
  let ?idx = "lru_shard hash S"
  let ?A = "snd (run (a_step ?idx cap) cs (replicate S []))" and ?s = "snd (run (lru_step True hash no_hooks) cs s)"
  have sub: "puts cs \<subseteq> puts (cs @ [c])" by (auto simp: puts_def)
  then have IH: "a_find ?idx ?A j = last_write j cs None" for j
    using snoc card_mono [OF puts_finite sub] by (meson le_trans)
  have rel: "lru_rel hash ?idx cap ?s ?A" using cache.run_simulates [OF new] by blast
  have len: "\<And>k. ?idx k < length ?A" using S by (simp add: run_length)
  have dom: "dom (mapping ?s) \<subseteq> puts cs"
  proof
    fix j assume "j \<in> dom (mapping ?s)"
    then obtain i where i: "mapping ?s j = Some i" by auto
    have "a_find ?idx ?A j \<noteq> None"
      using represents_lookup [of hash ?s ?A j] rel i by (auto simp: lru_rel_def a_find_def)
    then show "j \<in> puts cs" using IH last_write_puts by metis
  qed
  have "a_find ?idx ?A j \<noteq> None \<or> a_size ?A < cap" if c: "c = (env, LPut j w)" for env j w
  proof (rule ccontr)
    assume "\<not> ?thesis"
    then have none: "a_find ?idx ?A j = None" and full: "cap \<le> a_size ?A" by auto
    have "j \<notin> dom (mapping ?s)"
      using represents_lookup [of hash ?s ?A j] rel none by (auto simp: lru_rel_def a_find_def)
    moreover have "j \<in> puts (cs @ [c])" using c by (auto simp: puts_def)
    ultimately have "dom (mapping ?s) \<subset> puts (cs @ [c])" using dom sub by blast
    then have "card (dom (mapping ?s)) < card (puts (cs @ [c]))" by (rule psubset_card_mono [OF puts_finite])
    moreover have "card (dom (mapping ?s)) = a_size ?A" using map_size rel by (auto simp: lru_rel_def)
    ultimately show False using full snoc.prems by linarith
  qed
  then show ?case using a_step_find(2) [OF len _ IH, of c cap] by (simp add: run_snoc)
qed (use S in \<open>simp add: a_find_def\<close>)

lemma represents_size:
  assumes "represents hash s A"
  shows "a_size A \<le> length (caching s)"
proof -
  obtain ls and fl :: "nat list" where "length fl + sum_list (map length ls) = length (caching s)" "A = lru_abs (caching s) ls"
    using assms unfolding represents_def by blast
  then show ?thesis by (simp add: a_size_def lru_abs_def o_def)
qed

lemma new_shards: "lru_new True S cap = Some s \<Longrightarrow> lru_shard hash S k < S"
  by (rule lru_shard_less) (auto simp: lru_new_def split: if_splits)

lemma get_find:
  assumes "lru_rel hash idx cap s A"
  shows "fst (lru_get hash env k s) = a_find idx A k"
  using lru_get_refines(1) [of hash s A env k] assms by (auto simp: lru_rel_def a_find_def)

lemma small_powers [simp]: "is_power_of_two (Suc 0)" "is_power_of_two 2"
proof -
  show "is_power_of_two (Suc 0)" unfolding is_power_of_two_def set_map by (rule image_eqI [of _ _ 0]) simp_all
  show "is_power_of_two 2" unfolding is_power_of_two_def set_map by (rule image_eqI [of _ _ 1]) simp_all
qed

text \<open>A call that finds its lock free and no runtime, for the examples.\<close>

definition calm :: lru_env where "calm = \<lparr>wall_ms = 0, has_runtime = False, contended = False\<rparr>"

text \<open>C3: With the shared arena, every history of gets, puts, removals and clears gives exactly the
  outputs of the abstract cache, which keeps per shard the list of entries in order of use,
  whichever \<open>try_lock\<close> calls fail and whichever hooks are attached. This covers all the pointer
  surgery on the arena and the free list.\<close>

theorem lru_refines:
  assumes "lru_new True S cap = Some s" and "cap \<le> NULL"
  shows "fst (run (lru_step True hash h) cs s) = fst (run (a_step (lru_shard hash S) cap) cs (replicate S []))"
  using cache_run [OF assms] by blast

text \<open>Witness of C3: two shards, three nodes, a history that evicts.\<close>

theorem lru_refines_witness:
  "fst (run (lru_step True (\<lambda>k. k) no_hooks)
       [(calm, LPut 1 10), (calm\<lparr>contended := True\<rparr>, LGet (1 :: u64))] (the (lru_new True 2 3)))
   = [Done, Value (Some (10 :: nat))]"
proof -
  have new: "lru_new True 2 3 = Some (the (lru_new True 2 3) :: (u64, nat) lru)" by (simp add: lru_new_def)
  have eq: "fst (run (lru_step True (\<lambda>k. k) no_hooks) [(calm, LPut 1 10), (calm\<lparr>contended := True\<rparr>, LGet (1 :: u64))]
        (the (lru_new True 2 3)))
    = fst (run (a_step (lru_shard (\<lambda>k. k) 2) 3) [(calm, LPut 1 (10 :: nat)), (calm\<lparr>contended := True\<rparr>, LGet 1)] (replicate 2 []))"
    by (rule lru_refines [OF new]) (simp add: NULL_def)
  have "lru_shard (\<lambda>k. k) 2 (1 :: u64) = 1" by (simp add: lru_shard_def)
  then show ?thesis unfolding eq by (simp add: a_put_def a_size_def Let_def eval_nat_numeral)
qed

text \<open>C18: With the shared arena (feature \<open>lru-shared-memory\<close>, the default of \<open>opsense-core\<close>): as long
  as no more keys were put than the capacity, the cache is a map: a lookup returns exactly the
  value last put and not removed since, however the keys fall on the shards. Without the feature
  the capacity is cut into one block per shard and this does not hold (see \<open>Lru_Blocks\<close>).\<close>

theorem lru_exact_below_capacity:
  assumes "lru_new True S cap = Some s" and "cap \<le> NULL" and "card (puts cs) \<le> cap"
  shows "fst (lru_get hash env k (snd (run (lru_step True hash h) cs s))) = last_write k cs None"
proof -
  have "lru_rel hash (lru_shard hash S) cap (snd (run (lru_step True hash h) cs s))
      (snd (run (a_step (lru_shard hash S) cap) cs (replicate S [])))"
    using cache_run [OF assms(1,2)] by blast
  then show ?thesis
    using run_find_exact [OF new_shards [OF assms(1)] new_related [OF assms(1,2)] assms(3)] by (simp add: get_find)
qed

text \<open>Witness of C18.\<close>

theorem lru_exact_below_capacity_witness:
  "fst (lru_get (\<lambda>k. k) calm (3 :: u64)
      (snd (run (lru_step True (\<lambda>k. k) no_hooks)
        [(calm, LPut 1 (10 :: nat)),
         (calm, LPut 3 30)] (the (lru_new True 2 2))))) = Some 30"
proof -
  have new: "lru_new True 2 2 = Some (the (lru_new True 2 2) :: (u64, nat) lru)" by (simp add: lru_new_def)
  let ?cs = "[(calm, LPut (1 :: u64) (10 :: nat)),
         (calm, LPut 3 30)]"
  have "puts ?cs = {1, 3}" by (auto simp: puts_def)
  then have "card (puts ?cs) \<le> 2" by simp
  then show ?thesis
    using lru_exact_below_capacity [OF new, of ?cs "\<lambda>k. k" "calm" 3 no_hooks]
    by (simp add: NULL_def)
qed

section \<open>Recency\<close>

text \<open>With one shard: the entries in front of a key are those of keys used since.\<close>

definition fresh_pos :: "'k \<Rightarrow> 'v \<Rightarrow> 'k set \<Rightarrow> ('k \<times> 'v) list \<Rightarrow> bool" where
  "fresh_pos k v D xs \<longleftrightarrow>
     distinct (map fst xs) \<and> (\<exists>ys zs. xs = ys @ (k, v) # zs \<and> fst ` set ys \<subseteq> D)"

lemma distinct_drop: "distinct (map fst xs) \<Longrightarrow> distinct (map fst (a_drop k xs)) \<and> k \<notin> fst ` set (a_drop k xs)"
  by (induction xs) (auto simp: a_drop_def)

lemma distinct_promote: "distinct (map fst xs) \<Longrightarrow> distinct (map fst (a_promote k xs))"
  using distinct_drop [of xs k] by (auto simp: a_promote_def split: option.split)

lemma keys_set_value [simp]: "map fst (map (\<lambda>e. if fst e = k then (k, v) else e) xs) = map fst xs"
  by (induction xs) auto

lemma fresh_drop: "fresh_pos k v D xs \<Longrightarrow> j \<noteq> k \<Longrightarrow> fresh_pos k v D (a_drop j xs)"
proof -
  assume f: "fresh_pos k v D xs" and j: "j \<noteq> k"
  then obtain ys zs where xs: "xs = ys @ (k, v) # zs" "fst ` set ys \<subseteq> D" unfolding fresh_pos_def by blast
  have "a_drop j xs = a_drop j ys @ (k, v) # a_drop j zs" using j xs(1) by (simp add: a_drop_def)
  moreover have "fst ` set (a_drop j ys) \<subseteq> D" using xs(2) by (auto simp: a_drop_def)
  ultimately show ?thesis using distinct_drop [of xs j] f unfolding fresh_pos_def by blast
qed

lemma fresh_promote:
  assumes f: "fresh_pos k v D xs" and j: "j = k \<or> j \<in> D"
  shows "fresh_pos k v D (a_promote j xs)"
proof (cases "map_of xs j")
  case (Some w)
  obtain ys zs where xs: "xs = ys @ (k, v) # zs" and d: "distinct (map fst xs)" using f unfolding fresh_pos_def by blast
  show ?thesis
  proof (cases "j = k")
    case True
    have "map_of xs k = Some v" using d xs by (intro map_of_is_SomeI) simp_all
    then have "a_promote j xs = [] @ (k, v) # a_drop j xs" using True by (simp add: a_promote_def)
    then show ?thesis using distinct_promote [OF d, of j] unfolding fresh_pos_def
      by (intro conjI exI [of _ "[]"] exI [of _ "a_drop j xs"]) simp_all
  next
    case False
    then obtain ys zs where "a_drop j xs = ys @ (k, v) # zs" "fst ` set ys \<subseteq> D"
      using fresh_drop [OF f False] unfolding fresh_pos_def by blast
    then have "a_promote j xs = ((j, w) # ys) @ (k, v) # zs" "fst ` set ((j, w) # ys) \<subseteq> D"
      using Some j False by (auto simp: a_promote_def)
    then show ?thesis using distinct_promote [OF d, of j] unfolding fresh_pos_def by blast
  qed
qed (use f in \<open>simp add: a_promote_def\<close>)

lemma fresh_touch: "fresh_pos k v D xs \<Longrightarrow> j = k \<or> j \<in> D \<Longrightarrow> fresh_pos k v D (a_touch b j xs)"
  by (cases b) (simp_all only: a_touch_def fresh_promote if_True if_False)

lemma fresh_set_value:
  assumes "fresh_pos k v D xs" and "j \<noteq> k"
  shows "fresh_pos k v D (map (\<lambda>e. if fst e = j then (j, w) else e) xs)"
proof -
  let ?f = "\<lambda>e. if fst e = j then (j, w) else e"
  obtain ys zs where xs: "xs = ys @ (k, v) # zs" "fst ` set ys \<subseteq> D" using assms unfolding fresh_pos_def by blast
  have "fst ` set (map ?f ys) \<subseteq> D" using xs(2) by auto
  moreover have "map ?f xs = map ?f ys @ (k, v) # map ?f zs" using assms(2) xs(1) by simp
  moreover have "distinct (map fst (map ?f xs))" using assms(1) unfolding keys_set_value fresh_pos_def by blast
  ultimately show ?thesis unfolding fresh_pos_def by blast
qed

text \<open>A full shard gives up its last entry, which is not the key while fewer keys than the
  capacity were used since.\<close>

lemma fresh_insert:
  assumes f: "fresh_pos k v D xs" and new: "j \<notin> fst ` set xs" "j \<in> D" and D: "finite D" "card D < cap"
    and full: "length xs \<ge> cap \<Longrightarrow> xs' = butlast xs" "length xs < cap \<Longrightarrow> xs' = xs"
  shows "fresh_pos k v D ((j, w) # xs')"
proof -
  obtain ys zs where xs: "xs = ys @ (k, v) # zs" "fst ` set ys \<subseteq> D" and d: "distinct (map fst xs)"
    using f unfolding fresh_pos_def by blast
  have "length ys = card (fst ` set ys)"
    using d xs(1) distinct_card [of "map fst ys"] by simp
  also have "\<dots> < card D"
    using xs new D(1) by (intro psubset_card_mono) auto
  finally have len: "Suc (length ys) < cap" using D(2) by linarith
  obtain zs' where "xs' = ys @ (k, v) # zs'"
  proof (cases "length xs < cap")
    case True
    then show ?thesis using that full(2) xs(1) by blast
  next
    case False
    then have "zs \<noteq> []" using len xs(1) by auto
    then have "xs' = ys @ (k, v) # butlast zs" using full(1) False xs(1) by (simp add: butlast_append)
    then show ?thesis using that by blast
  qed
  moreover have "distinct (map fst ((j, w) # xs'))"
  proof -
    have "xs' = xs \<or> xs' = butlast xs" using full by force
    then have "set xs' \<subseteq> set xs" "distinct (map fst xs')"
      using d by (auto dest: in_set_butlastD simp: map_butlast distinct_butlast)
    then show ?thesis using new(1) by auto
  qed
  ultimately show ?thesis using xs(2) new(2) unfolding fresh_pos_def
    by (intro conjI exI [of _ "(j, w) # ys"] exI [of _ zs']) auto
qed

text \<open>The calls that use at most the keys \<open>D\<close> besides \<open>k\<close> and do not drop \<open>k\<close>.\<close>

fun keeps :: "'k \<Rightarrow> 'k set \<Rightarrow> ('k, 'v) lru_call \<Rightarrow> bool" where
  "keeps k D (_, LGet j) = (j = k \<or> j \<in> D)"
| "keeps k D (_, LPut j _) = (j \<in> D)"
| "keeps k D (_, LRemove j) = (j \<noteq> k)"
| "keeps k D (_, LClear) = False"

lemma one_shard_evict: "a_evict [xs] = [butlast xs]"
  by (simp add: a_evict_def)

lemma fresh_step:
  assumes f: "fresh_pos k v D xs" and ok: "keeps k D c" and D: "finite D" "card D < cap" "k \<notin> D"
  shows "\<exists>xs'. snd (a_step (\<lambda>_. 0) cap c [xs]) = [xs'] \<and> fresh_pos k v D xs'"
proof -
  obtain env x where c: "c = (env, x)" by (cases c)
  show ?thesis
  proof (cases x)
    case (LPut j w)
    then have j: "j \<in> D" "j \<noteq> k" using ok c D(3) by auto
    let ?xs = "if length xs < cap then xs else butlast xs"
    show ?thesis
    proof (cases "map_of xs j")
      case None
      then have "fresh_pos k v D ((j, w) # ?xs)"
        using fresh_insert [OF f _ j(1) D(1,2), of ?xs w] by (simp add: map_of_eq_None_iff)
      then show ?thesis using None LPut D(2) by (auto simp: c a_put_def a_size_def one_shard_evict Let_def)
    next
      case (Some u)
      then show ?thesis using LPut fresh_touch [OF fresh_set_value [OF f j(2)]] j(1) by (simp add: c a_put_def)
    qed
  qed (use f ok c in \<open>auto intro: fresh_touch fresh_drop\<close>)
qed

lemma fresh_run:
  assumes "fresh_pos k v D xs" and "list_all (keeps k D) cs" and "finite D" "card D < cap" "k \<notin> D"
  shows "\<exists>xs'. snd (run (a_step (\<lambda>_. 0) cap) cs [xs]) = [xs'] \<and> fresh_pos k v D xs'"
  using assms(1,2)
proof (induction cs arbitrary: xs)
  case (Cons c cs)
  then obtain xs1 where "snd (a_step (\<lambda>_. 0) cap c [xs]) = [xs1]" "fresh_pos k v D xs1"
    using fresh_step [OF _ _ assms(3-5), of v xs c] by auto
  then show ?case using Cons.IH [of xs1] Cons.prems by (simp add: Let_def case_prod_unfold)
qed simp

lemma fresh_put:
  assumes "distinct (map fst xs)" and "0 < cap"
  shows "\<exists>xs'. a_put False cap 0 k v [xs] = [xs'] \<and> fresh_pos k v D xs'"
proof (cases "map_of xs k")
  case None
  let ?xs = "if length xs < cap then xs else butlast xs"
  have "distinct (map fst ((k, v) # ?xs))"
    using assms(1) None by (auto simp: map_of_eq_None_iff map_butlast distinct_butlast dest: in_set_butlastD)
  then have "fresh_pos k v D ((k, v) # ?xs)"
    unfolding fresh_pos_def by (intro conjI exI [of _ "[]"] exI [of _ ?xs]) simp_all
  then show ?thesis using None assms(2) by (auto simp: a_put_def a_size_def one_shard_evict Let_def)
next
  case (Some u)
  let ?xs = "map (\<lambda>e. if fst e = k then (k, v) else e) xs"
  have "map_of ?xs k = Some v" using Some by (simp add: map_of_set_value)
  then have p: "a_promote k ?xs = [] @ (k, v) # a_drop k ?xs" by (simp add: a_promote_def)
  have "distinct (map fst (a_promote k ?xs))"
    using assms(1) by (intro distinct_promote) (simp only: keys_set_value)
  then have "fresh_pos k v D (a_promote k ?xs)"
    using p unfolding fresh_pos_def by (intro conjI exI [of _ "[]"] exI [of _ "a_drop k ?xs"]) simp_all
  then show ?thesis using Some by (simp add: a_put_def a_touch_def)
qed

lemma represents_distinct:
  assumes r: "represents hash s A" and a: "a < length A"
  shows "distinct (map fst (A ! a))"
proof -
  obtain ls fl where rep: "lru_rep hash s ls fl" and A: "A = lru_abs (caching s) ls"
    using r unfolding represents_def by blast
  have a': "a < length ls" using a by (simp add: A lru_abs_def)
  note d = lru_repD [OF rep]
  have key: "mapping s (fst (kv (caching s) j)) = Some j" if "j \<in> set (ls ! a)" for j
    by (rule holds_node [OF d(2) a' that]) simp
  have "inj_on (fst \<circ> kv (caching s)) (set (ls ! a))"
  proof (rule inj_onI)
    fix x y assume x: "x \<in> set (ls ! a)" "y \<in> set (ls ! a)" and eq: "(fst \<circ> kv (caching s)) x = (fst \<circ> kv (caching s)) y"
    show "x = y" using key [OF x(1), unfolded eq [unfolded comp_apply]] key [OF x(2)] by simp
  qed
  moreover have "map fst (A ! a) = map (fst \<circ> kv (caching s)) (ls ! a)" using a' by (simp add: A abs_nth)
  ultimately show ?thesis using arenaD(2) [OF d(1) a'] by (simp only: distinct_map simp_thms)
qed

text \<open>C19: With the shared arena (feature \<open>lru-shared-memory\<close>, the default of \<open>opsense-core\<close>) and a
  single shard the cache is least-recently-used: a value just put survives every later history
  that uses fewer other keys than the capacity (and does not remove it), whatever happened before
  and whichever lookups find the lock taken.\<close>

theorem lru_keeps_recent:
  assumes "lru_new True 1 cap = Some s" and "cap \<le> NULL" and "\<not> contended env"
    and "finite D" "card D < cap" "k \<notin> D" and "list_all (keeps k D) ds"
  shows "fst (lru_get hash env' k (snd (run (lru_step True hash h) (cs @ (env, LPut k v) # ds) s))) = Some v"
proof -
  have idx: "lru_shard hash 1 = (\<lambda>_. 0)" by (simp add: lru_shard_def fun_eq_iff)
  let ?step = "a_step (\<lambda>_. 0) cap"
  let ?A = "snd (run ?step cs [[]])"
  have rel: "lru_rel hash (\<lambda>_. 0) cap (snd (run (lru_step True hash h) cs' s)) (snd (run ?step cs' [[]]))" for cs'
    using cache_run [OF assms(1,2), of hash h cs'] unfolding idx by simp
  obtain xs where xs: "?A = [xs]"
    using run_length [of "\<lambda>_. 0" cap cs "[[]]"] by (auto simp: length_Suc_conv)
  have "distinct (map fst xs)"
    using represents_distinct [of hash _ ?A 0] rel [of cs] xs by (auto simp: lru_rel_def)
  then obtain xs1 where p: "a_put False cap 0 k v [xs] = [xs1]" "fresh_pos k v D xs1"
    using fresh_put [of xs cap k v D] assms(5) by auto
  then obtain xs2 where e: "snd (run ?step ds [xs1]) = [xs2]" "fresh_pos k v D xs2"
    using fresh_run [OF p(2) assms(7) assms(4-6)] by blast
  have "snd (run ?step (cs @ (env, LPut k v) # ds) [[]]) = [xs2]"
    using xs p(1) e(1) assms(3) by (simp add: run_append Let_def case_prod_unfold)
  moreover have "map_of xs2 k = Some v"
    using e(2) unfolding fresh_pos_def by (auto intro!: map_of_is_SomeI)
  ultimately show ?thesis using get_find [OF rel] by (simp add: a_find_def)
qed

text \<open>Witness of C19: two keys put after it, in a cache of three.\<close>

theorem lru_keeps_recent_witness:
  "fst (lru_get (\<lambda>_. 0) calm (1 :: nat) (snd (run (lru_step True (\<lambda>_. 0) no_hooks)
     ([(calm, LPut 5 50)] @ (calm, LPut 1 (10 :: nat)) # [(calm, LPut 2 20), (calm, LPut 3 30), (calm, LPut 2 21)])
     (the (lru_new True 1 3))))) = Some 10"
proof -
  have new: "lru_new True 1 3 = Some (the (lru_new True 1 3) :: (nat, nat) lru)" by (simp add: lru_new_def)
  show ?thesis
    by (rule lru_keeps_recent [OF new, where D = "{2, 3}"]) (simp_all add: NULL_def calm_def)
qed

section \<open>Reading through\<close>

lemma rel_shards:
  assumes "lru_rel hash idx cap s A"
  shows "idx k < length A"
proof -
  have r: "represents hash s A" and idx: "get_shard_idx hash s = idx" using assms by (simp_all add: lru_rel_def)
  show ?thesis by (rule representsD [OF r, of k]) (use idx in simp)
qed

lemma rel_get:
  assumes "lru_rel hash idx cap s A"
  shows "\<exists>A'. lru_rel hash idx cap (snd (lru_get hash env k s)) A' \<and> a_find idx A' = a_find idx A"
proof -
  have r: "lru_rel hash idx cap (snd (lru_get hash env k s)) (A[idx k := a_touch (contended env) k (A ! idx k)])"
    using cache.related [OF assms, of no_hooks "(env, LGet k)"] by (simp add: Let_def case_prod_unfold)
  moreover have "a_find idx (A[idx k := a_touch (contended env) k (A ! idx k)]) j = a_find idx A j" for j
    using a_find_update [of idx j A] rel_shards [OF assms, of j] by (simp add: a_find_def)
  ultimately show ?thesis by (intro exI conjI) (assumption, simp add: fun_eq_iff)
qed

lemma rel_put:
  assumes "lru_rel hash idx cap s A" and "0 < cap"
  shows "\<exists>A'. lru_rel hash idx cap (lru_put True hash env h k v s) A' \<and> a_find idx A' k = Some v"
proof -
  have "lru_rel hash idx cap (lru_put True hash env h k v s) (a_put (contended env) cap (idx k) k v A)"
    using cache.related [OF assms(1), of h "(env, LPut k v)"] by simp
  moreover have "a_find idx (a_put (contended env) cap (idx k) k v A) k = Some v"
    using a_put_find(1) [of idx A] rel_shards [OF assms(1)] assms(2) by simp
  ultimately show ?thesis by blast
qed

lemma rel_persist: "lru_rel hash idx cap (persist_point env h k v s) A = lru_rel hash idx cap s A"
  using persist_point_log [of env h k v s] by (auto simp: lru_rel_def)

lemma rel_load:
  assumes rel: "lru_rel hash idx cap s A" and cap: "0 < cap"
    and load: "get_with_load True hash env h k from_ts to_ts s = (Some v, s')"
  shows "\<exists>A'. lru_rel hash idx cap s' A' \<and> a_find idx A' k = Some v"
proof -
  obtain s1 where g1: "lru_get hash env k s = (a_find idx A k, s1)"
    using get_find [OF rel, of env k] by (cases "lru_get hash env k s") simp
  obtain A1 where r1: "lru_rel hash idx cap s1 A1" "a_find idx A1 = a_find idx A"
    using rel_get [OF rel, of env k] g1 by auto
  obtain s2 where g2: "lru_get hash env k s1 = (a_find idx A k, s2)"
    using get_find [OF r1(1), of env k] r1(2) by (cases "lru_get hash env k s1") simp
  obtain A2 where r2: "lru_rel hash idx cap s2 A2" "a_find idx A2 = a_find idx A"
    using rel_get [OF r1(1), of env k] g2 r1(2) by auto
  note puts = rel_put [OF r1(1) cap, of env h k v] rel_put [OF r2(1) cap, of env h k v]
  consider "s' = s1" "a_find idx A k = Some v" | "s' = s2" "a_find idx A k = Some v"
    | "s' = lru_put True hash env h k v s1" | "s' = persist_point env h k v (lru_put True hash env h k v s2)"
    using load unfolding get_with_load_def g1 Let_def case_prod_conv g2
    by (auto split: option.splits bool.splits prod.splits sum.splits if_splits)
  then show ?thesis
    by cases (use r1 r2 puts rel_persist in \<open>fastforce+\<close>)
qed

text \<open>C23: With the shared arena (feature \<open>lru-shared-memory\<close>, the default of \<open>opsense-core\<close>) and a
  positive capacity: whatever \<open>get_with_load\<close> returns, from memory, from the stored points, from
  the origin or merged, is in the cache afterwards: the next lookup of the key returns it.\<close>

theorem load_then_cached:
  assumes "lru_new True S cap = Some s0" and "0 < cap" "cap \<le> NULL"
    and "get_with_load True hash env h k from_ts to_ts (snd (run (lru_step True hash h) cs s0)) = (Some v, s')"
  shows "fst (lru_get hash env' k s') = Some v"
proof -
  obtain A where "lru_rel hash (lru_shard hash S) cap (snd (run (lru_step True hash h) cs s0)) A"
    using cache_run [OF assms(1,3)] by blast
  from rel_load [OF this assms(2,4)] show ?thesis by (auto simp: get_find)
qed

text \<open>Witness of C23: a miss that the origin answers.\<close>

theorem load_then_cached_witness:
  "fst (lru_get (\<lambda>_. 0) calm (1 :: nat) (snd (get_with_load True (\<lambda>_. 0) calm
      (no_hooks\<lparr>fallback := Some (\<lambda>_ _ _. Inr (9 :: nat))\<rparr>) 1 0 5 (the (lru_new True 1 2))))) = Some 9"
proof -
  have new: "lru_new True 1 2 = Some (the (lru_new True 1 2) :: (nat, nat) lru)" by (simp add: lru_new_def)
  let ?h = "no_hooks\<lparr>fallback := Some (\<lambda>(_ :: nat) _ _. Inr (9 :: nat))\<rparr>"
  let ?r = "get_with_load True (\<lambda>_. 0) calm ?h 1 0 5 (the (lru_new True 1 2))"
  have "fst ?r = Some 9" by (simp add: get_with_load_def from_disk_def lru_get_def no_hooks_def lru_new_def)
  then have "get_with_load True (\<lambda>_. 0) calm ?h 1 0 5 (snd (run (lru_step True (\<lambda>_. 0) ?h) [] (the (lru_new True 1 2)))) = (Some 9, snd ?r)"
    by (cases ?r) simp
  from load_then_cached [OF new _ _ this, of calm] show ?thesis by (simp add: NULL_def)
qed

end
