(* ===== verification/Lru_Blocks.thy ===== *)
theory Lru_Blocks
  imports Lru_History
begin

text \<open>
  The cache without \<open>lru-shared-memory\<close>: the arena is cut into one block of nodes per shard, every
  node stays in the list of its shard for ever, and \<open>put\<close> always takes the last one. \<open>remove\<close> leaves
  key and value in the node, so the map may lose an entry when such a node is reused. The
  invariant \<open>blocks_inv\<close> says what holds all the same: the lists keep their lengths, and where the
  map leads, the node holds the key and the value last written.
\<close>

section \<open>The arena as it is built\<close>

text \<open>The nodes of the arena, which is the number of entries the cache can hold.\<close>

definition lru_capacity :: "bool \<Rightarrow> nat \<Rightarrow> nat \<Rightarrow> nat" where
  "lru_capacity shared S cap = (if shared then cap else S * div_ceil cap S)"

definition block_lists :: "nat \<Rightarrow> nat \<Rightarrow> nat list list" where
  "block_lists S per = map (\<lambda>sh. [sh * per..<sh * per + per]) [0..<S]"

lemma length_concat_same: "(\<And>x. x \<in> set xs \<Longrightarrow> length (f x) = n) \<Longrightarrow> length (concat (map f xs)) = length xs * n"
  by (induction xs) simp_all

lemma concat_nth_same:
  "(\<And>x. x \<in> set xs \<Longrightarrow> length (f x) = n) \<Longrightarrow> a < length xs \<Longrightarrow> i < n \<Longrightarrow>
   concat (map f xs) ! (a * n + i) = f (xs ! a) ! i"
proof (induction xs arbitrary: a)
  case (Cons x xs)
  then show ?case by (cases a) (simp_all add: nth_append)
qed simp

lemma block_nodes_length [simp]: "length (block_nodes S per) = S * per"
  by (simp add: block_nodes_def length_concat_same)

lemma block_nodes_nth:
  assumes "a < S" and "i < per"
  shows "(block_nodes S per :: ('k, 'v) lru_node list) ! (a * per + i) = \<lparr>n_key = None, n_val = None,
    nxt = (if i + 1 < per then a * per + i + 1 else NULL), prv = (if i > 0 then a * per + i - 1 else NULL)\<rparr>"
  unfolding block_nodes_def by (subst concat_nth_same [where n = per]) (use assms in simp_all)

lemma dseg_block:
  fixes c :: "('k, 'v) lru_node list"
  assumes c: "c = block_nodes S per" and a: "a < S"
  shows "m \<le> per \<Longrightarrow>
    dseg c (if m > 0 then a * per + m - 1 else NULL) [a * per + m..<a * per + per] NULL"
proof (induction "per - m" arbitrary: m)
  case (Suc d)
  have m: "m < per" "d = per - (m + 1)" using Suc.hyps(2) by linarith+
  have links: "pv c (a * per + m) = (if m > 0 then a * per + m - 1 else NULL)"
    "nx c (a * per + m) = (if m + 1 < per then a * per + m + 1 else NULL)"
    unfolding c nx_def pv_def block_nodes_nth [OF a m(1)] by simp_all
  have "dseg c (a * per + m) [a * per + (m + 1)..<a * per + per] NULL"
    using Suc.hyps(1) [of "m + 1"] m by simp
  moreover have "hd0 [a * per + (m + 1)..<a * per + per] NULL = (if m + 1 < per then a * per + m + 1 else NULL)"
    by (simp add: upt_rec)
  ultimately have "dseg c (if m > 0 then a * per + m - 1 else NULL)
      ((a * per + m) # [a * per + (m + 1)..<a * per + per]) NULL"
    using links by simp
  then show ?case using m(1) by (simp add: upt_conv_Cons)
qed simp

lemma block_arena:
  assumes "S * per \<le> NULL"
  shows "arena (block_nodes S per :: ('k, 'v) lru_node list) (block_shards S per) NULL (block_lists S per) []"
proof -
  let ?c = "block_nodes S per :: ('k, 'v) lru_node list"
  have each: "shard_ok ?c (block_shards S per ! a) (block_lists S per ! a)" if a: "a < S" for a
  proof (cases "per = 0")
    case False
    then have "[a * per..<a * per + per] \<noteq> []" "hd0 [a * per..<a * per + per] NULL = a * per"
      by (simp_all add: upt_rec [of "a * per"])
    moreover have "last [a * per..<a * per + per] = a * per + per - 1" using False by (intro last_upt) simp
    ultimately show ?thesis
      using dseg_block [OF refl a, of 0 per] a False
      by (simp add: shard_ok_def block_shards_def block_lists_def last0_def)
  qed (use a in \<open>simp add: shard_ok_def block_shards_def block_lists_def\<close>)
  have bound: "a * per + per \<le> S * per" if "a < S" for a
    using mult_le_mono1 [of "Suc a" S per] that by simp
  have dis: "{a * per..<a * per + per} \<inter> {b * per..<b * per + per} = {}" if "a < b" for a b
    using mult_le_mono1 [of "Suc a" b per] that by auto
  have disj: "{a * per..<a * per + per} \<inter> {b * per..<b * per + per} = {}" if "a \<noteq> b" for a b
    using dis [of a b] dis [of b a] that by (cases "a < b") (auto simp: Int_commute)
  have "set (block_lists S per ! a) \<subseteq> {..<length ?c}" if "a < S" for a
    using bound [OF that] that by (auto simp: block_lists_def)
  moreover have "set (block_lists S per ! a) \<inter> set (block_lists S per ! b) = {}" if "a < S" "b < S" "a \<noteq> b" for a b
    using disj [OF that(3)] that by (simp add: block_lists_def)
  ultimately show ?thesis
    using each assms unfolding arena_def by (simp add: block_lists_def block_shards_def)
qed

section \<open>Writing into the last node of a shard\<close>

text \<open>What a write does to the map: the key found in the node goes, whatever node it leads to.\<close>

definition reuse :: "'k option \<Rightarrow> ('k \<rightharpoonup> nat) \<Rightarrow> ('k \<rightharpoonup> nat)" where
  "reuse old m = (case old of None \<Rightarrow> m | Some k \<Rightarrow> m(k := None))"

lemma put_blocks_write:
  fixes s :: "('k, 'v) lru" and k :: 'k and v :: 'v and env :: lru_env and h :: "('k, 'v) lru_hooks"
  assumes ar: "arena (caching s) (shards s) (free_head s) ls fl" and sh: "sh < length ls"
    and idx: "get_shard_idx hash s k = sh" and at: "ls ! sh = xs @ [i]"
  defines "s' \<equiv> put_blocks hash env h k v s"
  shows "arena (caching s') (shards s') (free_head s') (ls[sh := i # xs]) fl"
    and "\<And>j. entry (caching s') j = (if j = i then (Some k, Some v) else entry (caching s) j)"
    and "mapping s' = (reuse (fst (entry (caching s) i)) (mapping s))(k \<mapsto> i)"
    and "shard_mask s' = shard_mask s" "length (caching s') = length (caching s)"
proof -
  have last: "ht_last (shards s ! sh) = i" using arenaD(8) [OF ar sh] at by simp
  have i: "i \<noteq> NULL" "i < length (caching s)"
    using split_shard(3,4) [OF ar sh, of xs i "[]"] at by simp_all
  let ?m = "(reuse (fst (entry (caching s) i)) (mapping s))(k \<mapsto> i)"
  obtain l where s': "s' = (move_to_front_inside_lock sh i
      (s\<lparr>caching := set_entry i (Some k) (Some v) (caching s), mapping := ?m\<rparr>))\<lparr>lru_log := l\<rparr>"
  proof -
    let ?t = "\<lambda>g. s\<lparr>lru_log := g, caching := set_entry i (Some k) (Some v) (caching s), mapping := ?m\<rparr>"
    have mtf: "move_to_front_inside_lock sh i (?t g) =
        (move_to_front_inside_lock sh i (?t (lru_log s)))\<lparr>lru_log := g\<rparr>" for g
      by (simp add: move_to_front_inside_lock_def Let_def)
    have "\<exists>g l. s' = (move_to_front_inside_lock sh i (?t g))\<lparr>lru_log := l\<rparr>"
    proof (cases "n_key (caching s ! i)")
      case None
      show ?thesis
        by (rule exI [of _ "lru_log s"], rule exI [of _ "lru_log (move_to_front_inside_lock sh i (?t (lru_log s)))"])
          (use None i last idx in \<open>simp add: s'_def put_blocks_def Let_def reuse_def entry_def\<close>)
    next
      case (Some ek)
      let ?g = "if on_removing h then lru_log s @ [Removing ek (the (n_val (caching s ! i)))] else lru_log s"
      have "s' = persist_point env h ek (the (n_val (caching s ! i))) (move_to_front_inside_lock sh i (?t ?g))"
        using Some i last idx by (simp add: s'_def put_blocks_def Let_def reuse_def entry_def log_event_def)
      then show ?thesis using persist_point_log by metis
    qed
    then obtain g l where "s' = (move_to_front_inside_lock sh i (?t g))\<lparr>lru_log := l\<rparr>" by blast
    then have "s' = (move_to_front_inside_lock sh i (?t (lru_log s)))\<lparr>lru_log := l\<rparr>" using mtf [of g] by simp
    then show ?thesis using that by simp
  qed
  let ?s = "s\<lparr>caching := set_entry i (Some k) (Some v) (caching s), mapping := ?m\<rparr>"
  have ar': "arena (caching ?s) (shards ?s) (free_head ?s) ls fl" using arena_set_entry [OF ar] by simp
  note mv = move_to_front_arena [OF ar' sh, of xs i "[]"]
  show "arena (caching s') (shards s') (free_head s') (ls[sh := i # xs]) fl" using mv(1) at by (simp add: s')
  show "entry (caching s') j = (if j = i then (Some k, Some v) else entry (caching s) j)" for j
    using mv(2) at i(2) by (simp add: s')
  show "length (caching s') = length (caching s)" using mv(3) at by (simp add: s')
  show "mapping s' = ?m" "shard_mask s' = shard_mask s"
    by (simp_all add: s' move_to_front_inside_lock_def Let_def)
qed

section \<open>The invariant\<close>

text \<open>Where the map leads, the node holds the key and its value in \<open>W\<close>.\<close>

definition tracks ::
    "('k \<Rightarrow> nat) \<Rightarrow> ('k, 'v) lru_node list \<Rightarrow> ('k \<rightharpoonup> nat) \<Rightarrow> nat list list \<Rightarrow> ('k \<rightharpoonup> 'v) \<Rightarrow> bool" where
  "tracks idx c m ls W \<longleftrightarrow>
     (\<forall>k i. m k = Some i \<longrightarrow> i \<in> set (ls ! idx k) \<and> entry c i = (Some k, W k) \<and> W k \<noteq> None)"

definition blocks_inv ::
    "('k \<Rightarrow> u64) \<Rightarrow> ('k \<Rightarrow> nat) \<Rightarrow> nat \<Rightarrow> nat \<Rightarrow> ('k \<rightharpoonup> 'v) \<Rightarrow> ('k, 'v) lru \<Rightarrow> bool" where
  "blocks_inv hash idx S per W s \<longleftrightarrow>
     get_shard_idx hash s = idx \<and> (\<forall>k. idx k < S) \<and> length (caching s) = S * per
     \<and> (\<exists>ls. arena (caching s) (shards s) (free_head s) ls [] \<and> length ls = S
          \<and> (\<forall>a < S. length (ls ! a) = per) \<and> tracks idx (caching s) (mapping s) ls W)"

lemma blocks_invD:
  assumes "blocks_inv hash idx S per W s"
  obtains ls where "arena (caching s) (shards s) (free_head s) ls []" "length ls = S"
    "\<And>a. a < S \<Longrightarrow> length (ls ! a) = per" "tracks idx (caching s) (mapping s) ls W"
    "get_shard_idx hash s = idx" "\<And>k. idx k < S" "length (caching s) = S * per"
  using assms unfolding blocks_inv_def by blast

lemma blocks_invI:
  assumes "arena (caching s) (shards s) (free_head s) ls []" "length ls = S"
    "\<And>a. a < S \<Longrightarrow> length (ls ! a) = per" "tracks idx (caching s) (mapping s) ls W"
    "get_shard_idx hash s = idx" "\<And>k. idx k < S" "length (caching s) = S * per"
  shows "blocks_inv hash idx S per W s"
  using assms unfolding blocks_inv_def by blast

lemma tracksD: "tracks idx c m ls W \<Longrightarrow> m k = Some i \<Longrightarrow> i \<in> set (ls ! idx k) \<and> entry c i = (Some k, W k) \<and> W k \<noteq> None"
  unfolding tracks_def by blast

lemma blocks_inv_log [simp]: "blocks_inv hash idx S per W (s\<lparr>lru_log := l\<rparr>) = blocks_inv hash idx S per W s"
  unfolding blocks_inv_def by (simp add: get_shard_idx_def fun_eq_iff)

lemma mtf_mapping [simp]: "mapping (move_to_front_inside_lock sh i s) = mapping s"
  by (simp add: move_to_front_inside_lock_def Let_def)

lemma blocks_inv_touch:
  assumes inv: "blocks_inv hash idx S per W s" and m: "mapping s k = Some i"
  shows "blocks_inv hash idx S per W (touch env (idx k) i s)"
proof (cases "contended env")
  case False
  obtain ls where r: "arena (caching s) (shards s) (free_head s) ls []" "length ls = S"
    "\<And>a. a < S \<Longrightarrow> length (ls ! a) = per" "tracks idx (caching s) (mapping s) ls W"
    "get_shard_idx hash s = idx" "\<And>k. idx k < S" "length (caching s) = S * per"
    by (rule blocks_invD [OF inv]) blast
  have sh: "idx k < length ls" using r(2,6) by simp
  obtain xs ys where at: "ls ! idx k = xs @ i # ys" using tracksD [OF r(4) m] by (meson split_list)
  note mv = move_to_front_arena [OF r(1) sh at]
  let ?ls = "ls[idx k := i # xs @ ys]"
  have same: "set (?ls ! a) = set (ls ! a)" "length (?ls ! a) = length (ls ! a)" for a
    using at sh by (cases "a = idx k"; simp; blast)+
  have "get_shard_idx hash (move_to_front_inside_lock (idx k) i s) = idx"
    using get_shard_idx_mask [of "move_to_front_inside_lock (idx k) i s" s hash] r(5)
    by (simp add: move_to_front_inside_lock_def Let_def)
  moreover have "tracks idx (caching (move_to_front_inside_lock (idx k) i s)) (mapping s) ?ls W"
    using r(4) unfolding tracks_def mv(2) same .
  ultimately have "blocks_inv hash idx S per W (move_to_front_inside_lock (idx k) i s)"
    by (intro blocks_invI [OF mv(1)]) (simp_all only: mtf_mapping same length_list_update mv(3) r)
  then show ?thesis using False by (simp add: touch_def)
qed (use inv in \<open>simp add: touch_def\<close>)

lemma blocks_inv_set_value:
  assumes inv: "blocks_inv hash idx S per W s" and m: "mapping s k = Some i"
  shows "blocks_inv hash idx S per (W(k \<mapsto> v)) (s\<lparr>caching := set_entry i (Some k) (Some v) (caching s)\<rparr>)"
proof -
  obtain ls where r: "arena (caching s) (shards s) (free_head s) ls []" "length ls = S"
    "\<And>a. a < S \<Longrightarrow> length (ls ! a) = per" "tracks idx (caching s) (mapping s) ls W"
    "get_shard_idx hash s = idx" "\<And>k. idx k < S" "length (caching s) = S * per"
    by (rule blocks_invD [OF inv]) blast
  have "idx k < length ls" using r(2,6) by simp
  then have "set (ls ! idx k) \<subseteq> {..<length (caching s)}" by (rule arenaD(3) [OF r(1)])
  then have i: "i < length (caching s)" using tracksD [OF r(4) m] by blast
  have "j = k" if "mapping s j = Some i" for j using tracksD [OF r(4) m] tracksD [OF r(4) that] by simp
  then have other: "j \<noteq> k \<Longrightarrow> mapping s j = Some n \<Longrightarrow> n \<noteq> i" for j n by blast
  have "tracks idx (set_entry i (Some k) (Some v) (caching s)) (mapping s) ls (W(k \<mapsto> v))"
    unfolding tracks_def
  proof (intro allI impI)
    fix j n assume n: "mapping s j = Some n"
    show "n \<in> set (ls ! idx j) \<and> entry (set_entry i (Some k) (Some v) (caching s)) n = (Some j, (W(k \<mapsto> v)) j)
        \<and> (W(k \<mapsto> v)) j \<noteq> None"
      using tracksD [OF r(4) n] other [OF _ n] m n i by (cases "j = k") simp_all
  qed
  moreover have "get_shard_idx hash (s\<lparr>caching := set_entry i (Some k) (Some v) (caching s)\<rparr>) = idx"
    unfolding r(5) [symmetric] by (rule get_shard_idx_mask) simp
  ultimately show ?thesis
    using arena_set_entry [OF r(1)] r(2,3,6,7) by (intro blocks_invI [where ls = ls]) simp_all
qed

lemma blocks_inv_write:
  assumes inv: "blocks_inv hash idx S per W s" and m: "mapping s k = None"
  shows "blocks_inv hash idx S per (W(k \<mapsto> v)) (put_blocks hash env h k v s)"
proof -
  obtain ls where r: "arena (caching s) (shards s) (free_head s) ls []" "length ls = S"
    "\<And>a. a < S \<Longrightarrow> length (ls ! a) = per" "tracks idx (caching s) (mapping s) ls W"
    "get_shard_idx hash s = idx" "\<And>k. idx k < S" "length (caching s) = S * per"
    by (rule blocks_invD [OF inv]) blast
  have sh: "idx k < length ls" using r(2,6) by simp
  show ?thesis
  proof (cases "ls ! idx k" rule: rev_cases)
    case Nil
    then have "put_blocks hash env h k v s = s"
      using arenaD(8) [OF r(1) sh] r(5) by (simp add: put_blocks_def Let_def)
    moreover have "tracks idx (caching s) (mapping s) ls (W(k \<mapsto> v))"
      using r(4) m unfolding tracks_def by auto
    ultimately show ?thesis using r by (intro blocks_invI [where ls = ls]) simp_all
  next
    case (snoc xs i)
    have "get_shard_idx hash s k = idx k" by (simp add: r(5))
    note w = put_blocks_write [OF r(1) sh this snoc, of env h v]
    let ?ls = "ls[idx k := i # xs]"
    let ?s = "put_blocks hash env h k v s"
    have same: "set (?ls ! a) = set (ls ! a)" "length (?ls ! a) = length (ls ! a)" for a
      using snoc sh by (cases "a = idx k"; simp)+
    have old: "mapping s j = Some n \<and> n \<noteq> i"
      if "reuse (fst (entry (caching s) i)) (mapping s) j = Some n" for j n
      using that tracksD [OF r(4), of j n] by (auto simp: reuse_def split: option.splits if_splits)
    have "tracks idx (caching ?s) (mapping ?s) ?ls (W(k \<mapsto> v))"
      unfolding tracks_def same
    proof (intro allI impI)
      fix j n assume n: "mapping ?s j = Some n"
      show "n \<in> set (ls ! idx j) \<and> entry (caching ?s) n = (Some j, (W(k \<mapsto> v)) j) \<and> (W(k \<mapsto> v)) j \<noteq> None"
      proof (cases "j = k")
        case True
        then show ?thesis using n snoc by (simp add: w(2,3))
      next
        case False
        then have "mapping s j = Some n \<and> n \<noteq> i" using n old by (simp add: w(3))
        then show ?thesis using False tracksD [OF r(4), of j n] by (simp add: w(2))
      qed
    qed
    moreover have "get_shard_idx hash ?s = idx"
      unfolding r(5) [symmetric] by (rule get_shard_idx_mask [OF w(4)])
    ultimately show ?thesis
      by (intro blocks_invI [OF w(1)]) (simp_all only: same length_list_update w(5) r)
  qed
qed

lemma blocks_inv_drop:
  assumes "blocks_inv hash idx S per W s"
  shows "blocks_inv hash idx S per (W(k := None)) (s\<lparr>mapping := (mapping s)(k := None)\<rparr>)"
proof -
  obtain ls where r: "arena (caching s) (shards s) (free_head s) ls []" "length ls = S"
    "\<And>a. a < S \<Longrightarrow> length (ls ! a) = per" "tracks idx (caching s) (mapping s) ls W"
    "get_shard_idx hash s = idx" "\<And>k. idx k < S" "length (caching s) = S * per"
    by (rule blocks_invD [OF assms]) blast
  have "tracks idx (caching s) ((mapping s)(k := None)) ls (W(k := None))"
    using r(4) unfolding tracks_def by auto
  then show ?thesis using r by (intro blocks_invI [where ls = ls]) (simp_all add: get_shard_idx_def)
qed

lemma blocks_inv_fresh:
  fixes s :: "('k, 'v) lru"
  assumes "caching s = block_nodes S per" "shards s = block_shards S per" "free_head s = NULL" "mapping s = Map.empty"
    and "get_shard_idx hash s = idx" "\<And>k. idx k < S" "S * per \<le> NULL"
  shows "blocks_inv hash idx S per W s"
  using assms block_arena [OF assms(7)]
  by (intro blocks_invI [where ls = "block_lists S per"]) (simp_all add: block_lists_def tracks_def)

text \<open>One call: the values follow the writes.\<close>

lemma blocks_step:
  assumes inv: "blocks_inv hash idx S per W s"
  shows "blocks_inv hash idx S per (\<lambda>k. last_write k [c] (W k)) (snd (lru_step False hash h c s))"
proof -
  obtain env x where c: "c = (env, x)" by (cases c)
  have idx: "get_shard_idx hash s = idx" using inv unfolding blocks_inv_def by blast
  have upd: "(\<lambda>j. if k = j then w else W j) = W(k := w)" for k w by (simp add: fun_eq_iff)
  show ?thesis
  proof (cases x)
    case (LGet k)
    then show ?thesis
      using inv blocks_inv_touch [OF inv, of k] idx
      by (simp add: c lru_get_def Let_def split: option.split)
  next
    case (LPut k v)
    have "blocks_inv hash idx S per (W(k \<mapsto> v)) (lru_put False hash env h k v s)"
    proof (cases "mapping s k")
      case None
      then show ?thesis using blocks_inv_write [OF inv None] by (simp add: lru_put_def)
    next
      case (Some i)
      then have key: "n_key (caching s ! i) = Some k"
        by (rule_tac blocks_invD [OF inv]) (auto simp: entry_def dest: tracksD)
      obtain l where l: "persist_point env h k v (if on_updating h then log_event (Updating k v) s else s) = s\<lparr>lru_log := l\<rparr>"
        using persist_point_log [of env h k v "if on_updating h then log_event (Updating k v) s else s"]
        by (auto simp: log_event_def split: if_splits)
      let ?s = "s\<lparr>lru_log := l, caching := set_entry i (Some k) (Some v) (caching s)\<rparr>"
      have put: "put_update hash env h k v i s = touch env (idx k) i ?s"
        using l key idx by (simp add: put_update_def Let_def set_value_entry get_shard_idx_def fun_eq_iff log_event_def)
      have "blocks_inv hash idx S per (W(k \<mapsto> v)) ?s"
        using blocks_inv_set_value [of hash idx S per W "s\<lparr>lru_log := l\<rparr>" k i v] inv Some by simp
      from blocks_inv_touch [OF this, of k i env] Some show ?thesis by (simp add: lru_put_def put)
    qed
    then show ?thesis using LPut by (simp add: c upd)
  next
    case (LRemove k)
    have none: "blocks_inv hash idx S per (W(k := None)) s" if "mapping s k = None"
      using blocks_inv_drop [OF inv, of k] that by (simp add: fun_upd_idem)
    have "blocks_inv hash idx S per (W(k := None)) (snd (lru_remove False hash env h k s))"
    proof (cases "mapping s k")
      case (Some i)
      have "\<exists>l. s\<lparr>mapping := (mapping s)(k := None)\<rparr> = s\<lparr>mapping := (mapping s)(k := None), lru_log := l\<rparr>"
        by (rule exI [of _ "lru_log s"]) simp
      then obtain l where "snd (lru_remove False hash env h k s) = s\<lparr>mapping := (mapping s)(k := None), lru_log := l\<rparr>"
        using persist_point_log [of env h k _ "s\<lparr>mapping := (mapping s)(k := None)\<rparr>"] Some
        by (cases "n_val (caching s ! i)") (auto simp: lru_remove_def Let_def)
      then show ?thesis using blocks_inv_drop [OF inv, of k] by simp
    qed (use none in \<open>simp add: lru_remove_def\<close>)
    then show ?thesis using LRemove by (simp add: c upd Let_def case_prod_unfold)
  next
    case LClear
    obtain ls where r: "arena (caching s) (shards s) (free_head s) ls []" "length ls = S" "\<And>k. idx k < S"
      "length (caching s) = S * per"
      by (rule blocks_invD [OF inv]) blast
    have "length (shards s) = S" "free_head s = NULL" "S * per \<le> NULL"
      using arena_free [OF r(1)] r(2,4) by simp_all
    moreover have "S > 0" using r(3) [of undefined] by simp
    ultimately show ?thesis using r idx LClear
      by (intro blocks_inv_fresh) (simp_all add: c lru_clear_def Let_def get_shard_idx_def)
  qed
qed

lemma blocks_run:
  assumes "blocks_inv hash idx S per Map.empty s"
  shows "blocks_inv hash idx S per (\<lambda>k. last_write k cs None) (snd (run (lru_step False hash h) cs s))"
proof (induction cs rule: rev_induct)
  case (snoc c cs)
  show ?case using blocks_step [OF snoc, of c h] by (simp add: run_snoc last_write_append)
qed (use assms in simp)

lemma blocks_new:
  assumes new: "lru_new False S cap = Some s" and cap: "lru_capacity False S cap \<le> NULL"
  shows "caching s = block_nodes S (div_ceil cap S)" "shards s = block_shards S (div_ceil cap S)"
    "free_head s = NULL" "mapping s = Map.empty" "get_shard_idx hash s = lru_shard hash S"
    "lru_shard hash S k < S" "S * div_ceil cap S \<le> NULL"
proof -
  have "is_power_of_two S" and s: "s = \<lparr>mapping = Map.empty, caching = block_nodes S (div_ceil cap S),
      shards = block_shards S (div_ceil cap S), shard_mask = of_nat (S - 1), free_head = NULL, lru_log = []\<rparr>"
    using new by (auto simp: lru_new_def Let_def split: if_splits)
  then show "lru_shard hash S k < S" by (simp add: lru_shard_less)
  show "get_shard_idx hash s = lru_shard hash S" by (simp add: s get_shard_idx_def lru_shard_def fun_eq_iff)
  show "S * div_ceil cap S \<le> NULL" using cap by (simp add: lru_capacity_def)
qed (use new in \<open>auto simp: lru_new_def Let_def split: if_splits\<close>)

lemma blocks_history:
  assumes new: "lru_new False S cap = Some s" and cap: "lru_capacity False S cap \<le> NULL"
  shows "blocks_inv hash (lru_shard hash S) S (div_ceil cap S) (\<lambda>k. last_write k cs None)
    (snd (run (lru_step False hash h) cs s))"
  using blocks_new [OF new cap] by (intro blocks_run blocks_inv_fresh) simp_all

lemma blocks_value:
  assumes "blocks_inv hash idx S per W s"
  shows "fst (lru_get hash env k s) \<in> {None, W k}"
proof (cases "mapping s k")
  case (Some i)
  then have "n_val (caching s ! i) = W k"
    by (rule_tac blocks_invD [OF assms]) (auto simp: entry_def dest: tracksD)
  then show ?thesis using Some by (simp add: lru_get_def split: option.split)
qed (simp add: lru_get_def)

lemma blocks_size:
  assumes "blocks_inv hash idx S per W s"
  shows "card (dom (mapping s)) \<le> S * per"
proof -
  obtain ls where r: "arena (caching s) (shards s) (free_head s) ls []" "length ls = S"
    "tracks idx (caching s) (mapping s) ls W" "\<And>k. idx k < S" "length (caching s) = S * per"
    by (rule blocks_invD [OF assms]) blast
  have "i < S * per" if "mapping s k = Some i" for k i
    using tracksD [OF r(3) that] arenaD(3) [OF r(1), of "idx k"] r(2,4,5) by auto
  moreover have "inj_on (\<lambda>k. the (mapping s k)) (dom (mapping s))"
  proof (rule inj_onI)
    fix j k assume "j \<in> dom (mapping s)" "k \<in> dom (mapping s)" "the (mapping s j) = the (mapping s k)"
    then obtain i where "mapping s j = Some i" "mapping s k = Some i" by auto
    from tracksD [OF r(3) this(1)] tracksD [OF r(3) this(2)] show "j = k" by simp
  qed
  ultimately have "card (dom (mapping s)) \<le> card {..<S * per}"
    by (intro card_inj_on_le [of "\<lambda>k. the (mapping s k)"]) auto
  then show ?thesis by simp
qed

lemma shared_safe:
  fixes s :: "('k, 'v) lru" and hash :: "'k \<Rightarrow> u64" and h :: "('k, 'v) lru_hooks" and cs :: "('k, 'v) lru_call list"
  assumes "lru_new True S cap = Some s" and "cap \<le> NULL"
  defines "s' \<equiv> snd (run (lru_step True hash h) cs s)"
  shows "fst (lru_get hash env k s') \<in> {None, last_write k cs None}" "card (dom (mapping s')) \<le> cap"
proof -
  let ?A = "snd (run (a_step (lru_shard hash S) cap) cs (replicate S []))"
  have rel: "lru_rel hash (lru_shard hash S) cap s' ?A" unfolding s'_def using cache_run [OF assms(1,2)] by blast
  have "a_find (lru_shard hash S) ?A k \<in> {None, last_write k cs None}"
    using run_find [of "lru_shard hash S" S cap cs k, OF new_shards [OF assms(1)]] by (cases "a_find (lru_shard hash S) ?A k") auto
  then show "fst (lru_get hash env k s') \<in> {None, last_write k cs None}" by (simp add: get_find [OF rel])
  have r: "represents hash s' ?A" and cap: "length (caching s') = cap" using rel by (auto simp: lru_rel_def)
  then show "card (dom (mapping s')) \<le> cap" using represents_size [OF r] map_size [OF r] by simp
qed

section \<open>Safety of both arenas\<close>

lemma NULL_small [simp]: "NULL \<noteq> 0" "NULL \<noteq> Suc 0" "0 \<noteq> NULL" "Suc 0 \<noteq> NULL"
  by (simp_all add: NULL_def)

lemmas lru_eval = lru_new_def block_nodes_def block_shards_def div_ceil_def lru_put_def lru_get_def lru_remove_def
  put_blocks_def put_update_def get_shard_idx_def move_to_front_inside_lock_def persist_point_def no_hooks_def touch_def
  set_entry_def set_next_def set_prev_def calm_def Let_def numeral_2_eq_2

text \<open>C20: With either arena, on every history: a lookup never returns a value other than the one last
  put for the key and not removed since, and the cache never holds more entries than the arena
  has nodes, which is the capacity asked for with the shared arena, and that capacity rounded up
  to a multiple of the number of shards with blocks.\<close>

theorem lru_safe:
  assumes "lru_new shared S cap = Some s" and "lru_capacity shared S cap \<le> NULL"
  shows "let s' = snd (run (lru_step shared hash h) cs s)
    in fst (lru_get hash env k s') \<in> {None, last_write k cs None}
       \<and> card (dom (mapping s')) \<le> lru_capacity shared S cap"
proof (cases shared)
  case True
  then show ?thesis
    using shared_safe [of S cap s] assms by (simp add: Let_def lru_capacity_def)
next
  case False
  then have inv: "blocks_inv hash (lru_shard hash S) S (div_ceil cap S) (\<lambda>k. last_write k cs None)
      (snd (run (lru_step shared hash h) cs s))"
    using blocks_history [of S cap s] assms by simp
  show ?thesis
    using False blocks_value [OF inv] blocks_size [OF inv] by (simp add: Let_def lru_capacity_def)
qed

text \<open>Witness of C20: a block of two nodes; a value is written, overwritten and read back, another
  key is removed.\<close>

theorem lru_safe_witness:
  "let s' = snd (run (lru_step False (\<lambda>_. 0) no_hooks)
       [(calm, LPut 1 10), (calm, LPut 3 (30 :: int)), (calm, LRemove 3), (calm, LPut 1 11)] (the (lru_new False 1 2)))
   in fst (lru_get (\<lambda>_. 0) calm (1 :: int) s') = Some 11 \<and> fst (lru_get (\<lambda>_. 0) calm 3 s') = None
     \<and> card (dom (mapping s')) \<le> 2"
proof -
  let ?new = "the (lru_new False 1 2) :: (int, int) lru"
  have new: "lru_new False 1 2 = Some ?new" by (simp add: lru_new_def Let_def)
  have cap: "lru_capacity False 1 2 = 2" "(2 :: nat) \<le> NULL" by (simp_all add: lru_capacity_def div_ceil_def NULL_def)
  let ?cs = "[(calm, LPut 1 10), (calm, LPut 3 (30 :: int)), (calm, LRemove 3), (calm, LPut (1 :: int) 11)]"
  let ?s = "snd (run (lru_step False (\<lambda>_. 0) no_hooks) ?cs ?new)"
  note safe = lru_safe [OF new, unfolded cap(1) Let_def, OF cap(2), where hash = "\<lambda>_. 0" and h = no_hooks and cs = ?cs and env = calm]
  have "fst (lru_get (\<lambda>_. 0) calm 1 ?s) \<noteq> None" by (simp add: lru_eval)
  moreover have "last_write 1 ?cs None = Some 11" "last_write 3 ?cs None = None" by simp_all
  ultimately show ?thesis using safe [of 1] safe [of 3] unfolding Let_def by auto
qed

section \<open>An entry lost below the capacity\<close>

text \<open>The last node but some empty ones still carries the key \<open>k\<close>, which lives in another node by
  now. As many new keys as there are empty nodes, and one more, take the key out of the map.\<close>

lemma stale_run:
  fixes s :: "('k, 'v) lru"
  assumes "arena (caching s) (shards s) (free_head s) ls []" and "sh < length ls"
    and "get_shard_idx hash s = idx" and "ls ! sh = ps @ [b, a] @ qs"
    and "\<forall>q \<in> set qs. fst (entry (caching s) q) = None" and "fst (entry (caching s) a) = Some k"
    and "length jws = Suc (length qs)" and "distinct (k # map (fst \<circ> snd) jws)"
    and "\<forall>j \<in> fst ` snd ` set jws. idx j = sh \<and> mapping s j = None"
  shows "mapping (snd (run (lru_step False hash h) (map (\<lambda>(e, j, w). (e, LPut j w)) jws) s)) k = None"
  using assms
proof (induction qs arbitrary: jws s ls ps rule: rev_induct)
  case Nil
  then obtain e j w where jws: "jws = [(e, j, w)]" by (cases jws) auto
  have at: "ls ! sh = (ps @ [b]) @ [a]" using Nil.prems(4) by simp
  have "get_shard_idx hash s j = sh" "mapping s j = None" "k \<noteq> j" using Nil.prems(3,8,9) jws by auto
  then show ?case
    using put_blocks_write(3) [OF Nil.prems(1,2) _ at, of hash j e h w] Nil.prems(6)
    by (simp add: jws lru_put_def reuse_def)
next
  case (snoc q qs)
  obtain e j w jws' where jws: "jws = (e, j, w) # jws'" using snoc.prems(7) by (cases jws) auto
  have at: "ls ! sh = (ps @ [b, a] @ qs) @ [q]" using snoc.prems(4) by simp
  have j: "get_shard_idx hash s j = sh" "mapping s j = None" using snoc.prems(3,9) jws by auto
  note wr = put_blocks_write [OF snoc.prems(1,2) j(1) at, of e h w]
  let ?s = "put_blocks hash e h j w s" and ?ls = "ls[sh := q # ps @ [b, a] @ qs]"
  have dist: "distinct ((ps @ [b, a] @ qs) @ [q])" using arenaD(2) [OF snoc.prems(1,2)] unfolding at .
  have "mapping (snd (run (lru_step False hash h) (map (\<lambda>(e, j, w). (e, LPut j w)) jws') ?s)) k = None"
  proof (rule snoc.IH [OF wr(1), where ps = "q # ps"])
    show "get_shard_idx hash ?s = idx" using get_shard_idx_mask [OF wr(4)] snoc.prems(3) by simp
    show "\<forall>r \<in> set qs. fst (entry (caching ?s) r) = None" using snoc.prems(5) dist wr(2) by auto
    show "fst (entry (caching ?s) a) = Some k" using snoc.prems(6) dist wr(2) by auto
    have "mapping ?s = (mapping s)(j \<mapsto> q)" using wr(3) snoc.prems(5) by (simp add: reuse_def)
    then show "\<forall>i \<in> fst ` snd ` set jws'. idx i = sh \<and> mapping ?s i = None"
      using snoc.prems(8,9) jws by auto
  qed (use snoc.prems jws in simp_all)
  then show ?case using j(2) by (simp add: jws lru_put_def Let_def case_prod_unfold)
qed

lemma block_nodes_empty:
  assumes "i < S * per"
  shows "entry (block_nodes S per) i = (None, None)"
proof -
  have "\<forall>n \<in> set (block_nodes S per :: ('a, 'b) lru_node list). n_key n = None \<and> n_val n = None"
    by (auto simp: block_nodes_def)
  then have "n_key ((block_nodes S per :: ('a, 'b) lru_node list) ! i) = None
      \<and> n_val ((block_nodes S per :: ('a, 'b) lru_node list) ! i) = None"
    by (rule bspec) (use assms in simp)
  then show ?thesis by (simp add: entry_def)
qed

lemma last_write_others:
  "k \<notin> set (map (fst \<circ> snd) jws) \<Longrightarrow> last_write k (map (\<lambda>(e, j, w). (e, LPut j w)) jws) u = u"
  by (induction jws) auto

lemma puts_append: "puts (cs @ ds) = puts cs \<union> puts ds"
  by (auto simp: puts_def)

lemma puts_others: "puts (map (\<lambda>(e, j, w). (e, LPut j w)) jws) = set (map (fst \<circ> snd) jws)"
  by (force simp: puts_def)

lemma upt_last_two:
  assumes "1 < n"
  shows "[p..<p + n] = [p..<p + n - 2] @ [p + n - 2, p + n - 1]"
proof -
  have "n = Suc (Suc (n - 2))" using assms by simp
  then obtain d where "n = Suc (Suc d)" by blast
  then show ?thesis by simp
qed

text \<open>C35: Without the shared arena \<open>remove\<close> leaves the key in its node. A key that is put, removed and
  put again lives in another node of its block; once as many other keys of its shard were put as
  the block has nodes, less one, the node with the stale key is reused and the live entry is
  dropped from the map, although no more keys were ever in use than the block has nodes. This
  holds for blocks of any size above one, any keys of one shard and any hooks.\<close>

theorem lru_blocks_lose_entry:
  assumes "lru_new False S cap = Some s" and "lru_capacity False S cap \<le> NULL"
    and "1 < div_ceil cap S" and "length jws = div_ceil cap S - 1"
    and "distinct (k # map (fst \<circ> snd) jws)" and "\<forall>j \<in> fst ` snd ` set jws. lru_shard hash S j = lru_shard hash S k"
  shows "let cs = [(e1, LPut k u), (e2, LRemove k), (e3, LPut k v)] @ map (\<lambda>(e, j, w). (e, LPut j w)) jws
    in fst (lru_get hash env k (snd (run (lru_step False hash h) cs s))) = None
       \<and> last_write k cs None = Some v \<and> card (puts cs) = div_ceil cap S"
proof -
  define per sh where "per = div_ceil cap S" and "sh = lru_shard hash S k"
  define s1 where "s1 = put_blocks hash e1 h k u s"
  define s2 where "s2 = snd (lru_remove False hash e2 h k s1)"
  define s3 where "s3 = put_blocks hash e3 h k v s2"
  let ?init = "[(e1, LPut k u), (e2, LRemove k), (e3, LPut k v)]" and ?more = "map (\<lambda>(e, j, w). (e, LPut j w)) jws"
  let ?ls = "block_lists S per" and ?o = "sh * per"
  let ?b = "?o + per - 2" and ?a = "?o + per - 1" and ?qs = "[?o..<?o + per - 2]"
  note new = blocks_new [OF assms(1,2), folded per_def]
  have per: "per > 1" and sh: "sh < length ?ls" "get_shard_idx hash s k = sh"
    using assms(3) new(5,6) by (simp_all add: per_def sh_def block_lists_def)
  have ar: "arena (caching s) (shards s) (free_head s) ?ls []"
    using block_arena [OF new(7), where ?'k = 'a and ?'v = 'b] by (simp add: new)
  have at: "?ls ! sh = (?qs @ [?b]) @ [?a]"
    using sh upt_last_two [OF per, of ?o] by (simp add: block_lists_def)
  have empty: "entry (caching s) q = (None, None)" if "q \<in> set (?ls ! sh)" for q
    using arenaD(3) [OF ar sh(1)] that by (intro trans [OF _ block_nodes_empty]) (auto simp: new)
  have dist: "distinct ((?qs @ [?b]) @ [?a])" using arenaD(2) [OF ar sh(1)] unfolding at .
  note w1 = put_blocks_write [OF ar sh(1,2) at, of e1 h u, folded s1_def]
  have m1: "mapping s1 = [k \<mapsto> ?a]" using w1(3) empty [of ?a] by (simp add: at reuse_def new(4))
  have s2: "\<exists>l. s2 = s1\<lparr>mapping := Map.empty, lru_log := l\<rparr>"
  proof -
    have "n_val (caching s1 ! ?a) = Some u" using w1(2) [of ?a] by (simp add: entry_def)
    then have "s2 = persist_point e2 h k u (s1\<lparr>mapping := Map.empty\<rparr>)"
      using m1 by (simp add: s2_def lru_remove_def Let_def)
    then show ?thesis using persist_point_log [of e2 h k u] by auto
  qed
  let ?ls1 = "?ls[sh := ?a # ?qs @ [?b]]"
  have same2: "caching s2 = caching s1" "shards s2 = shards s1" "free_head s2 = free_head s1" "mapping s2 = Map.empty"
    "shard_mask s2 = shard_mask s1" using s2 by auto
  have ar2: "arena (caching s2) (shards s2) (free_head s2) ?ls1 []" using w1(1) by (simp add: same2)
  have idx2: "get_shard_idx hash s2 = lru_shard hash S"
    using get_shard_idx_mask [of s2 s hash] w1(4) new(5) by (simp add: same2)
  have at2: "?ls1 ! sh = (?a # ?qs) @ [?b]" and sh2: "sh < length ?ls1" using sh(1) by simp_all
  have "get_shard_idx hash s2 k = sh" by (simp add: idx2 sh_def)
  note w3 = put_blocks_write [OF ar2 sh2 this at2, of e3 h v, folded s3_def]
  have "mapping s3 = [k \<mapsto> ?b]"
    using w3(3) w1(2) [of ?b] empty [of ?b] dist by (simp add: same2 reuse_def at)
  moreover have "mapping (snd (run (lru_step False hash h) (map (\<lambda>(e, j, w). (e, LPut j w)) jws) s3)) k = None"
  proof (rule stale_run [OF w3(1), where sh = sh and idx = "lru_shard hash S" and ps = "[]" and qs = ?qs and a = ?a and b = ?b])
    show "get_shard_idx hash s3 = lru_shard hash S" using get_shard_idx_mask [OF w3(4)] idx2 by simp
    show "\<forall>q \<in> set ?qs. fst (entry (caching s3) q) = None"
      using w3(2) w1(2) empty dist by (auto simp: same2 at)
    show "fst (entry (caching s3) ?a) = Some k" using w3(2) w1(2) dist by (simp add: same2)
    show "length jws = Suc (length ?qs)" using assms(4) per by (simp add: per_def)
    show "\<forall>j \<in> fst ` snd ` set jws. lru_shard hash S j = sh \<and> mapping s3 j = None"
      using assms(5,6) \<open>mapping s3 = [k \<mapsto> ?b]\<close> by (auto simp: sh_def)
  qed (use sh2 assms(5) in simp_all)
  moreover have "lru_put False hash e1 h k u s = s1" "lru_put False hash e3 h k v s2 = s3"
    by (simp_all add: lru_put_def s1_def s3_def new(4) same2(4))
  ultimately have "fst (lru_get hash env k (snd (run (lru_step False hash h) (?init @ ?more) s))) = None"
    by (simp add: s2_def run_append Let_def case_prod_unfold lru_get_def)
  moreover have "last_write k (?init @ ?more) None = Some v"
    using assms(5) by (simp add: last_write_append last_write_others)
  moreover have "puts (?init @ ?more) = set (k # map (fst \<circ> snd) jws)"
    unfolding puts_append puts_others by (auto simp: puts_def)
  then have "card (puts (?init @ ?more)) = div_ceil cap S"
    using distinct_card [OF assms(5)] assms(3,4) by simp
  ultimately show ?thesis by (simp add: Let_def)
qed

text \<open>Witness of C35: one shard with two nodes, and one key between.\<close>

theorem lru_blocks_lose_entry_witness:
  "fst (lru_get (\<lambda>_. 0) calm (1 :: nat) (snd (run (lru_step False (\<lambda>_. 0) no_hooks)
     ([(calm, LPut 1 10), (calm, LRemove 1), (calm, LPut 1 (11 :: nat))] @ [(calm, LPut 2 20)])
     (the (lru_new False 1 2))))) = None"
proof -
  have new: "lru_new False 1 2 = Some (the (lru_new False 1 2) :: (nat, nat) lru)"
    by (simp add: lru_new_def Let_def)
  have two: "div_ceil 2 1 = 2" by (simp add: div_ceil_def)
  show ?thesis
    using lru_blocks_lose_entry [OF new, where hash = "\<lambda>_. 0" and k = 1 and jws = "[(calm, 2, 20)]" and env = calm
        and h = no_hooks and ?e1.0 = calm and u = 10 and ?e2.0 = calm and ?e3.0 = calm and v = 11] two
    by (simp add: lru_capacity_def NULL_def Let_def lru_shard_def)
qed

end
