(* ===== verification/Find_Cycle.thy ===== *)
theory Find_Cycle
  imports Prelude
begin

text \<open>
  The cycle check of the pipeline graph (\<open>find_cycle\<close> in
  \<open>crates/opsense-mlib/src/vector/runtime/engine.rs\<close>): a depth-first search with three colours
  that returns a loop as a path, or \<open>None\<close>. A hash map is the list of its entries in the order in
  which it happens to iterate. The recursion is on fuel; \<open>find_cycle\<close> gives it the number of nodes,
  which bounds its depth, and never runs out (\<open>visit_returns\<close>).
\<close>

section \<open>The search\<close>

datatype color = White | Gray | Black

type_synonym graph = "(string \<times> string list) list"

definition succs :: "graph \<Rightarrow> string \<Rightarrow> string list" where
  "succs es x = (case map_of es x of None \<Rightarrow> [] | Some ys \<Rightarrow> ys)"

text \<open>Everything from the first occurrence of \<open>x\<close> on, and \<open>x\<close> again.\<close>

definition loop_from :: "string \<Rightarrow> string list \<Rightarrow> string list" where
  "loop_from x path = (if x \<in> set path then dropWhile (\<lambda>y. y \<noteq> x) path else path) @ [x]"

function (sequential) visit ::
    "nat \<Rightarrow> graph \<Rightarrow> string \<Rightarrow> (string \<Rightarrow> color) \<Rightarrow> string list \<Rightarrow> (string list + (string \<Rightarrow> color)) option"
and visit_next ::
    "nat \<Rightarrow> graph \<Rightarrow> string list \<Rightarrow> (string \<Rightarrow> color) \<Rightarrow> string list \<Rightarrow> (string list + (string \<Rightarrow> color)) option"
where
  "visit 0 es x col path = None"
| "visit (Suc n) es x col path =
     (case visit_next n es (succs es x) (col(x := Gray)) (path @ [x]) of
        Some (Inr col) \<Rightarrow> Some (Inr (col(x := Black)))
      | r \<Rightarrow> r)"
| "visit_next n es [] col path = Some (Inr col)"
| "visit_next n es (x # xs) col path =
     (case col x of
        Gray \<Rightarrow> Some (Inl (loop_from x path))
      | White \<Rightarrow> (case visit n es x col path of
                    Some (Inr col) \<Rightarrow> visit_next n es xs col path
                  | r \<Rightarrow> r)
      | Black \<Rightarrow> visit_next n es xs col path)"
  by pat_completeness auto
termination
  by (relation "measures [\<lambda>p. case p of Inl (n, _) \<Rightarrow> n | Inr (n, _) \<Rightarrow> n,
      \<lambda>p. case p of Inl _ \<Rightarrow> 0 | Inr (_, _, xs, _) \<Rightarrow> Suc (length xs)]") auto

fun roots :: "nat \<Rightarrow> graph \<Rightarrow> string list \<Rightarrow> (string \<Rightarrow> color) \<Rightarrow> string list option option" where
  "roots n es [] col = Some None"
| "roots n es (r # rs) col =
     (if col r = White then
        (case visit n es r col [] of
           None \<Rightarrow> None
         | Some (Inl cycle) \<Rightarrow> Some (Some cycle)
         | Some (Inr col) \<Rightarrow> roots n es rs col)
      else roots n es rs col)"

definition graph_size :: "graph \<Rightarrow> nat" where
  "graph_size es = length es + length (concat (map snd es))"

definition find_cycle :: "graph \<Rightarrow> string list option" where
  "find_cycle es = the (roots (graph_size es) es (map fst es) (\<lambda>_. White))"

section \<open>Walks\<close>

definition edge :: "graph \<Rightarrow> (string \<times> string) set" where
  "edge es = {(x, y). y \<in> set (succs es x)}"

fun walk :: "graph \<Rightarrow> string list \<Rightarrow> bool" where
  "walk es (x # y # p) = (y \<in> set (succs es x) \<and> walk es (y # p))"
| "walk es p = True"

lemma walk_append: "walk es (p @ [x]) \<Longrightarrow> y \<in> set (succs es x) \<Longrightarrow> walk es (p @ [x, y])"
  by (induction es p rule: walk.induct) auto

lemma walk_suffix: "walk es (p @ q) \<Longrightarrow> walk es q"
  by (induction es p rule: walk.induct) (auto elim: walk.elims)

lemma walk_prefix: "walk es (p @ q) \<Longrightarrow> walk es p"
  by (induction es p rule: walk.induct) auto

lemma walk_trancl: "walk es (x # p @ [y]) \<Longrightarrow> (x, y) \<in> (edge es)\<^sup>+"
  by (induction p arbitrary: x) (auto simp: edge_def intro: trancl_into_trancl2)

section \<open>The invariant of the search\<close>

text \<open>The grey nodes are the path, in order; the black ones are closed under edges and have no
  cycle.\<close>

definition blacks :: "(string \<Rightarrow> color) \<Rightarrow> string set" where
  "blacks col = {x. col x = Black}"

definition dfs_inv :: "graph \<Rightarrow> string set \<Rightarrow> (string \<Rightarrow> color) \<Rightarrow> string list \<Rightarrow> bool" where
  "dfs_inv es U col path \<longleftrightarrow>
     (\<forall>x. col x = Gray \<longleftrightarrow> x \<in> set path) \<and> distinct path \<and> set path \<subseteq> U \<and> walk es path
     \<and> edge es `` blacks col \<subseteq> blacks col \<and> acyclic (edge es \<inter> blacks col \<times> blacks col)"

definition closed_loop :: "graph \<Rightarrow> string list \<Rightarrow> bool" where
  "closed_loop es p \<longleftrightarrow> walk es p \<and> 2 \<le> length p \<and> hd p = last p"

lemma loop_closed:
  assumes "walk es path" "path \<noteq> []" "x \<in> set (succs es (last path))" "x \<in> set path"
  shows "closed_loop es (loop_from x path)"
proof -
  obtain p q where pq: "path = p @ x # q" "x \<notin> set p" using split_list_first [OF assms(4)] by blast
  have "dropWhile (\<lambda>y. y \<noteq> x) (p @ x # q) = x # q" using pq(2) by (induction p) auto
  then have drop: "dropWhile (\<lambda>y. y \<noteq> x) path = x # q" using pq(1) by simp
  have "walk es (x # q)" using walk_suffix assms(1) unfolding pq(1) by blast
  moreover have "last path = last (x # q)" using pq(1) by simp
  ultimately have "walk es (butlast (x # q) @ [last (x # q), x])"
    using assms(3) by (intro walk_append) (simp_all add: append_butlast_last_id del: butlast.simps last.simps)
  then have "walk es ((x # q) @ [x])" using append_butlast_last_id [of "x # q"] by (metis append.assoc append_Cons append_Nil list.distinct(1))
  then show ?thesis using assms(4) drop by (simp add: closed_loop_def loop_from_def)
qed

lemma inv_enter:
  assumes inv: "dfs_inv es U col path" and x: "col x = White" "x \<in> U"
    and link: "path \<noteq> [] \<Longrightarrow> x \<in> set (succs es (last path))"
  shows "dfs_inv es U (col(x := Gray)) (path @ [x])"
proof -
  have b: "blacks (col(x := Gray)) = blacks col" using x(1) by (auto simp: blacks_def)
  have "walk es (path @ [x])"
  proof (cases path rule: rev_cases)
    case (snoc p y)
    then show ?thesis using inv link walk_append [of es p y x] by (simp add: dfs_inv_def)
  qed simp
  moreover have "x \<notin> set path"
  proof
    assume "x \<in> set path"
    then have "col x = Gray" using inv by (simp add: dfs_inv_def)
    then show False using x(1) by simp
  qed
  ultimately show ?thesis using inv x(2) unfolding dfs_inv_def b by auto
qed

text \<open>A node is left when all its successors are black: its edges lead out of it only.\<close>

lemma inv_leave:
  assumes inv: "dfs_inv es U col (path @ [x])" and fin: "\<forall>y \<in> set (succs es x). col y = Black"
  shows "dfs_inv es U (col(x := Black)) path"
proof -
  let ?E = "edge es" and ?B = "blacks col" and ?col = "col(x := Black)"
  have gray: "col x = Gray" and nx: "x \<notin> set path" using inv by (auto simp: dfs_inv_def)
  have b: "blacks ?col = insert x ?B" by (auto simp: blacks_def)
  have out: "?E `` {x} \<subseteq> ?B" using fin by (auto simp: edge_def blacks_def)
  have closed: "?E `` ?B \<subseteq> ?B" and ac: "acyclic (?E \<inter> ?B \<times> ?B)" using inv by (auto simp: dfs_inv_def)
  have xB: "x \<notin> ?B" using gray by (simp add: blacks_def)
  have "acyclic (?E \<inter> insert x ?B \<times> insert x ?B)"
  proof (rule acyclicI, intro allI notI)
    fix z assume z: "(z, z) \<in> (?E \<inter> insert x ?B \<times> insert x ?B)\<^sup>+"
    have into: "v \<in> ?B \<and> (u \<in> ?B \<longrightarrow> (u, v) \<in> (?E \<inter> ?B \<times> ?B)\<^sup>+)"
      if "(u, v) \<in> (?E \<inter> insert x ?B \<times> insert x ?B)\<^sup>+" for u v
      using that
    proof (induction rule: trancl_induct)
      case (base v)
      then show ?case using out closed by blast
    next
      case (step v w)
      then have "w \<in> ?B" using closed by blast
      then show ?case using step by (auto intro: trancl_into_trancl)
    qed
    then show False using z ac by (auto simp: acyclic_def)
  qed
  moreover have "walk es path" using inv walk_prefix by (auto simp: dfs_inv_def)
  ultimately show ?thesis using inv gray nx out closed unfolding dfs_inv_def b by auto
qed

section \<open>Correctness\<close>

text \<open>With the fuel of the remaining nodes, a visit returns: a loop, or colours in which the node
  and all it reaches are black.\<close>

definition good_result ::
    "graph \<Rightarrow> string set \<Rightarrow> (string \<Rightarrow> color) \<Rightarrow> string list \<Rightarrow> string set
     \<Rightarrow> (string list + (string \<Rightarrow> color)) option \<Rightarrow> bool" where
  "good_result es U col path X r \<longleftrightarrow>
     (case r of
        None \<Rightarrow> False
      | Some (Inl cycle) \<Rightarrow> closed_loop es cycle
      | Some (Inr col') \<Rightarrow> dfs_inv es U col' path \<and> X \<subseteq> blacks col' \<and> blacks col \<subseteq> blacks col')"

lemma visit_returns:
  fixes U :: "string set"
  assumes U: "finite U" and closed: "edge es `` U \<subseteq> U"
  shows "dfs_inv es U col path \<Longrightarrow> col x = White \<Longrightarrow> x \<in> U
      \<Longrightarrow> (path \<noteq> [] \<Longrightarrow> x \<in> set (succs es (last path))) \<Longrightarrow> card U \<le> n + length path
      \<Longrightarrow> good_result es U col path {x} (visit n es x col path)"
    and "dfs_inv es U col path \<Longrightarrow> path \<noteq> [] \<Longrightarrow> set xs \<subseteq> set (succs es (last path))
      \<Longrightarrow> card U \<le> n + length path \<Longrightarrow> good_result es U col path (set xs) (visit_next n es xs col path)"
  using closed
proof (induction n es x col path and n es xs col path rule: visit_visit_next.induct)
  case (1 es x col path)
  have "set path \<subset> U" using 1(1,2,3) by (auto simp: dfs_inv_def) (metis color.distinct(1))
  then have "card (set path) < card U" using U by (intro psubset_card_mono)
  moreover have "card (set path) = length path" using 1(1) by (simp add: dfs_inv_def distinct_card)
  ultimately show ?case using 1(5) by simp
next
  case (2 n es x col path)
  have "good_result es U (col(x := Gray)) (path @ [x]) (set (succs es x))
      (visit_next n es (succs es x) (col(x := Gray)) (path @ [x]))"
    using 2(6,7) by (intro 2(1) [OF inv_enter [OF 2(2-5)]]) simp_all
  then show ?case
  proof (cases "visit_next n es (succs es x) (col(x := Gray)) (path @ [x])")
    case (Some r)
    show ?thesis
    proof (cases r)
      case (Inr col')
      then have *: "dfs_inv es U col' (path @ [x])" "set (succs es x) \<subseteq> blacks col'" "blacks (col(x := Gray)) \<subseteq> blacks col'"
        using \<open>good_result _ _ _ _ _ _\<close> Some by (auto simp: good_result_def)
      then have "dfs_inv es U (col'(x := Black)) path" by (intro inv_leave) (auto simp: blacks_def)
      moreover have "blacks col \<subseteq> blacks (col'(x := Black))" using *(3) 2(3) by (auto simp: blacks_def)
      ultimately show ?thesis using Some Inr by (simp add: good_result_def) (simp add: blacks_def)
    qed (use \<open>good_result _ _ _ _ _ _\<close> Some in \<open>simp add: good_result_def\<close>)
  qed (simp add: good_result_def)
next
  case (3 n es col path)
  then show ?case by (simp add: good_result_def)
next
  case (4 n es x xs col path)
  show ?case
  proof (cases "col x")
    case White
    have "last path \<in> U" using 4(4,5) by (auto simp: dfs_inv_def)
    then have xU: "x \<in> U" using 4(6,8) by (auto simp: edge_def)
    have v: "good_result es U col path {x} (visit n es x col path)"
      using 4 White xU by (intro 4(1)) auto
    show ?thesis
    proof (cases "visit n es x col path")
      case (Some r)
      show ?thesis
      proof (cases r)
        case (Inr col')
        have c: "dfs_inv es U col' path" "x \<in> blacks col'" "blacks col \<subseteq> blacks col'"
          using v Some Inr by (auto simp: good_result_def)
        have "good_result es U col' path (set xs) (visit_next n es xs col' path)"
          using 4(5-8) c by (intro 4(2) [OF White Some Inr]) auto
        then show ?thesis using White Some Inr c by (auto simp: good_result_def split: option.splits sum.splits)
      qed (use v White Some in \<open>simp add: good_result_def\<close>)
    qed (use v in \<open>simp add: good_result_def\<close>)
  next
    case Gray
    then have "x \<in> set path" using 4(4) by (simp add: dfs_inv_def)
    then have "closed_loop es (loop_from x path)"
      using 4(4,5,6) by (intro loop_closed) (auto simp: dfs_inv_def)
    then show ?thesis using Gray by (simp add: good_result_def)
  next
    case Black
    have "good_result es U col path (set xs) (visit_next n es xs col path)"
      using 4(4-8) by (intro 4(3) [OF Black]) auto
    then show ?thesis using Black by (auto simp: good_result_def blacks_def split: option.splits sum.splits)
  qed
qed

definition vertices :: "graph \<Rightarrow> string set" where
  "vertices es = fst ` set es \<union> set (concat (map snd es))"

lemma succs_vertices: "y \<in> set (succs es x) \<Longrightarrow> x \<in> fst ` set es \<and> y \<in> vertices es"
proof (cases "map_of es x")
  case (Some ys)
  assume "y \<in> set (succs es x)"
  then have "(x, ys) \<in> set es" "y \<in> set ys" using Some map_of_SomeD by (auto simp: succs_def)
  then show ?thesis by (force simp: vertices_def)
qed (simp add: succs_def)

lemma vertices_finite: "finite (vertices es)" "card (vertices es) \<le> graph_size es" "edge es `` vertices es \<subseteq> vertices es"
proof -
  have v: "vertices es = set (map fst es @ concat (map snd es))" by (simp add: vertices_def)
  show "finite (vertices es)" unfolding v by (rule finite_set)
  show "card (vertices es) \<le> graph_size es"
    using card_length [of "map fst es @ concat (map snd es)"] unfolding v [symmetric]
    by (simp only: graph_size_def length_append length_map)
  show "edge es `` vertices es \<subseteq> vertices es" using succs_vertices by (auto simp: edge_def)
qed

lemma roots_result:
  "dfs_inv es (vertices es) col [] \<Longrightarrow> set rs \<subseteq> vertices es
   \<Longrightarrow> (\<exists>p. roots (graph_size es) es rs col = Some (Some p) \<and> closed_loop es p)
     \<or> (roots (graph_size es) es rs col = Some None
        \<and> (\<exists>col'. dfs_inv es (vertices es) col' [] \<and> set rs \<union> blacks col \<subseteq> blacks col'))"
proof (induction rs arbitrary: col)
  case (Cons r rs)
  note U = vertices_finite [of es]
  show ?case
  proof (cases "col r")
    case White
    have g: "good_result es (vertices es) col [] {r} (visit (graph_size es) es r col [])"
      using Cons.prems White U(2) by (intro visit_returns(1) [OF U(1,3)]) auto
    show ?thesis
    proof (cases "visit (graph_size es) es r col []")
      case (Some res)
      show ?thesis
      proof (cases res)
        case (Inr col')
        then have c: "dfs_inv es (vertices es) col' []" "{r} \<subseteq> blacks col'" "blacks col \<subseteq> blacks col'"
          using g Some by (simp_all add: good_result_def)
        have "roots (graph_size es) es (r # rs) col = roots (graph_size es) es rs col'" using White Some Inr by simp
        moreover have "set rs \<subseteq> vertices es" using Cons.prems(2) by simp
        ultimately show ?thesis using Cons.IH [OF c(1)] c(2,3) by (simp only: list.set) blast
      qed (use g White Some in \<open>simp add: good_result_def\<close>)
    qed (use g in \<open>simp add: good_result_def\<close>)
  next
    case Gray
    then show ?thesis using Cons.prems(1) by (simp add: dfs_inv_def)
  next
    case Black
    then have "r \<in> blacks col" by (simp add: blacks_def)
    then show ?thesis using Cons.IH [of col] Cons.prems Black by auto
  qed
qed auto

lemma loop_cyclic: "closed_loop es p \<Longrightarrow> \<not> acyclic (edge es)"
proof -
  assume c: "closed_loop es p"
  then obtain x q where p: "p = x # q" by (cases p) (auto simp: closed_loop_def)
  then have "q \<noteq> []" using c by (auto simp: closed_loop_def)
  then have "p = x # butlast q @ [x]" using c p append_butlast_last_id [of q] by (simp add: closed_loop_def)
  then have "(x, x) \<in> (edge es)\<^sup>+" using c walk_trancl [of es x "butlast q" x] by (simp add: closed_loop_def)
  then show ?thesis by (auto simp: acyclic_def)
qed

lemma find_cycle_cases:
  "(\<exists>p. roots (graph_size es) es (map fst es) (\<lambda>_. White) = Some (Some p) \<and> closed_loop es p)
   \<or> (roots (graph_size es) es (map fst es) (\<lambda>_. White) = Some None \<and> acyclic (edge es))"
proof -
  have start: "dfs_inv es (vertices es) (\<lambda>_. White) []" by (simp add: dfs_inv_def blacks_def acyclic_def)
  have all: "set (map fst es) \<subseteq> vertices es" by (simp add: vertices_def)
  have ac: "acyclic (edge es)" if "dfs_inv es (vertices es) col []" "set (map fst es) \<subseteq> blacks col" for col
  proof -
    have "edge es \<subseteq> edge es \<inter> blacks col \<times> blacks col"
      using that succs_vertices unfolding dfs_inv_def by (fastforce simp: edge_def)
    moreover have "acyclic (edge es \<inter> blacks col \<times> blacks col)" using that(1) by (simp only: dfs_inv_def)
    ultimately show ?thesis by (rule acyclic_subset [rotated])
  qed
  from roots_result [OF start all] show ?thesis
  proof
    assume "roots (graph_size es) es (map fst es) (\<lambda>_. White) = Some None
      \<and> (\<exists>col'. dfs_inv es (vertices es) col' [] \<and> set (map fst es) \<union> blacks (\<lambda>_. White) \<subseteq> blacks col')"
    then obtain col' where "roots (graph_size es) es (map fst es) (\<lambda>_. White) = Some None"
      "dfs_inv es (vertices es) col' []" "set (map fst es) \<subseteq> blacks col'" by blast
    then show ?thesis using ac by blast
  qed (rule disjI1)
qed

text \<open>C9: The cycle check always returns; it answers \<open>None\<close> exactly when the graph has no cycle, and
  otherwise a closed walk along the edges of the graph.\<close>

theorem find_cycle_correct:
  "roots (graph_size es) es (map fst es) (\<lambda>_. White) = Some (find_cycle es)
   \<and> (find_cycle es = None \<longleftrightarrow> acyclic (edge es))
   \<and> (case find_cycle es of None \<Rightarrow> True | Some p \<Rightarrow> walk es p \<and> 2 \<le> length p \<and> hd p = last p)"
  using find_cycle_cases [of es] loop_cyclic [of es] by (auto simp: find_cycle_def closed_loop_def)

lemma find_cycle_acyclic: "find_cycle es = None \<Longrightarrow> acyclic (edge es)"
  using find_cycle_cases [of es] by (auto simp: find_cycle_def)

end
