(* ===== verification/Engine.thy ===== *)
theory Engine
  imports Find_Cycle "HOL-Library.AList"
begin

text \<open>
  The pipeline runtime (\<open>crates/opsense-mlib/src/vector/runtime/engine.rs\<close>, with the data of
  \<open>models.rs\<close>): the graph of components, its incremental change by \<open>reload\<close> (validation, new nodes,
  changed nodes, removed nodes, the links), and the status view with its cache.

  A hash map that is iterated is the list of its entries in the order of its iteration, a hash map
  that is only looked up is a partial function, a hash set a set. Channels, tasks and broadcast
  senders are the sets of node indices that have one. A component is its identity, its declared
  inputs, its type and its configuration; \<open>compare\<close>, which the component macro generates as equality
  of the concrete structures, is equality. The outcome of \<open>prepare\<close> is a parameter. Locks are never
  poisoned. Operations return the error together with the state, because \<open>reload\<close> keeps what it
  changed before an error.
\<close>

section \<open>Components\<close>

datatype component_type = Unknown | Input | Output | Source | Sink | Transform

definition component_type_of_int :: "int \<Rightarrow> component_type" where
  "component_type_of_int v =
     (if v = 1 then Source else if v = 2 then Sink else if v = 3 then Transform
      else if v = 4 then Input else if v = 5 then Output else Unknown)"

definition component_type_of_string :: "string \<Rightarrow> component_type" where
  "component_type_of_string s =
     (if s = ''Source'' then Source else if s = ''Sink'' then Sink else if s = ''Transform'' then Transform
      else if s = ''Input'' then Input else if s = ''Output'' then Output else Unknown)"

fun component_type_name :: "component_type \<Rightarrow> string" where
  "component_type_name Unknown = ''Unknown''"
| "component_type_name Source = ''Source''"
| "component_type_name Sink = ''Sink''"
| "component_type_name Input = ''Input''"
| "component_type_name Output = ''Output''"
| "component_type_name Transform = ''Transform''"

record 'cfg component =
  c_id :: string
  get_inputs :: "string list option"
  c_type :: component_type
  is_terminal :: bool
  c_config :: 'cfg

definition declared :: "'cfg component \<Rightarrow> string list" where
  "declared c = (case get_inputs c of None \<Rightarrow> [] | Some ins \<Rightarrow> ins)"

section \<open>Faults\<close>

datatype severity = Transient | Corrupt | Fatal

fun severity_as_str :: "severity \<Rightarrow> string" where
  "severity_as_str Transient = ''transient''"
| "severity_as_str Corrupt = ''corrupt''"
| "severity_as_str Fatal = ''fatal''"

record fault =
  severity :: severity
  code :: string
  message :: string
  recovered :: "string option"

definition fault_new :: "severity \<Rightarrow> string \<Rightarrow> string \<Rightarrow> fault" where
  "fault_new sev cd msg = \<lparr>severity = sev, code = cd, message = msg, recovered = None\<rparr>"

definition fault_recovered :: "string \<Rightarrow> fault \<Rightarrow> fault" where
  "fault_recovered what f = f\<lparr>recovered := Some what\<rparr>"

record node_errors =
  by_node :: "string \<rightharpoonup> fault"
  err_rev :: u64
  counts :: "string \<Rightarrow> u64"

definition errors_set :: "string \<Rightarrow> fault option \<Rightarrow> node_errors \<Rightarrow> bool \<times> node_errors" where
  "errors_set node error e =
     (let (changed, m) = (case error of
            Some f \<Rightarrow> (by_node e node = None, (by_node e)(node \<mapsto> f))
          | None \<Rightarrow> (by_node e node \<noteq> None, (by_node e)(node := None)));
          e = e\<lparr>by_node := m, counts := (counts e)(node := counts e node + 1)\<rparr>
      in (changed, if changed then e\<lparr>err_rev := err_rev e + 1\<rparr> else e))"

section \<open>The runtime\<close>

record 'cfg bootstrap =
  b_component :: "'cfg component"
  b_cancelled :: bool
  b_signals :: nat   \<comment> \<open>how often the watch channel was signalled\<close>

record pipeline_node_info =
  ni_id :: string
  ni_type :: string
  ni_inputs :: "string list"
  ni_outputs :: "string list"
  ni_running :: bool
  ni_last_error :: "fault option"
  ni_fault_count :: u64

record 'cfg runtime =
  broadcasts :: "nat set"
  senders :: "nat set"
  boot :: nat   \<comment> \<open>permits of the semaphore\<close>
  tasks :: "nat set"
  bootstraps :: "(nat \<times> 'cfg bootstrap) list"
  report_rx :: bool   \<comment> \<open>the receiver of reports has not been taken\<close>
  is_started :: bool
  sources :: "nat \<rightharpoonup> nat list"
  sinks :: "nat \<rightharpoonup> nat list"
  inputs :: "nat set"
  outputs :: "nat set"
  nodes :: "(string \<times> nat) list"
  inc :: nat
  last_errors :: node_errors
  generation :: u64
  topology_cache :: "(u64 \<times> u64 \<times> pipeline_node_info list) option"

definition runtime_new :: "'cfg runtime" where
  "runtime_new = \<lparr>broadcasts = {}, senders = {}, boot = 0, tasks = {}, bootstraps = [], report_rx = True,
     is_started = False, sources = Map.empty, sinks = Map.empty, inputs = {}, outputs = {}, nodes = [], inc = 0,
     last_errors = \<lparr>by_node = Map.empty, err_rev = 0, counts = (\<lambda>_. 0)\<rparr>, generation = 1, topology_cache = None\<rparr>"

datatype engine_error =
    NotFound string
  | RequiresInput string
  | RequiresListing string
  | InputNotFound string string
  | MustNotBeSink string
  | MustBeSource string component_type
  | MustConnect component_type string
  | NonExistent string string
  | SelfLoop
  | ReadsDead nat
  | ReceivesFromDead nat nat
  | OnDeadline nat
  | Cycle "string list"
  | PrepareFailed string string
  | NoBootstrap nat
  | NoNode string
  | Closed
  | AlreadyStarted
  | ReceiverTaken
  | NotAnInput string
  | NoSender string
  | NotAnOutput string nat
  | SenderMissing nat
  | SenderClosed nat

definition index :: "string \<Rightarrow> 'cfg runtime \<Rightarrow> engine_error + nat" where
  "index name R = (case map_of (nodes R) name of None \<Rightarrow> Inl (NotFound name) | Some i \<Rightarrow> Inr i)"

definition node_name :: "nat \<Rightarrow> 'cfg runtime \<Rightarrow> string option" where
  "node_name i R = map_option fst (find (\<lambda>(_, j). j = i) (nodes R))"

definition report_fault :: "string \<Rightarrow> fault option \<Rightarrow> 'cfg runtime \<Rightarrow> 'cfg runtime" where
  "report_fault name f R = R\<lparr>last_errors := snd (errors_set name f (last_errors R))\<rparr>"

definition node_fault_count :: "string \<Rightarrow> 'cfg runtime \<Rightarrow> u64" where
  "node_fault_count name R = counts (last_errors R) name"

section \<open>Status\<close>

definition linked :: "(nat \<rightharpoonup> nat list) \<Rightarrow> nat \<Rightarrow> nat list" where
  "linked m i = (case m i of None \<Rightarrow> [] | Some l \<Rightarrow> l)"

definition names :: "'cfg runtime \<Rightarrow> nat list \<Rightarrow> string list" where
  "names R is = List.map_filter (map_of (map prod.swap (nodes R))) is"

definition node_info_of :: "'cfg runtime \<Rightarrow> string \<times> nat \<Rightarrow> pipeline_node_info option" where
  "node_info_of R n =
     (case map_of (bootstraps R) (snd n) of
        None \<Rightarrow> None
      | Some b \<Rightarrow> Some \<lparr>ni_id = fst n, ni_type = component_type_name (c_type (b_component b)),
          ni_inputs = names R (linked (sources R) (snd n)), ni_outputs = names R (linked (sinks R) (snd n)),
          ni_running = (snd n \<in> tasks R), ni_last_error = by_node (last_errors R) (fst n),
          ni_fault_count = counts (last_errors R) (fst n)\<rparr>)"

definition build_topology :: "'cfg runtime \<Rightarrow> pipeline_node_info list" where
  "build_topology R = List.map_filter (node_info_of R) (nodes R)"

definition topology :: "'cfg runtime \<Rightarrow> pipeline_node_info list \<times> 'cfg runtime" where
  "topology R =
     (let g = generation R; r = err_rev (last_errors R) in
      case topology_cache R of
        Some (g', r', snapshot) \<Rightarrow>
          if g' = g \<and> r' = r then (snapshot, R)
          else (build_topology R, R\<lparr>topology_cache := Some (g, r, build_topology R)\<rparr>)
      | None \<Rightarrow> (build_topology R, R\<lparr>topology_cache := Some (g, r, build_topology R)\<rparr>))"

section \<open>Validation\<close>

fun first_error :: "('a \<Rightarrow> 'e option) \<Rightarrow> 'a list \<Rightarrow> 'e option" where
  "first_error f [] = None"
| "first_error f (x # xs) = (case f x of None \<Rightarrow> first_error f xs | Some e \<Rightarrow> Some e)"

definition and_then :: "'e option \<Rightarrow> 'e option \<Rightarrow> 'e option" where
  "and_then a b = (case a of None \<Rightarrow> b | Some e \<Rightarrow> Some e)"

definition will_add :: "'cfg component list \<Rightarrow> (string \<times> nat) list" where
  "will_add adds = fold (\<lambda>(i, c). AList.update (c_id c) i) (enumerate 0 adds) []"

definition check_added ::
    "'cfg runtime \<Rightarrow> 'cfg component list \<Rightarrow> 'cfg component \<Rightarrow> engine_error option" where
  "check_added R adds c =
     and_then
       (if c_type c \<in> {Source, Input} then None
        else case get_inputs c of
          Some ins \<Rightarrow> if ins = [] then Some (RequiresInput (c_id c)) else None
        | None \<Rightarrow> Some (RequiresListing (c_id c)))
       (case get_inputs c of
          Some ins \<Rightarrow>
            first_error (\<lambda>x.
              if map_of (nodes R) x = None \<and> map_of (will_add adds) x = None then Some (InputNotFound (c_id c) x)
              else case map_of (will_add adds) x of
                Some i \<Rightarrow> if c_type (adds ! i) \<in> {Sink, Output} then Some (MustNotBeSink (c_id (adds ! i))) else None
              | None \<Rightarrow> None) ins
        | None \<Rightarrow> if c_type c \<in> {Source, Input} then None else Some (MustBeSource (c_id c) (c_type c)))"

definition validate_if_adding_new_nodes ::
    "'cfg runtime \<Rightarrow> 'cfg component list \<Rightarrow> 'cfg component list \<Rightarrow> engine_error option" where
  "validate_if_adding_new_nodes R adds diffs =
     and_then (first_error (check_added R adds) adds)
       (let will_be_linked = set (concat (map declared diffs));
            read = set (concat (map declared adds));
            dead_nodes = filter (\<lambda>(x, _). x \<notin> read) (will_add adds)
        in first_error (\<lambda>(_, i).
             if c_type (adds ! i) \<notin> {Sink, Output} \<and> \<not> is_terminal (adds ! i)
                \<and> c_id (adds ! i) \<notin> will_be_linked
             then Some (MustConnect (c_type (adds ! i)) (c_id (adds ! i))) else None) dead_nodes)"

definition validate_if_changing_nodes ::
    "'cfg runtime \<Rightarrow> 'cfg component list \<Rightarrow> 'cfg component list \<Rightarrow> engine_error option" where
  "validate_if_changing_nodes R diffs adds =
     first_error (\<lambda>c. first_error (\<lambda>x.
       if map_of (nodes R) x = None \<and> x \<notin> c_id ` set adds then Some (NonExistent (c_id c) x)
       else if x = c_id c then Some SelfLoop else None) (declared c)) diffs"

definition resolve :: "'cfg runtime \<Rightarrow> string list \<Rightarrow> nat list" where
  "resolve R xs = List.map_filter (map_of (nodes R)) xs"

definition will_change_input :: "'cfg runtime \<Rightarrow> 'cfg component list \<Rightarrow> nat \<rightharpoonup> nat list" where
  "will_change_input R diffs =
     map_of (rev (map (\<lambda>c. (the (map_of (nodes R) (c_id c)), resolve R (declared c))) diffs))"

text \<open>The receivers of a node that goes away; the result is what still sends to it.\<close>

fun check_receivers ::
    "nat list \<Rightarrow> (nat \<rightharpoonup> nat list) \<Rightarrow> nat \<Rightarrow> nat list \<Rightarrow> nat list \<Rightarrow> engine_error + nat list" where
  "check_receivers dels change d [] sent = Inr sent"
| "check_receivers dels change d (r # rs) sent =
     (if r \<in> set dels then check_receivers dels change d rs sent
      else case change r of
        Some ins \<Rightarrow>
          if d \<in> set ins then Inl (ReceivesFromDead r d)
          else check_receivers dels change d rs (filter (\<lambda>i. i \<notin> set ins) sent)
      | None \<Rightarrow> Inl (ReceivesFromDead r d))"

definition check_removed ::
    "'cfg runtime \<Rightarrow> nat list \<Rightarrow> 'cfg component list \<Rightarrow> 'cfg component list \<Rightarrow> nat \<Rightarrow> engine_error option" where
  "check_removed R dels adds diffs d =
     (if d \<in> set (resolve R (concat (map declared adds))) then Some (ReadsDead d)
      else case check_receivers dels (will_change_input R diffs) d (linked (sinks R) d)
                  (remdups (linked (sources R) d)) of
        Inl e \<Rightarrow> Some e
      | Inr sent \<Rightarrow>
          first_error (\<lambda>i. case sinks R i of
              Some out \<Rightarrow> if length out = 1 \<and> i \<notin> set dels then Some (OnDeadline i) else None
            | None \<Rightarrow> None) sent)"

definition validate_if_remove_outdated_nodes ::
    "'cfg runtime \<Rightarrow> nat list \<Rightarrow> 'cfg component list \<Rightarrow> 'cfg component list \<Rightarrow> engine_error option" where
  "validate_if_remove_outdated_nodes R dels adds diffs = first_error (check_removed R dels adds diffs) dels"

definition planned_edges ::
    "'cfg runtime \<Rightarrow> 'cfg component list \<Rightarrow> 'cfg component list \<Rightarrow> nat list \<Rightarrow> graph" where
  "planned_edges R adds diffs dels =
     fold (\<lambda>c. AList.update (c_id c) (declared c)) (adds @ diffs)
       (map (\<lambda>(x, i). (x, names R (linked (sources R) i))) (filter (\<lambda>(_, i). i \<notin> set dels) (nodes R)))"

definition validate_no_cycles ::
    "'cfg runtime \<Rightarrow> 'cfg component list \<Rightarrow> 'cfg component list \<Rightarrow> nat list \<Rightarrow> engine_error option" where
  "validate_no_cycles R adds diffs dels = map_option Cycle (find_cycle (planned_edges R adds diffs dels))"

section \<open>Changing the graph\<close>

definition or_insert :: "'k \<Rightarrow> 'v \<Rightarrow> ('k \<times> 'v) list \<Rightarrow> ('k \<times> 'v) list" where
  "or_insert k v m = (if map_of m k = None then m @ [(k, v)] else m)"

definition bootstrap_new :: "'cfg component \<Rightarrow> 'cfg bootstrap" where
  "bootstrap_new c = \<lparr>b_component = c, b_cancelled = False, b_signals = 0\<rparr>"

definition bootstrap_reload :: "'cfg component \<Rightarrow> 'cfg bootstrap \<Rightarrow> 'cfg bootstrap" where
  "bootstrap_reload c b = b\<lparr>b_component := c, b_signals := b_signals b + 1\<rparr>"

definition bootstrap_stop :: "'cfg bootstrap \<Rightarrow> engine_error + 'cfg bootstrap" where
  "bootstrap_stop b = (if b_cancelled b then Inl Closed else Inr (b\<lparr>b_cancelled := True\<rparr>))"

text \<open>Registering a node; its task is spawned only once \<open>prepare\<close> has succeeded.\<close>

definition enlist_node :: "'cfg component \<Rightarrow> 'cfg runtime \<Rightarrow> 'cfg runtime" where
  "enlist_node c R =
     (let i = inc R in
      R\<lparr>inc := i + 1,
        nodes := or_insert (c_id c) i (nodes R),
        inputs := (if c_type c = Input then insert i (inputs R) else inputs R),
        outputs := (if c_type c = Output then insert i (outputs R) else outputs R),
        broadcasts := (if c_type c = Output then insert i (broadcasts R) else broadcasts R),
        senders := insert i (senders R),
        bootstraps := or_insert i (bootstrap_new c) (bootstraps R)\<rparr>)"

fun add_new_nodes ::
    "('cfg component \<Rightarrow> string option) \<Rightarrow> 'cfg component list \<Rightarrow> 'cfg runtime \<Rightarrow> engine_error option \<times> 'cfg runtime" where
  "add_new_nodes prepare [] R = (None, R)"
| "add_new_nodes prepare (c # cs) R =
     (let i = inc R; R = enlist_node c R in
      case prepare c of
        Some e \<Rightarrow> (Some (PrepareFailed (c_id c) e), R)
      | None \<Rightarrow> add_new_nodes prepare cs (R\<lparr>tasks := insert i (tasks R)\<rparr>))"

definition push_new :: "'a \<Rightarrow> 'a list \<Rightarrow> 'a list" where
  "push_new x xs = (if x \<in> set xs then xs else xs @ [x])"

definition link :: "nat \<Rightarrow> nat \<Rightarrow> (nat \<rightharpoonup> nat list) \<Rightarrow> (nat \<rightharpoonup> nat list)" where
  "link j i m = m(i \<mapsto> push_new j (linked m i))"

definition unlink :: "nat \<Rightarrow> nat \<Rightarrow> (nat \<rightharpoonup> nat list) \<Rightarrow> (nat \<rightharpoonup> nat list)" where
  "unlink j i m = (case m i of None \<Rightarrow> m | Some out \<Rightarrow> m(i \<mapsto> filter (\<lambda>k. k \<noteq> j) out))"

definition link_added :: "'cfg component \<Rightarrow> 'cfg runtime \<Rightarrow> 'cfg runtime" where
  "link_added c R =
     (let j = the (map_of (nodes R) (c_id c)) in
      case get_inputs c of
        None \<Rightarrow> R
      | Some ins \<Rightarrow>
          R\<lparr>sinks := fold (link j) (resolve R ins) (sinks R),
            sources := (sources R)(j \<mapsto> fold push_new (resolve R ins) [])\<rparr>)"

definition configure_links_after_adding_new_nodes :: "'cfg component list \<Rightarrow> 'cfg runtime \<Rightarrow> 'cfg runtime" where
  "configure_links_after_adding_new_nodes adds R = fold link_added adds R"

fun update_changing_nodes :: "'cfg component list \<Rightarrow> 'cfg runtime \<Rightarrow> engine_error option \<times> 'cfg runtime" where
  "update_changing_nodes [] R = (None, R)"
| "update_changing_nodes (c # cs) R =
     (case map_of (nodes R) (c_id c) of
        None \<Rightarrow> (Some (NoNode (c_id c)), R)
      | Some i \<Rightarrow>
          (case map_of (bootstraps R) i of
             None \<Rightarrow> (Some (NoBootstrap i), R)
           | Some b \<Rightarrow>
               update_changing_nodes cs (R\<lparr>bootstraps := AList.update i (bootstrap_reload c b) (bootstraps R)\<rparr>)))"

definition link_changed :: "'cfg component \<Rightarrow> 'cfg runtime \<Rightarrow> 'cfg runtime" where
  "link_changed c R =
     (let j = the (map_of (nodes R) (c_id c));
          new = resolve R (declared c);
          old = linked (sources R) j;
          sk = fold (unlink j) (filter (\<lambda>i. i \<notin> set new) old) (sinks R);
          sk = fold (link j) (filter (\<lambda>i. i \<notin> set old) new) sk
      in R\<lparr>sinks := sk, sources := (sources R)(j \<mapsto> new)\<rparr>)"

definition configure_links_after_changing_nodes :: "'cfg component list \<Rightarrow> 'cfg runtime \<Rightarrow> 'cfg runtime" where
  "configure_links_after_changing_nodes diffs R = fold link_changed diffs R"

fun remove_oudated_nodes :: "nat list \<Rightarrow> 'cfg runtime \<Rightarrow> engine_error option \<times> 'cfg runtime" where
  "remove_oudated_nodes [] R = (None, R)"
| "remove_oudated_nodes (d # ds) R =
     (case map_of (bootstraps R) d of
        None \<Rightarrow> (Some (NoBootstrap d), R)
      | Some b \<Rightarrow>
          (case bootstrap_stop b of
             Inl e \<Rightarrow> (Some e, R)
           | Inr _ \<Rightarrow>
               remove_oudated_nodes ds
                 (R\<lparr>bootstraps := AList.delete d (bootstraps R), tasks := tasks R - {d}, inputs := inputs R - {d},
                    outputs := outputs R - {d}, nodes := AList.delete (c_id (b_component b)) (nodes R)\<rparr>)))"

definition unlink_removed :: "nat \<Rightarrow> 'cfg runtime \<Rightarrow> 'cfg runtime" where
  "unlink_removed d R =
     R\<lparr>sinks := (fold (unlink d) (linked (sources R) d) (sinks R))(d := None),
       sources := (sources R)(d := None), senders := senders R - {d}, broadcasts := broadcasts R - {d}\<rparr>"

definition configure_links_after_remove_oudated_nodes :: "nat list \<Rightarrow> 'cfg runtime \<Rightarrow> 'cfg runtime" where
  "configure_links_after_remove_oudated_nodes dels R = fold unlink_removed dels R"

section \<open>Reload\<close>

text \<open>What a list of components adds, changes and removes.\<close>

fun classify ::
    "'cfg runtime \<Rightarrow> 'cfg component list \<Rightarrow> nat list \<Rightarrow>
     engine_error + 'cfg component list \<times> 'cfg component list \<times> nat list" where
  "classify R [] dels = Inr ([], [], dels)"
| "classify R (c # cs) dels =
     (case map_of (nodes R) (c_id c) of
        None \<Rightarrow> map_sum id (\<lambda>(adds, diffs, dels). (c # adds, diffs, dels)) (classify R cs dels)
      | Some i \<Rightarrow>
          (case map_of (bootstraps R) i of
             None \<Rightarrow> Inl (NoBootstrap i)
           | Some b \<Rightarrow>
               map_sum id (\<lambda>(adds, diffs, dels). (adds, if b_component b = c then diffs else c # diffs, dels))
                 (classify R cs (removeAll i dels))))"

definition validate ::
    "'cfg runtime \<Rightarrow> 'cfg component list \<Rightarrow> 'cfg component list \<Rightarrow> nat list \<Rightarrow> engine_error option" where
  "validate R adds diffs dels =
     and_then (validate_if_adding_new_nodes R adds diffs)
       (and_then (validate_if_changing_nodes R diffs adds)
         (and_then (validate_if_remove_outdated_nodes R dels adds diffs)
           (validate_no_cycles R adds diffs dels)))"

definition reload ::
    "('cfg component \<Rightarrow> string option) \<Rightarrow> 'cfg component list \<Rightarrow> 'cfg runtime \<Rightarrow> engine_error option \<times> 'cfg runtime" where
  "reload prepare components R =
     (case classify R components (map fst (bootstraps R)) of
        Inl e \<Rightarrow> (Some e, R)
      | Inr (adds, diffs, dels) \<Rightarrow>
          (case validate R adds diffs dels of
             Some e \<Rightarrow> (Some e, R)
           | None \<Rightarrow>
               (case add_new_nodes prepare adds R of
                  (Some e, R) \<Rightarrow> (Some e, R)
                | (None, R) \<Rightarrow>
                    (case update_changing_nodes diffs (configure_links_after_adding_new_nodes adds R) of
                       (Some e, R) \<Rightarrow> (Some e, R)
                     | (None, R) \<Rightarrow>
                         (case remove_oudated_nodes dels (configure_links_after_changing_nodes diffs R) of
                            (Some e, R) \<Rightarrow> (Some e, R)
                          | (None, R) \<Rightarrow>
                              let R = configure_links_after_remove_oudated_nodes dels R in
                              (None, R\<lparr>boot := (if is_started R then boot R + length (bootstraps R) else boot R),
                                       generation := generation R + 1\<rparr>))))))"

definition stop :: "('cfg component \<Rightarrow> string option) \<Rightarrow> 'cfg runtime \<Rightarrow> engine_error option \<times> 'cfg runtime" where
  "stop prepare R = reload prepare [] R"

definition start :: "'cfg runtime \<Rightarrow> engine_error option \<times> 'cfg runtime" where
  "start R =
     (if is_started R then (Some AlreadyStarted, R)
      else if \<not> report_rx R then (Some ReceiverTaken, R)
      else (None, R\<lparr>report_rx := False, boot := boot R + length (bootstraps R), is_started := True\<rparr>))"

definition wait_for_shutdown :: "'cfg runtime \<Rightarrow> 'cfg runtime" where
  "wait_for_shutdown R = R\<lparr>tasks := {}\<rparr>"

section \<open>Messages\<close>

text \<open>The channel a message of the outside goes to; whether the send succeeds is up to the channel.\<close>

definition inject :: "string \<Rightarrow> 'cfg runtime \<Rightarrow> engine_error + nat" where
  "inject name R =
     (case map_of (nodes R) name of
        None \<Rightarrow> Inl (NotFound name)
      | Some i \<Rightarrow>
          if i \<notin> inputs R then Inl (NotAnInput name)
          else if i \<in> senders R then Inr i else Inl (NoSender name))"

definition subscribe :: "string \<Rightarrow> 'cfg runtime \<Rightarrow> (engine_error + nat) \<times> 'cfg runtime" where
  "subscribe name R =
     (case index name R of
        Inl e \<Rightarrow> (Inl e, R)
      | Inr i \<Rightarrow>
          if i \<notin> outputs R then (Inl (NotAnOutput name i), R)
          else if \<not> is_started R \<or> i \<in> broadcasts R then (Inr i, R\<lparr>broadcasts := insert i (broadcasts R)\<rparr>)
          else (Inl AlreadyStarted, R))"

text \<open>The channels a running node sends to; \<open>closed\<close> are those whose receiver is gone.\<close>

fun fan_out :: "nat set \<Rightarrow> nat set \<Rightarrow> nat list \<Rightarrow> engine_error + nat list" where
  "fan_out closed snd_ids [] = Inr []"
| "fan_out closed snd_ids (j # js) =
     (if j \<notin> snd_ids then Inl (SenderMissing j)
      else if j \<in> closed then Inl (SenderClosed j)
      else map_sum id ((#) j) (fan_out closed snd_ids js))"

definition get_senders :: "nat set \<Rightarrow> nat \<Rightarrow> 'cfg runtime \<Rightarrow> engine_error + nat list" where
  "get_senders closed i R = fan_out closed (senders R) (linked (sinks R) i)"

definition get_broadcast :: "nat \<Rightarrow> 'cfg runtime \<Rightarrow> engine_error + nat" where
  "get_broadcast i R = (if i \<in> broadcasts R then Inr i else Inl (SenderMissing i))"

end
