(* ===== verification/Engine_Reload.thy ===== *)
theory Engine_Reload
  imports Engine
begin

text \<open>
  What a successful \<open>reload\<close> installs: exactly the components it was given, linked as they declare,
  forwards and backwards, without a cycle. The invariant \<open>wf_topology\<close> is established by the empty
  runtime and kept by every reload whose changed components read only components that stay; the
  last section shows what happens otherwise.
\<close>

section \<open>The invariant\<close>

definition ins :: "'cfg runtime \<Rightarrow> nat \<Rightarrow> nat set" where "ins R j = set (linked (sources R) j)"

definition outs :: "'cfg runtime \<Rightarrow> nat \<Rightarrow> nat set" where "outs R i = set (linked (sinks R) i)"

lemma ins_cong: "sources R = sources R' \<Longrightarrow> ins R = ins R'"
  and outs_cong: "sinks R = sinks R' \<Longrightarrow> outs R = outs R'"
  by (rule ext, simp add: ins_def outs_def)+

text \<open>The table of nodes and the table of their bootstraps agree.\<close>

definition nodes_ok :: "'cfg runtime \<Rightarrow> bool" where
  "nodes_ok R \<longleftrightarrow>
     distinct (map fst (nodes R)) \<and> distinct (map snd (nodes R)) \<and> distinct (map fst (bootstraps R))
     \<and> (\<forall>i \<in> fst ` set (bootstraps R). i < inc R)
     \<and> (\<forall>x i. map_of (nodes R) x = Some i \<longleftrightarrow>
          (\<exists>b. map_of (bootstraps R) i = Some b \<and> c_id (b_component b) = x))
     \<and> (\<forall>i b. map_of (bootstraps R) i = Some b \<longrightarrow> \<not> b_cancelled b)"

definition mirrored :: "'cfg runtime \<Rightarrow> bool" where
  "mirrored R \<longleftrightarrow> (\<forall>i j. j \<in> outs R i \<longleftrightarrow> i \<in> ins R j)"

definition links_ok :: "'cfg runtime \<Rightarrow> bool" where
  "links_ok R \<longleftrightarrow> mirrored R
     \<and> (\<forall>i. i \<notin> dom (map_of (bootstraps R)) \<longrightarrow> ins R i = {})
     \<and> (\<forall>i b. map_of (bootstraps R) i = Some b \<longrightarrow>
          ins R i = set (resolve R (declared (b_component b)))
          \<and> set (declared (b_component b)) \<subseteq> dom (map_of (nodes R)))"

definition wf_topology :: "'cfg runtime \<Rightarrow> bool" where
  "wf_topology R \<longleftrightarrow> nodes_ok R \<and> links_ok R \<and> senders R = dom (map_of (bootstraps R))"

lemma nodes_okD:
  assumes "nodes_ok R"
  shows "distinct (map fst (nodes R))" "distinct (map snd (nodes R))" "distinct (map fst (bootstraps R))"
    "map_of (bootstraps R) i = Some b \<Longrightarrow> i < inc R"
    "map_of (nodes R) x = Some i \<longleftrightarrow> (\<exists>b. map_of (bootstraps R) i = Some b \<and> c_id (b_component b) = x)"
    "map_of (bootstraps R) i = Some b \<Longrightarrow> \<not> b_cancelled b"
proof -
  show "i < inc R" if "map_of (bootstraps R) i = Some b"
  proof -
    have "i \<in> fst ` set (bootstraps R)" using map_of_SomeD [OF that] by force
    then show ?thesis using assms unfolding nodes_ok_def by blast
  qed
  show "\<not> b_cancelled b" if "map_of (bootstraps R) i = Some b"
    using assms that unfolding nodes_ok_def by blast
qed (use assms in \<open>simp_all only: nodes_ok_def\<close>)

lemma nodes_inj: "nodes_ok R \<Longrightarrow> map_of (nodes R) x = Some i \<Longrightarrow> map_of (nodes R) y = Some i \<Longrightarrow> x = y"
  using nodes_okD(5) by (metis option.inject)

lemma in_resolve: "i \<in> set (resolve R xs) \<longleftrightarrow> (\<exists>x \<in> set xs. map_of (nodes R) x = Some i)"
  by (auto simp: resolve_def map_filter_def image_iff)

section \<open>Links\<close>

lemma linked_upd: "linked (m(i \<mapsto> l)) k = (if k = i then l else linked m k)"
  "linked (m(i := None)) k = (if k = i then [] else linked m k)"
  by (simp_all add: linked_def)

lemma set_push_new [simp]: "set (push_new x xs) = insert x (set xs)"
  by (auto simp: push_new_def)

lemma set_fold_push_new [simp]: "set (fold push_new xs ys) = set xs \<union> set ys"
  by (induction xs arbitrary: ys) auto

lemma linked_link: "set (linked (link j i m) k) = (if k = i then insert j (set (linked m i)) else set (linked m k))"
  by (simp add: link_def linked_upd)

lemma linked_unlink: "set (linked (unlink j i m) k) = (if k = i then set (linked m i) - {j} else set (linked m k))"
  by (auto simp: unlink_def linked_def split: option.split)

lemma linked_fold_link:
  "set (linked (fold (link j) is m) k) = (if k \<in> set is then insert j (set (linked m k)) else set (linked m k))"
  by (induction "is" arbitrary: m) (auto simp: linked_link)

lemma linked_fold_unlink:
  "set (linked (fold (unlink j) is m) k) = (if k \<in> set is then set (linked m k) - {j} else set (linked m k))"
  by (induction "is" arbitrary: m) (auto simp: linked_unlink)

text \<open>Both ways of linking a node leave the tables mirrored and give it the inputs it declares.\<close>

definition relinks :: "('cfg component \<Rightarrow> 'cfg runtime \<Rightarrow> 'cfg runtime) \<Rightarrow> 'cfg component \<Rightarrow> 'cfg runtime \<Rightarrow> bool" where
  "relinks f c R \<longleftrightarrow>
     (let j = the (map_of (nodes R) (c_id c)) in
      mirrored (f c R) \<and> ins (f c R) = (ins R)(j := set (resolve R (declared c)))
      \<and> nodes (f c R) = nodes R \<and> bootstraps (f c R) = bootstraps R \<and> senders (f c R) = senders R \<and> inc (f c R) = inc R)"

lemma link_added_relinks:
  assumes m: "mirrored R" and fresh: "ins R (the (map_of (nodes R) (c_id c))) \<subseteq> set (resolve R (declared c))"
  shows "relinks link_added c R"
proof (cases "get_inputs c")
  case None
  then show ?thesis using assms by (auto simp: relinks_def link_added_def declared_def resolve_def map_filter_def fun_eq_iff)
next
  case (Some xs)
  let ?j = "the (map_of (nodes R) (c_id c))"
  have ins: "ins (link_added c R) = (ins R)(?j := set (resolve R (declared c)))"
    using Some by (auto simp: link_added_def Let_def ins_def linked_upd declared_def fun_eq_iff)
  have "outs (link_added c R) i = (if i \<in> set (resolve R (declared c)) then insert ?j (outs R i) else outs R i)" for i
    using Some by (auto simp: link_added_def Let_def outs_def linked_fold_link declared_def)
  then have "mirrored (link_added c R)" using m fresh by (auto simp: mirrored_def ins)
  then show ?thesis using Some ins by (simp add: relinks_def link_added_def Let_def)
qed

lemma link_changed_relinks:
  assumes m: "mirrored R"
  shows "relinks link_changed c R"
proof -
  let ?j = "the (map_of (nodes R) (c_id c))" and ?new = "set (resolve R (declared c))"
  have ins: "ins (link_changed c R) = (ins R)(?j := ?new)"
    by (auto simp: link_changed_def Let_def ins_def linked_upd fun_eq_iff)
  have "outs (link_changed c R) i =
      (if i \<in> ?new - ins R ?j then insert ?j (outs R i) else if i \<in> ins R ?j - ?new then outs R i - {?j} else outs R i)" for i
    by (auto simp: link_changed_def Let_def outs_def ins_def linked_fold_link linked_fold_unlink)
  then have "mirrored (link_changed c R)" using m by (auto simp: mirrored_def ins)
  then show ?thesis using ins by (simp add: relinks_def link_changed_def Let_def)
qed

lemma fold_relinks:
  assumes "\<And>c R. c \<in> set cs \<Longrightarrow> P R \<Longrightarrow> mirrored R \<Longrightarrow> relinks f c R"
    and "\<And>c R. c \<in> set cs \<Longrightarrow> P R \<Longrightarrow> mirrored R \<Longrightarrow> P (f c R)"
    and "P R" "mirrored R" "distinct (map c_id cs)" "nodes_ok R" "c_id ` set cs \<subseteq> dom (map_of (nodes R))"
  shows "mirrored (fold f cs R) \<and> nodes (fold f cs R) = nodes R \<and> bootstraps (fold f cs R) = bootstraps R
    \<and> senders (fold f cs R) = senders R \<and> inc (fold f cs R) = inc R
    \<and> (\<forall>c \<in> set cs. \<forall>j. map_of (nodes R) (c_id c) = Some j \<longrightarrow> ins (fold f cs R) j = set (resolve R (declared c)))
    \<and> (\<forall>j. j \<notin> (\<lambda>c. the (map_of (nodes R) (c_id c))) ` set cs \<longrightarrow> ins (fold f cs R) j = ins R j)"
  using assms
proof (induction cs arbitrary: R)
  case (Cons c cs)
  let ?R = "f c R" and ?j = "the (map_of (nodes R) (c_id c))"
  have rl: "relinks f c R" using Cons.prems by simp
  then have same: "mirrored ?R" "nodes ?R = nodes R" "bootstraps ?R = bootstraps R" "senders ?R = senders R" "inc ?R = inc R"
    and ins: "ins ?R = (ins R)(?j := set (resolve R (declared c)))" by (simp_all add: relinks_def Let_def)
  have res: "resolve ?R xs = resolve R xs" for xs by (simp add: resolve_def same(2))
  have ok: "nodes_ok ?R" using Cons.prems(6) unfolding nodes_ok_def same .
  have IH: "mirrored (fold f cs ?R) \<and> nodes (fold f cs ?R) = nodes ?R \<and> bootstraps (fold f cs ?R) = bootstraps ?R
    \<and> senders (fold f cs ?R) = senders ?R \<and> inc (fold f cs ?R) = inc ?R
    \<and> (\<forall>c \<in> set cs. \<forall>j. map_of (nodes ?R) (c_id c) = Some j \<longrightarrow> ins (fold f cs ?R) j = set (resolve ?R (declared c)))
    \<and> (\<forall>j. j \<notin> (\<lambda>c. the (map_of (nodes ?R) (c_id c))) ` set cs \<longrightarrow> ins (fold f cs ?R) j = ins ?R j)"
  proof (rule Cons.IH)
    show "P ?R" using Cons.prems(2) [of c R] Cons.prems(3,4) by simp
    show "c_id ` set cs \<subseteq> dom (map_of (nodes ?R))" using Cons.prems(7) by (simp add: same(2))
  qed (use Cons.prems(1,2,5) same(1) ok in simp_all)
  have other: "?j \<notin> (\<lambda>c. the (map_of (nodes R) (c_id c))) ` set cs"
  proof
    assume "?j \<in> (\<lambda>c. the (map_of (nodes R) (c_id c))) ` set cs"
    then obtain c' where c': "c' \<in> set cs" "?j = the (map_of (nodes R) (c_id c'))" by blast
    obtain k k' where "map_of (nodes R) (c_id c) = Some k" "map_of (nodes R) (c_id c') = Some k'"
      using Cons.prems(7) c'(1) by fastforce
    then have "c_id c = c_id c'" using c'(2) nodes_inj [OF Cons.prems(6)] by simp
    then show False using Cons.prems(5) c'(1) by (metis distinct.simps(2) image_eqI list.set_map list.simps(9))
  qed
  have self: "ins (fold f cs ?R) j = set (resolve R (declared c))" if "map_of (nodes R) (c_id c) = Some j" for j
    using IH other ins that by (simp add: same(2))
  show ?case
    using IH self ins unfolding fold_simps(2) same res by (auto simp: same)
qed simp

section \<open>Nodes\<close>

lemma map_of_snoc: "([k \<mapsto> v] ++ m) x = (case m x of None \<Rightarrow> (if x = k then Some v else None) | Some w \<Rightarrow> Some w)"
  by (simp add: map_add_def split: option.split)

lemma nodes_ok_snoc:
  assumes ok: "nodes_ok R" and new: "map_of (nodes R) x = None" and c: "c_id (b_component b) = x" "\<not> b_cancelled b"
    and R': "nodes R' = nodes R @ [(x, inc R)]" "bootstraps R' = bootstraps R @ [(inc R, b)]" "inc R' = inc R + 1"
  shows "nodes_ok R'"
proof -
  note d = nodes_okD [OF ok]
  have none: "map_of (bootstraps R) (inc R) = None"
    using d(4) [of "inc R"] by (cases "map_of (bootstraps R) (inc R)") auto
  have fresh: "inc R \<notin> snd ` set (nodes R)"
  proof
    assume "inc R \<in> snd ` set (nodes R)"
    then obtain y where "(y, inc R) \<in> set (nodes R)" by auto
    then have "map_of (nodes R) y = Some (inc R)" using d(1) by simp
    then show False using d(5) none by simp
  qed
  have keys: "i < inc R" if "i \<in> fst ` set (bootstraps R)" for i
    using ok that unfolding nodes_ok_def by blast
  have look: "map_of (nodes R') y = Some i \<longleftrightarrow> (\<exists>b. map_of (bootstraps R') i = Some b \<and> c_id (b_component b) = y)" for y i
  proof (cases "i = inc R")
    case True
    have "map_of (nodes R) y \<noteq> Some (inc R)" using d(5) none by simp
    then show ?thesis using True none new c(1) by (auto simp: R' map_of_snoc split: option.splits)
  next
    case False
    then show ?thesis using d(5) [of y i] new
      by (auto simp: R' map_of_snoc split: option.splits)
  qed
  show ?thesis
    unfolding nodes_ok_def
  proof (intro conjI)
    show "distinct (map fst (nodes R'))" using d(1) new by (simp add: R' map_of_eq_None_iff)
    show "distinct (map snd (nodes R'))" using d(2) fresh by (simp add: R')
    show "distinct (map fst (bootstraps R'))" using d(3) none by (simp add: R' map_of_eq_None_iff)
    show "\<forall>i \<in> fst ` set (bootstraps R'). i < inc R'" using keys by (fastforce simp: R')
    show "\<forall>x i. map_of (nodes R') x = Some i \<longleftrightarrow> (\<exists>b. map_of (bootstraps R') i = Some b \<and> c_id (b_component b) = x)"
      using look by blast
    show "\<forall>i b. map_of (bootstraps R') i = Some b \<longrightarrow> \<not> b_cancelled b"
      using d(6) c(2) by (auto simp: R' map_of_snoc split: option.splits if_splits)
  qed
qed

lemma enlist_node_simps:
  assumes "nodes_ok R" "map_of (nodes R) (c_id c) = None"
  shows "nodes (enlist_node c R) = nodes R @ [(c_id c, inc R)]"
    "bootstraps (enlist_node c R) = bootstraps R @ [(inc R, bootstrap_new c)]" "inc (enlist_node c R) = inc R + 1"
    "sources (enlist_node c R) = sources R" "sinks (enlist_node c R) = sinks R"
    "senders (enlist_node c R) = insert (inc R) (senders R)"
proof -
  have "map_of (bootstraps R) (inc R) = None"
    using nodes_okD(4) [OF assms(1), of "inc R"] by (cases "map_of (bootstraps R) (inc R)") auto
  then show "nodes (enlist_node c R) = nodes R @ [(c_id c, inc R)]"
    "bootstraps (enlist_node c R) = bootstraps R @ [(inc R, bootstrap_new c)]" "inc (enlist_node c R) = inc R + 1"
    "sources (enlist_node c R) = sources R" "sinks (enlist_node c R) = sinks R"
    "senders (enlist_node c R) = insert (inc R) (senders R)"
    using assms(2) by (simp_all add: enlist_node_def or_insert_def Let_def)
qed

text \<open>Adding nodes: the old entries stay, the new ones get fresh indices.\<close>

lemma add_new_nodes_ok:
  assumes "add_new_nodes prepare cs R = (None, R')" "nodes_ok R" "distinct (map c_id cs)"
    "c_id ` set cs \<inter> dom (map_of (nodes R)) = {}" "senders R = dom (map_of (bootstraps R))"
  shows "nodes_ok R' \<and> sources R' = sources R \<and> sinks R' = sinks R \<and> senders R' = dom (map_of (bootstraps R'))
    \<and> map_of (nodes R) \<subseteq>\<^sub>m map_of (nodes R') \<and> map_of (bootstraps R) \<subseteq>\<^sub>m map_of (bootstraps R')
    \<and> dom (map_of (nodes R')) = dom (map_of (nodes R)) \<union> c_id ` set cs
    \<and> (\<forall>c \<in> set cs. \<exists>i b. map_of (nodes R') (c_id c) = Some i \<and> map_of (bootstraps R) i = None
         \<and> map_of (bootstraps R') i = Some b \<and> b_component b = c)"
  using assms
proof (induction cs arbitrary: R)
  case (Cons c cs)
  let ?R = "(enlist_node c R)\<lparr>tasks := insert (inc R) (tasks (enlist_node c R))\<rparr>"
  have new: "map_of (nodes R) (c_id c) = None" using Cons.prems(4) by auto
  note rs = enlist_node_simps [OF Cons.prems(2) new]
  have step: "add_new_nodes prepare cs ?R = (None, R')"
    using Cons.prems(1) by (auto simp: Let_def split: option.splits)
  have ok: "nodes_ok ?R"
    by (rule nodes_ok_snoc [OF Cons.prems(2) new, of "bootstrap_new c"]) (simp_all add: rs bootstrap_new_def)
  have none: "map_of (bootstraps R) (inc R) = None"
    using nodes_okD(4) [OF Cons.prems(2), of "inc R"] by (cases "map_of (bootstraps R) (inc R)") auto
  have sub: "map_of (nodes R) \<subseteq>\<^sub>m map_of (nodes ?R)" "map_of (bootstraps R) \<subseteq>\<^sub>m map_of (bootstraps ?R)"
    by (auto simp: rs map_le_def map_of_snoc split: option.splits)
  have domn: "dom (map_of (nodes ?R)) = insert (c_id c) (dom (map_of (nodes R)))"
    and domb: "dom (map_of (bootstraps ?R)) = insert (inc R) (dom (map_of (bootstraps R)))"
    by (auto simp: rs dom_map_of_conv_image_fst)
  have cid: "c_id c \<notin> c_id ` set cs" "distinct (map c_id cs)" using Cons.prems(3) by auto
  have IH: "nodes_ok R' \<and> sources R' = sources ?R \<and> sinks R' = sinks ?R \<and> senders R' = dom (map_of (bootstraps R'))
    \<and> map_of (nodes ?R) \<subseteq>\<^sub>m map_of (nodes R') \<and> map_of (bootstraps ?R) \<subseteq>\<^sub>m map_of (bootstraps R')
    \<and> dom (map_of (nodes R')) = dom (map_of (nodes ?R)) \<union> c_id ` set cs
    \<and> (\<forall>c \<in> set cs. \<exists>i b. map_of (nodes R') (c_id c) = Some i \<and> map_of (bootstraps ?R) i = None
         \<and> map_of (bootstraps R') i = Some b \<and> b_component b = c)"
    using step ok cid(2)
  proof (rule Cons.IH)
    show "c_id ` set cs \<inter> dom (map_of (nodes ?R)) = {}" using Cons.prems(4) cid(1) unfolding domn by auto
    show "senders ?R = dom (map_of (bootstraps ?R))" unfolding domb by (simp add: rs Cons.prems(5))
  qed
  have "map_of (nodes ?R) (c_id c) = Some (inc R)" "map_of (bootstraps ?R) (inc R) = Some (bootstrap_new c)"
    using new none by (simp_all add: rs map_of_snoc)
  then have self: "map_of (nodes R') (c_id c) = Some (inc R)" "map_of (bootstraps R') (inc R) = Some (bootstrap_new c)"
    using IH unfolding map_le_def by (metis domI)+
  have old: "map_of (bootstraps R) i = None" if "map_of (bootstraps ?R) i = None" for i
    using sub(2) that unfolding map_le_def by (metis domIff)
  have "\<forall>c' \<in> set (c # cs). \<exists>i b. map_of (nodes R') (c_id c') = Some i \<and> map_of (bootstraps R) i = None
         \<and> map_of (bootstraps R') i = Some b \<and> b_component b = c'"
    using IH old self none by (fastforce simp: bootstrap_new_def)
  moreover have "map_of (nodes R) \<subseteq>\<^sub>m map_of (nodes R')" "map_of (bootstraps R) \<subseteq>\<^sub>m map_of (bootstraps R')"
    using IH map_le_trans [OF sub(1), of "map_of (nodes R')"] map_le_trans [OF sub(2), of "map_of (bootstraps R')"]
    by (simp_all only: simp_thms)
  ultimately show ?case using IH by (simp add: rs domn)
qed simp

lemma nodes_ok_swap:
  assumes ok: "nodes_ok R" and b: "map_of (bootstraps R) i = Some b" and id: "c_id (b_component b') = c_id (b_component b)"
    and live: "\<not> b_cancelled b'"
    and R': "nodes R' = nodes R" "bootstraps R' = AList.update i b' (bootstraps R)" "inc R' = inc R"
  shows "nodes_ok R'"
proof -
  note d = nodes_okD [OF ok]
  have m: "map_of (bootstraps R') = (map_of (bootstraps R))(i \<mapsto> b')" by (simp add: R' update_conv')
  have keys: "fst ` set (bootstraps R') = fst ` set (bootstraps R)"
    using b arg_cong [OF m, of dom] by (simp add: dom_map_of_conv_image_fst) (metis domI dom_map_of_conv_image_fst insert_absorb)
  have "map_of (nodes R') x = Some j \<longleftrightarrow> (\<exists>b. map_of (bootstraps R') j = Some b \<and> c_id (b_component b) = x)" for x j
    using d(5) [of x j] b id by (auto simp: R'(1) m)
  moreover have "\<not> b_cancelled c" if "map_of (bootstraps R') j = Some c" for j c
    using that d(6) live by (auto simp: m split: if_splits)
  moreover have "distinct (map fst (bootstraps R'))" using d(3) by (simp add: R'(2) distinct_update)
  moreover have "\<forall>i \<in> fst ` set (bootstraps R'). i < inc R'" using ok unfolding keys R'(3) nodes_ok_def by blast
  ultimately show ?thesis using d(1,2) unfolding nodes_ok_def R'(1) by blast
qed

lemma update_changing_nodes_ok:
  assumes "update_changing_nodes cs R = (None, R')" "nodes_ok R" "distinct (map c_id cs)"
  shows "nodes_ok R' \<and> nodes R' = nodes R \<and> sources R' = sources R \<and> sinks R' = sinks R \<and> senders R' = senders R
    \<and> dom (map_of (bootstraps R')) = dom (map_of (bootstraps R))
    \<and> (\<forall>c \<in> set cs. \<exists>i b. map_of (nodes R) (c_id c) = Some i \<and> map_of (bootstraps R') i = Some b \<and> b_component b = c)
    \<and> (\<forall>i. (\<forall>c \<in> set cs. map_of (nodes R) (c_id c) \<noteq> Some i) \<longrightarrow> map_of (bootstraps R') i = map_of (bootstraps R) i)"
  using assms
proof (induction cs arbitrary: R)
  case (Cons c cs)
  obtain i where i: "map_of (nodes R) (c_id c) = Some i"
    using Cons.prems(1) by (cases "map_of (nodes R) (c_id c)") auto
  obtain b where b: "map_of (bootstraps R) i = Some b"
    using Cons.prems(1) i by (cases "map_of (bootstraps R) i") auto
  let ?b = "bootstrap_reload c b"
  let ?R = "R\<lparr>bootstraps := AList.update i ?b (bootstraps R)\<rparr>"
  have m: "map_of (bootstraps ?R) = (map_of (bootstraps R))(i \<mapsto> ?b)" by (simp add: update_conv')
  have "c_id (b_component b) = c_id c" using nodes_okD(5) [OF Cons.prems(2), of "c_id c" i] i b by auto
  then have ok: "nodes_ok ?R"
    using nodes_okD(6) [OF Cons.prems(2) b]
    by (intro nodes_ok_swap [OF Cons.prems(2) b, of ?b]) (simp_all add: bootstrap_reload_def)
  have step: "update_changing_nodes cs ?R = (None, R')" using Cons.prems(1) i b by simp
  have cid: "c_id c \<notin> c_id ` set cs" "distinct (map c_id cs)" using Cons.prems(3) by auto
  note IH = Cons.IH [OF step ok cid(2)]
  have other: "map_of (nodes R) (c_id c') \<noteq> Some i" if "c' \<in> set cs" for c'
    using nodes_inj [OF Cons.prems(2) i] cid(1) that by auto
  then have "map_of (bootstraps R') i = Some ?b" using IH m by simp
  then have self: "\<exists>i b. map_of (nodes R) (c_id c) = Some i \<and> map_of (bootstraps R') i = Some b \<and> b_component b = c"
    using i by (simp add: bootstrap_reload_def)
  have "dom (map_of (bootstraps ?R)) = dom (map_of (bootstraps R))"
    unfolding m using domI [of "map_of (bootstraps R)" i, OF b] by (simp add: insert_absorb)
  then have dom: "dom (map_of (bootstraps R')) = dom (map_of (bootstraps R))" using IH by blast
  have rest: "map_of (bootstraps R') j = map_of (bootstraps R) j"
    if "\<forall>c \<in> set (c # cs). map_of (nodes R) (c_id c) \<noteq> Some j" for j
    using IH that i by (auto simp: update_conv')
  show ?case using IH self dom rest by simp
qed simp

lemma remove_oudated_nodes_ok:
  assumes "remove_oudated_nodes ds R = (None, R')" "nodes_ok R"
  shows "nodes_ok R' \<and> sources R' = sources R \<and> sinks R' = sinks R \<and> senders R' = senders R
    \<and> (\<forall>i. map_of (bootstraps R') i = (if i \<in> set ds then None else map_of (bootstraps R) i))"
  using assms
proof (induction ds arbitrary: R)
  case (Cons d ds)
  note ok = Cons.prems(2)
  obtain b where b: "map_of (bootstraps R) d = Some b"
    using Cons.prems(1) by (cases "map_of (bootstraps R) d") auto
  let ?x = "c_id (b_component b)"
  let ?R = "R\<lparr>bootstraps := AList.delete d (bootstraps R), tasks := tasks R - {d}, inputs := inputs R - {d},
      outputs := outputs R - {d}, nodes := AList.delete ?x (nodes R)\<rparr>"
  have step: "remove_oudated_nodes ds ?R = (None, R')"
    using Cons.prems(1) b by (auto simp: bootstrap_stop_def split: if_splits)
  have mb: "map_of (bootstraps ?R) = (map_of (bootstraps R))(d := None)"
    and mn: "map_of (nodes ?R) = (map_of (nodes R))(?x := None)" by (simp_all add: delete_conv')
  have x: "map_of (nodes R) ?x = Some d" using nodes_okD(5) [OF ok] b by blast
  have look: "map_of (nodes ?R) y = Some i \<longleftrightarrow> (\<exists>b. map_of (bootstraps ?R) i = Some b \<and> c_id (b_component b) = y)" for y i
  proof (cases "i = d")
    case True
    have "map_of (nodes R) y = Some d \<Longrightarrow> y = ?x" using nodes_inj [OF ok _ x] by blast
    then show ?thesis unfolding mb mn using True by auto
  next
    case False
    have "map_of (nodes ?R) y = Some i \<longleftrightarrow> map_of (nodes R) y = Some i" unfolding mn using x False by simp
    then show ?thesis unfolding mb using nodes_okD(5) [OF ok, of y i] False by simp
  qed
  have sub: "set (bootstraps ?R) \<subseteq> set (bootstraps R)" by (auto simp: AList.delete_eq)
  have keys: "\<forall>i \<in> fst ` set (bootstraps ?R). i < inc ?R" using ok sub unfolding nodes_ok_def by auto
  have snd: "distinct (map snd (nodes ?R))" using nodes_okD(2) [OF ok] by (simp add: AList.delete_eq distinct_map_filter)
  have "\<not> b_cancelled c" if "map_of (bootstraps ?R) i = Some c" for i c
    using nodes_okD(6) [OF ok] that unfolding mb by (auto split: if_splits)
  then have ok': "nodes_ok ?R"
    unfolding nodes_ok_def using look keys snd nodes_okD(1,3) [OF ok] by (simp add: distinct_delete)
  have "map_of (bootstraps R') i = (if i \<in> set (d # ds) then None else map_of (bootstraps R) i)" for i
    using Cons.IH [OF step ok'] mb by simp
  then show ?case using Cons.IH [OF step ok'] by simp
qed simp

lemma fold_unlink_removed:
  "nodes (fold unlink_removed ds R) = nodes R \<and> bootstraps (fold unlink_removed ds R) = bootstraps R
   \<and> inc (fold unlink_removed ds R) = inc R \<and> senders (fold unlink_removed ds R) = senders R - set ds
   \<and> (\<forall>j. ins (fold unlink_removed ds R) j = (if j \<in> set ds then {} else ins R j))
   \<and> (\<forall>i. outs (fold unlink_removed ds R) i = (if i \<in> set ds then {} else outs R i - {d \<in> set ds. i \<in> ins R d}))"
proof (induction ds arbitrary: R)
  case (Cons d ds)
  let ?R = "unlink_removed d R"
  have ins: "ins ?R j = (if j = d then {} else ins R j)" for j
    by (simp add: unlink_removed_def ins_def linked_upd)
  have outs: "outs ?R i = (if i = d then {} else if i \<in> ins R d then outs R i - {d} else outs R i)" for i
    by (simp add: unlink_removed_def outs_def ins_def linked_upd linked_fold_unlink)
  have rest: "nodes ?R = nodes R" "bootstraps ?R = bootstraps R" "inc ?R = inc R" "senders ?R = senders R - {d}"
    by (simp_all add: unlink_removed_def)
  have "ins (fold unlink_removed ds ?R) j = (if j \<in> set (d # ds) then {} else ins R j)" for j
    using Cons.IH [of ?R] ins by simp
  moreover have "outs (fold unlink_removed ds ?R) i = (if i \<in> set (d # ds) then {} else outs R i - {e \<in> set (d # ds). i \<in> ins R e})" for i
    using Cons.IH [of ?R] ins outs by auto
  ultimately show ?case using Cons.IH [of ?R] rest by auto
qed simp

section \<open>What validation establishes\<close>

lemma first_error_None [simp]: "first_error f xs = None \<longleftrightarrow> (\<forall>x \<in> set xs. f x = None)"
  by (induction xs) (auto split: option.splits)

lemma and_then_None [simp]: "and_then a b = None \<longleftrightarrow> a = None \<and> b = None"
  by (simp add: and_then_def split: option.split)

lemma dom_fold_update:
  "dom (map_of (fold (\<lambda>(i, c). AList.update (c_id c) (g i c)) ps m)) = dom (map_of m) \<union> (\<lambda>p. c_id (snd p)) ` set ps"
  by (induction ps arbitrary: m) (auto simp: update_conv')

lemma dom_will_add: "dom (map_of (will_add adds)) = c_id ` set adds"
proof -
  have "(\<lambda>p. c_id (snd p)) ` set (enumerate 0 adds) = c_id ` snd ` set (enumerate 0 adds)" by (simp add: image_image)
  also have "snd ` set (enumerate 0 adds) = set adds" using map_snd_enumerate [of 0 adds] by (metis list.set_map)
  finally show ?thesis
    using dom_fold_update [of "\<lambda>i c. i" "enumerate 0 adds" "[]"] by (simp add: will_add_def)
qed

lemma check_added_inputs:
  assumes "check_added R adds c = None"
  shows "set (declared c) \<subseteq> dom (map_of (nodes R)) \<union> c_id ` set adds"
proof
  fix x assume x: "x \<in> set (declared c)"
  then obtain xs where "get_inputs c = Some xs" "x \<in> set xs" by (cases "get_inputs c") (auto simp: declared_def)
  then have "\<not> (map_of (nodes R) x = None \<and> map_of (will_add adds) x = None)"
    using assms by (auto simp: check_added_def split: if_splits)
  then show "x \<in> dom (map_of (nodes R)) \<union> c_id ` set adds"
    using dom_will_add [of adds] by (auto simp: domIff)
qed

lemma check_receivers_ok:
  "check_receivers dels change d rs sent = Inr sent' \<Longrightarrow> r \<in> set rs \<Longrightarrow>
   r \<in> set dels \<or> (\<exists>xs. change r = Some xs \<and> d \<notin> set xs)"
  by (induction dels change d rs sent rule: check_receivers.induct) (auto split: if_splits option.splits)

lemma validate_facts:
  assumes "validate R adds diffs dels = None"
  shows "c \<in> set adds \<Longrightarrow> set (declared c) \<subseteq> dom (map_of (nodes R)) \<union> c_id ` set adds"
    and "c \<in> set diffs \<Longrightarrow> set (declared c) \<subseteq> dom (map_of (nodes R)) \<union> c_id ` set adds"
    and "d \<in> set dels \<Longrightarrow> c \<in> set adds \<Longrightarrow> d \<notin> set (resolve R (declared c))"
    and "d \<in> set dels \<Longrightarrow> r \<in> outs R d \<Longrightarrow> r \<in> set dels \<or> (\<exists>c \<in> set diffs. the (map_of (nodes R) (c_id c)) = r)"
    and "acyclic (edge (planned_edges R adds diffs dels))"
proof -
  have v: "validate_if_adding_new_nodes R adds diffs = None" "validate_if_changing_nodes R diffs adds = None"
    "validate_if_remove_outdated_nodes R dels adds diffs = None" "validate_no_cycles R adds diffs dels = None"
    using assms by (simp_all add: validate_def)
  show "set (declared c) \<subseteq> dom (map_of (nodes R)) \<union> c_id ` set adds" if "c \<in> set adds"
    using v(1) that by (intro check_added_inputs) (simp add: validate_if_adding_new_nodes_def)
  show "set (declared c) \<subseteq> dom (map_of (nodes R)) \<union> c_id ` set adds" if c: "c \<in> set diffs"
  proof
    fix x assume "x \<in> set (declared c)"
    then have "\<not> (map_of (nodes R) x = None \<and> x \<notin> c_id ` set adds)"
      using v(2) c by (auto simp: validate_if_changing_nodes_def split: if_splits)
    then show "x \<in> dom (map_of (nodes R)) \<union> c_id ` set adds" by auto
  qed
  have removed: "check_removed R dels adds diffs d = None" if "d \<in> set dels" for d
    using v(3) that by (simp add: validate_if_remove_outdated_nodes_def)
  show "d \<notin> set (resolve R (declared c))" if "d \<in> set dels" "c \<in> set adds"
    using removed [OF that(1)] that(2) by (auto simp: check_removed_def in_resolve split: if_splits)
  show "r \<in> set dels \<or> (\<exists>c \<in> set diffs. the (map_of (nodes R) (c_id c)) = r)" if d: "d \<in> set dels" and r: "r \<in> outs R d"
  proof -
    obtain sent where "check_receivers dels (will_change_input R diffs) d (linked (sinks R) d) (remdups (linked (sources R) d)) = Inr sent"
      using removed [OF d] by (auto simp: check_removed_def split: if_splits sum.splits)
    then have "r \<in> set dels \<or> (\<exists>xs. will_change_input R diffs r = Some xs \<and> d \<notin> set xs)"
      using r by (intro check_receivers_ok) (simp_all add: outs_def)
    then show ?thesis by (auto simp: will_change_input_def dest!: map_of_SomeD)
  qed
  show "acyclic (edge (planned_edges R adds diffs dels))"
    using v(4) by (intro find_cycle_acyclic) (simp add: validate_no_cycles_def)
qed

lemma classify_result:
  "classify R cs dels = Inr (adds, diffs, dels') \<Longrightarrow>
     adds = filter (\<lambda>c. map_of (nodes R) (c_id c) = None) cs
   \<and> diffs = filter (\<lambda>c. case map_of (nodes R) (c_id c) of None \<Rightarrow> False
        | Some i \<Rightarrow> (case map_of (bootstraps R) i of None \<Rightarrow> False | Some b \<Rightarrow> b_component b \<noteq> c)) cs
   \<and> set dels' = {i \<in> set dels. \<forall>c \<in> set cs. map_of (nodes R) (c_id c) \<noteq> Some i}"
proof (induction cs arbitrary: dels adds diffs dels')
  case (Cons c cs)
  show ?case
  proof (cases "map_of (nodes R) (c_id c)")
    case None
    then obtain adds1 where "classify R cs dels = Inr (adds1, diffs, dels')" "adds = c # adds1"
      using Cons.prems by (cases "classify R cs dels") auto
    from Cons.IH [OF this(1)] show ?thesis using None \<open>adds = c # adds1\<close> by simp
  next
    case (Some i)
    obtain b where b: "map_of (bootstraps R) i = Some b" using Cons.prems Some by (cases "map_of (bootstraps R) i") auto
    obtain diffs1 where c: "classify R cs (removeAll i dels) = Inr (adds, diffs1, dels')"
      "diffs = (if b_component b = c then diffs1 else c # diffs1)"
      using Cons.prems Some b by (cases "classify R cs (removeAll i dels)") auto
    from Cons.IH [OF c(1)] show ?thesis using Some b c(2) by auto
  qed
qed simp

section \<open>A reload, stage by stage\<close>

lemma wf_topologyD:
  assumes "wf_topology R"
  shows "nodes_ok R" "mirrored R" "senders R = dom (map_of (bootstraps R))"
    "map_of (bootstraps R) i = None \<Longrightarrow> ins R i = {}"
    "map_of (bootstraps R) i = Some b \<Longrightarrow> ins R i = set (resolve R (declared (b_component b)))"
    "map_of (bootstraps R) i = Some b \<Longrightarrow> set (declared (b_component b)) \<subseteq> dom (map_of (nodes R))"
  using assms unfolding wf_topology_def links_ok_def by blast+

text \<open>Nodes are added and linked.\<close>

lemma added_stage:
  fixes R :: "'cfg runtime"
  assumes wf: "wf_topology R" and ids: "distinct (map c_id adds)" "c_id ` set adds \<inter> dom (map_of (nodes R)) = {}"
    and add: "add_new_nodes prepare adds R = (None, R1)"
  defines "R2 \<equiv> configure_links_after_adding_new_nodes adds R1"
  shows "nodes_ok R2" "mirrored R2" "senders R2 = dom (map_of (bootstraps R2))"
    "map_of (nodes R) \<subseteq>\<^sub>m map_of (nodes R2)" "map_of (bootstraps R) \<subseteq>\<^sub>m map_of (bootstraps R2)"
    "dom (map_of (nodes R2)) = dom (map_of (nodes R)) \<union> c_id ` set adds"
    "\<forall>c \<in> set adds. \<exists>i b. map_of (nodes R2) (c_id c) = Some i \<and> map_of (bootstraps R) i = None
       \<and> map_of (bootstraps R2) i = Some b \<and> b_component b = c \<and> ins R2 i = set (resolve R2 (declared c))"
    "\<forall>i. i \<notin> (\<lambda>c. the (map_of (nodes R2) (c_id c))) ` set adds \<longrightarrow> ins R2 i = ins R i"
proof -
  note w = wf_topologyD [OF wf] and a = add_new_nodes_ok [OF add wf_topologyD(1) [OF wf] ids wf_topologyD(3) [OF wf]]
  have same: "ins R1 = ins R" "outs R1 = outs R" using a by (blast intro: ins_cong outs_cong)+
  have m1: "mirrored R1" using w(2) by (simp add: mirrored_def same)
  define P :: "'cfg runtime \<Rightarrow> bool" where "P = (\<lambda>Q. nodes Q = nodes R1 \<and> (\<forall>c \<in> set adds. ins Q (the (map_of (nodes R1) (c_id c))) \<subseteq> set (resolve R1 (declared c))))"
  have res: "resolve Q xs = resolve R1 xs" if "nodes Q = nodes R1" for Q :: "'cfg runtime" and xs
    using that by (simp add: resolve_def)
  have rel: "relinks link_added c Q" if "c \<in> set adds" "P Q" "mirrored Q" for c Q
    using that res [of Q] by (intro link_added_relinks) (auto simp: P_def)
  have keep: "P (link_added c Q)" if "c \<in> set adds" "P Q" "mirrored Q" for c Q
  proof -
    have r: "nodes (link_added c Q) = nodes Q" "ins (link_added c Q) = (ins Q)(the (map_of (nodes Q) (c_id c)) := set (resolve Q (declared c)))"
      using rel [OF that] by (simp_all add: relinks_def Let_def)
    have "c' = c" if c': "c' \<in> set adds" "the (map_of (nodes R1) (c_id c')) = the (map_of (nodes R1) (c_id c))" for c'
    proof -
      obtain k k' where "map_of (nodes R1) (c_id c) = Some k" "map_of (nodes R1) (c_id c') = Some k'"
        using a c'(1) \<open>c \<in> set adds\<close> by blast
      then have "c_id c' = c_id c" using c'(2) a nodes_inj by force
      then show ?thesis using ids(1) c'(1) \<open>c \<in> set adds\<close> by (simp add: distinct_map inj_on_def)
    qed
    then show ?thesis using that(2) res [of Q] unfolding P_def r by (auto simp: P_def)
  qed
  have start: "P R1" using a w(4) unfolding P_def same by force
  have dom: "c_id ` set adds \<subseteq> dom (map_of (nodes R1))" using a by blast
  have ok1: "nodes_ok R1" using a by blast
  note f = fold_relinks [of adds P link_added R1, OF rel keep start m1 ids(1) ok1 dom, folded configure_links_after_adding_new_nodes_def R2_def]
  have eq: "nodes R2 = nodes R1" "bootstraps R2 = bootstraps R1" "senders R2 = senders R1" "inc R2 = inc R1" using f by blast+
  show "nodes_ok R2" using ok1 unfolding nodes_ok_def eq .
  show "mirrored R2" using f by blast
  show "senders R2 = dom (map_of (bootstraps R2))" using a unfolding eq by blast
  show "map_of (nodes R) \<subseteq>\<^sub>m map_of (nodes R2)" "map_of (bootstraps R) \<subseteq>\<^sub>m map_of (bootstraps R2)"
    "dom (map_of (nodes R2)) = dom (map_of (nodes R)) \<union> c_id ` set adds" using a unfolding eq by blast+
  have res2: "resolve R2 xs = resolve R1 xs" for xs by (rule res) (rule eq(1))
  have new: "\<forall>c \<in> set adds. \<exists>i b. map_of (nodes R1) (c_id c) = Some i \<and> map_of (bootstraps R) i = None
       \<and> map_of (bootstraps R1) i = Some b \<and> b_component b = c"
    and lnk: "\<forall>c \<in> set adds. \<forall>j. map_of (nodes R1) (c_id c) = Some j \<longrightarrow> ins R2 j = set (resolve R1 (declared c))"
    using a f by blast+
  show "\<forall>c \<in> set adds. \<exists>i b. map_of (nodes R2) (c_id c) = Some i \<and> map_of (bootstraps R) i = None
       \<and> map_of (bootstraps R2) i = Some b \<and> b_component b = c \<and> ins R2 i = set (resolve R2 (declared c))"
    unfolding eq res2
  proof
    fix c assume c: "c \<in> set adds"
    then show "\<exists>i b. map_of (nodes R1) (c_id c) = Some i \<and> map_of (bootstraps R) i = None
       \<and> map_of (bootstraps R1) i = Some b \<and> b_component b = c \<and> ins R2 i = set (resolve R1 (declared c))"
      using bspec [OF new c] bspec [OF lnk c] by blast
  qed
  show "\<forall>i. i \<notin> (\<lambda>c. the (map_of (nodes R2) (c_id c))) ` set adds \<longrightarrow> ins R2 i = ins R i"
    using f unfolding eq same by blast
qed

text \<open>Nodes are changed and linked anew.\<close>

lemma changed_stage:
  fixes R :: "'cfg runtime"
  assumes ok: "nodes_ok R" "mirrored R" and ids: "distinct (map c_id diffs)"
    and upd: "update_changing_nodes diffs R = (None, R1)"
  defines "R2 \<equiv> configure_links_after_changing_nodes diffs R1"
  shows "nodes_ok R2" "mirrored R2" "nodes R2 = nodes R" "senders R2 = senders R"
    "dom (map_of (bootstraps R2)) = dom (map_of (bootstraps R))"
    "\<forall>c \<in> set diffs. \<exists>i b. map_of (nodes R) (c_id c) = Some i \<and> map_of (bootstraps R2) i = Some b
       \<and> b_component b = c \<and> ins R2 i = set (resolve R (declared c))"
    "\<forall>i. i \<notin> (\<lambda>c. the (map_of (nodes R) (c_id c))) ` set diffs \<longrightarrow>
       map_of (bootstraps R2) i = map_of (bootstraps R) i \<and> ins R2 i = ins R i"
proof -
  note u = update_changing_nodes_ok [OF upd ok(1) ids]
  have same: "ins R1 = ins R" "outs R1 = outs R" using u by (blast intro: ins_cong outs_cong)+
  have m1: "mirrored R1" using ok(2) by (simp add: mirrored_def same)
  have ok1: "nodes_ok R1" and n1: "nodes R1 = nodes R" using u by blast+
  have new: "\<forall>c \<in> set diffs. \<exists>i b. map_of (nodes R) (c_id c) = Some i \<and> map_of (bootstraps R1) i = Some b \<and> b_component b = c"
    using u by blast
  then have dom: "c_id ` set diffs \<subseteq> dom (map_of (nodes R1))" unfolding n1 by blast
  note f = fold_relinks [of diffs "\<lambda>_. True" link_changed R1, OF link_changed_relinks TrueI TrueI m1 ids ok1 dom,
      folded configure_links_after_changing_nodes_def R2_def]
  have eq: "nodes R2 = nodes R1" "bootstraps R2 = bootstraps R1" "senders R2 = senders R1" "inc R2 = inc R1" using f by blast+
  have lnk: "\<forall>c \<in> set diffs. \<forall>j. map_of (nodes R1) (c_id c) = Some j \<longrightarrow> ins R2 j = set (resolve R1 (declared c))"
    using f by blast
  have res: "resolve R1 xs = resolve R xs" for xs by (simp add: resolve_def n1)
  show "nodes_ok R2" using ok1 unfolding nodes_ok_def eq .
  show "mirrored R2" "nodes R2 = nodes R" "senders R2 = senders R" "dom (map_of (bootstraps R2)) = dom (map_of (bootstraps R))"
    using f u unfolding eq by blast+
  show "\<forall>c \<in> set diffs. \<exists>i b. map_of (nodes R) (c_id c) = Some i \<and> map_of (bootstraps R2) i = Some b
       \<and> b_component b = c \<and> ins R2 i = set (resolve R (declared c))"
  proof
    fix c assume c: "c \<in> set diffs"
    show "\<exists>i b. map_of (nodes R) (c_id c) = Some i \<and> map_of (bootstraps R2) i = Some b
       \<and> b_component b = c \<and> ins R2 i = set (resolve R (declared c))"
      using bspec [OF new c] bspec [OF lnk c] unfolding eq n1 res by blast
  qed
  have away: "map_of (nodes R) (c_id c) \<noteq> Some i"
    if "i \<notin> (\<lambda>c. the (map_of (nodes R) (c_id c))) ` set diffs" "c \<in> set diffs" for i c
    using that by force
  have "\<forall>i. (\<forall>c \<in> set diffs. map_of (nodes R) (c_id c) \<noteq> Some i) \<longrightarrow> map_of (bootstraps R1) i = map_of (bootstraps R) i"
    and "\<forall>j. j \<notin> (\<lambda>c. the (map_of (nodes R1) (c_id c))) ` set diffs \<longrightarrow> ins R2 j = ins R1 j" using u f by blast+
  then show "\<forall>i. i \<notin> (\<lambda>c. the (map_of (nodes R) (c_id c))) ` set diffs \<longrightarrow>
       map_of (bootstraps R2) i = map_of (bootstraps R) i \<and> ins R2 i = ins R i"
    using away unfolding eq n1 same by blast
qed

text \<open>Nodes are removed with their links. Nothing that stays reads them.\<close>

lemma removed_stage:
  fixes R :: "'cfg runtime"
  assumes ok: "nodes_ok R" "mirrored R" "senders R = dom (map_of (bootstraps R))"
    and rem: "remove_oudated_nodes dels R = (None, R1)"
    and stay: "\<And>j. j \<notin> set dels \<Longrightarrow> ins R j \<inter> set dels = {}"
  defines "R2 \<equiv> configure_links_after_remove_oudated_nodes dels R1"
  shows "nodes_ok R2" "mirrored R2" "senders R2 = dom (map_of (bootstraps R2))"
    "\<forall>i. map_of (bootstraps R2) i = (if i \<in> set dels then None else map_of (bootstraps R) i)"
    "\<forall>j. ins R2 j = (if j \<in> set dels then {} else ins R j)"
proof -
  note r = remove_oudated_nodes_ok [OF rem ok(1)]
  have same: "ins R1 = ins R" "outs R1 = outs R" using r by (blast intro: ins_cong outs_cong)+
  note f = fold_unlink_removed [of dels R1, folded configure_links_after_remove_oudated_nodes_def, folded R2_def, unfolded same]
  have eq: "nodes R2 = nodes R1" "bootstraps R2 = bootstraps R1" "inc R2 = inc R1" "senders R2 = senders R1 - set dels"
    and ins: "\<forall>j. ins R2 j = (if j \<in> set dels then {} else ins R j)"
    and outs: "\<forall>i. outs R2 i = (if i \<in> set dels then {} else outs R i - {d \<in> set dels. i \<in> ins R d})"
    using f by blast+
  have b: "\<forall>i. map_of (bootstraps R1) i = (if i \<in> set dels then None else map_of (bootstraps R) i)" using r by blast
  show "nodes_ok R2" using r unfolding nodes_ok_def eq by blast
  show "\<forall>i. map_of (bootstraps R2) i = (if i \<in> set dels then None else map_of (bootstraps R) i)" using b unfolding eq .
  show "\<forall>j. ins R2 j = (if j \<in> set dels then {} else ins R j)" by (rule ins)
  have "dom (map_of (bootstraps R1)) = dom (map_of (bootstraps R)) - set dels" using b by (auto simp: dom_def split: if_splits)
  moreover have "senders R1 = senders R" using r by blast
  ultimately show "senders R2 = dom (map_of (bootstraps R2))" using ok(3) unfolding eq by simp
  show "mirrored R2" unfolding mirrored_def
  proof (intro allI)
    fix i j
    have m: "j \<in> outs R i \<longleftrightarrow> i \<in> ins R j" using ok(2) by (simp add: mirrored_def)
    show "j \<in> outs R2 i \<longleftrightarrow> i \<in> ins R2 j"
      using m stay [of j] ins outs by (cases "i \<in> set dels"; cases "j \<in> set dels") auto
  qed
qed

section \<open>The graph before removal\<close>

text \<open>\<open>placed R4 dels c\<close>: in \<open>R4\<close>, the component \<open>c\<close> runs and is linked to what it declares, and
  reads nothing that goes away.\<close>

definition placed :: "'cfg runtime \<Rightarrow> nat list \<Rightarrow> 'cfg component \<Rightarrow> nat \<Rightarrow> bool" where
  "placed R dels c i \<longleftrightarrow>
     map_of (nodes R) (c_id c) = Some i \<and> (\<exists>b. map_of (bootstraps R) i = Some b \<and> b_component b = c)
     \<and> ins R i = set (resolve R (declared c)) \<and> set (declared c) \<subseteq> dom (map_of (nodes R)) \<and> ins R i \<inter> set dels = {}"

lemma old_index:
  assumes "nodes_ok R" "nodes_ok R2" "map_of (nodes R) \<subseteq>\<^sub>m map_of (nodes R2)"
    and "map_of (nodes R2) x = Some i" "map_of (bootstraps R) i = Some b"
  shows "map_of (nodes R) x = Some i"
proof -
  have y: "map_of (nodes R) (c_id (b_component b)) = Some i" using nodes_okD(5) [OF assms(1)] assms(5) by blast
  then have "map_of (nodes R2) (c_id (b_component b)) = Some i" using assms(3) unfolding map_le_def by (metis domI)
  then show ?thesis using nodes_inj [OF assms(2) assms(4)] y by simp
qed

lemma resolve_mono:
  assumes "map_of (nodes R) \<subseteq>\<^sub>m map_of (nodes R2)" "set xs \<subseteq> dom (map_of (nodes R))"
  shows "set (resolve R2 xs) = set (resolve R xs)"
proof -
  have "map_of (nodes R2) x = map_of (nodes R) x" if "x \<in> set xs" for x
    using assms that unfolding map_le_def by (metis subsetD)
  then show ?thesis by (auto simp: in_resolve)
qed

lemma same_component: "distinct (map c_id cs) \<Longrightarrow> c \<in> set cs \<Longrightarrow> c' \<in> set cs \<Longrightarrow> c_id c = c_id c' \<Longrightarrow> c = c'"
  by (simp add: distinct_map inj_on_def)

text \<open>What a successful reload has done before it removes nodes.\<close>

definition prepared ::
    "'cfg runtime \<Rightarrow> 'cfg component list \<Rightarrow> 'cfg component list \<Rightarrow> 'cfg component list \<Rightarrow> nat list
     \<Rightarrow> 'cfg runtime \<Rightarrow> 'cfg runtime \<Rightarrow> bool" where
  "prepared R cs adds diffs dels R2 R4 \<longleftrightarrow>
     wf_topology R \<and> distinct (map c_id cs) \<and> classify R cs (map fst (bootstraps R)) = Inr (adds, diffs, dels)
     \<and> validate R adds diffs dels = None
     \<and> (\<exists>prepare R1 R3. add_new_nodes prepare adds R = (None, R1) \<and> R2 = configure_links_after_adding_new_nodes adds R1
          \<and> update_changing_nodes diffs R2 = (None, R3) \<and> R4 = configure_links_after_changing_nodes diffs R3)"

lemma prepared_plan:
  assumes "prepared R cs adds diffs dels R2 R4"
  shows "set adds = {c \<in> set cs. map_of (nodes R) (c_id c) = None}" "distinct (map c_id adds)" "distinct (map c_id diffs)"
    "c_id ` set adds \<inter> dom (map_of (nodes R)) = {}"
    "c \<in> set diffs \<longleftrightarrow> c \<in> set cs \<and> (\<exists>i b. map_of (nodes R) (c_id c) = Some i \<and> map_of (bootstraps R) i = Some b \<and> b_component b \<noteq> c)"
    "d \<in> set dels \<longleftrightarrow> (\<exists>b. map_of (bootstraps R) d = Some b) \<and> (\<forall>c \<in> set cs. map_of (nodes R) (c_id c) \<noteq> Some d)"
proof -
  have "distinct (map c_id cs)" and cl: "classify R cs (map fst (bootstraps R)) = Inr (adds, diffs, dels)"
    using assms by (simp_all add: prepared_def)
  note c = classify_result [OF cl]
  show "set adds = {c \<in> set cs. map_of (nodes R) (c_id c) = None}" using c by simp
  then show "c_id ` set adds \<inter> dom (map_of (nodes R)) = {}" by auto
  show "distinct (map c_id adds)" "distinct (map c_id diffs)"
    using c distinct_map_filter [OF \<open>distinct (map c_id cs)\<close>] by (simp_all only: simp_thms)
  show "c \<in> set diffs \<longleftrightarrow> c \<in> set cs \<and> (\<exists>i b. map_of (nodes R) (c_id c) = Some i \<and> map_of (bootstraps R) i = Some b \<and> b_component b \<noteq> c)"
    using c by (auto split: option.splits)
  have "d \<in> set (map fst (bootstraps R)) \<longleftrightarrow> (\<exists>b. map_of (bootstraps R) d = Some b)"
    using dom_map_of_conv_image_fst [of "bootstraps R"] by (auto simp: dom_def)
  then show "d \<in> set dels \<longleftrightarrow> (\<exists>b. map_of (bootstraps R) d = Some b) \<and> (\<forall>c \<in> set cs. map_of (nodes R) (c_id c) \<noteq> Some d)"
    using c by simp
qed

lemma prepared_stages:
  assumes p: "prepared R cs adds diffs dels R2 R4"
  shows "nodes_ok R2" "map_of (nodes R) \<subseteq>\<^sub>m map_of (nodes R2)" "map_of (bootstraps R) \<subseteq>\<^sub>m map_of (bootstraps R2)"
    "dom (map_of (nodes R2)) = dom (map_of (nodes R)) \<union> c_id ` set adds"
    "c \<in> set adds \<Longrightarrow> \<exists>i b. map_of (nodes R2) (c_id c) = Some i \<and> map_of (bootstraps R) i = None
       \<and> map_of (bootstraps R2) i = Some b \<and> b_component b = c \<and> ins R2 i = set (resolve R2 (declared c))"
    "i \<notin> (\<lambda>c. the (map_of (nodes R2) (c_id c))) ` set adds \<Longrightarrow> ins R2 i = ins R i"
    "nodes_ok R4" "mirrored R4" "nodes R4 = nodes R2" "senders R4 = dom (map_of (bootstraps R4))"
    "dom (map_of (bootstraps R4)) = dom (map_of (bootstraps R2))"
    "c \<in> set diffs \<Longrightarrow> \<exists>i b. map_of (nodes R2) (c_id c) = Some i \<and> map_of (bootstraps R4) i = Some b
       \<and> b_component b = c \<and> ins R4 i = set (resolve R2 (declared c))"
    "i \<notin> (\<lambda>c. the (map_of (nodes R2) (c_id c))) ` set diffs \<Longrightarrow>
       map_of (bootstraps R4) i = map_of (bootstraps R2) i \<and> ins R4 i = ins R2 i"
proof -
  note pl = prepared_plan [OF p]
  obtain prepare R1 R3 where wf: "wf_topology R" and a: "add_new_nodes prepare adds R = (None, R1)"
    and R2: "R2 = configure_links_after_adding_new_nodes adds R1" and u: "update_changing_nodes diffs R2 = (None, R3)"
    and R4: "R4 = configure_links_after_changing_nodes diffs R3"
    using p unfolding prepared_def by blast
  note s2 = added_stage [OF wf pl(2,4) a, folded R2]
  note s4 = changed_stage [OF s2(1,2) pl(3) u, folded R4]
  show "nodes_ok R2" "map_of (nodes R) \<subseteq>\<^sub>m map_of (nodes R2)" "map_of (bootstraps R) \<subseteq>\<^sub>m map_of (bootstraps R2)"
    "dom (map_of (nodes R2)) = dom (map_of (nodes R)) \<union> c_id ` set adds" "nodes_ok R4" "mirrored R4" "nodes R4 = nodes R2"
    "dom (map_of (bootstraps R4)) = dom (map_of (bootstraps R2))" by (fact s2 s4)+
  show "senders R4 = dom (map_of (bootstraps R4))" using s2(3) s4(4,5) by simp
  show "\<exists>i b. map_of (nodes R2) (c_id c) = Some i \<and> map_of (bootstraps R) i = None
       \<and> map_of (bootstraps R2) i = Some b \<and> b_component b = c \<and> ins R2 i = set (resolve R2 (declared c))" if "c \<in> set adds"
    using bspec [OF s2(7) that] .
  show "ins R2 i = ins R i" if "i \<notin> (\<lambda>c. the (map_of (nodes R2) (c_id c))) ` set adds" using s2(8) that by blast
  show "\<exists>i b. map_of (nodes R2) (c_id c) = Some i \<and> map_of (bootstraps R4) i = Some b
       \<and> b_component b = c \<and> ins R4 i = set (resolve R2 (declared c))" if "c \<in> set diffs" using bspec [OF s4(6) that] .
  show "map_of (bootstraps R4) i = map_of (bootstraps R2) i \<and> ins R4 i = ins R2 i"
    if "i \<notin> (\<lambda>c. the (map_of (nodes R2) (c_id c))) ` set diffs" using s4(7) that by blast
qed

text \<open>Components are told apart by their index.\<close>

lemma index_component:
  assumes p: "prepared R cs adds diffs dels R2 R4" and c: "c \<in> set cs" "map_of (nodes R2) (c_id c) = Some i"
    and c': "c' \<in> set cs" "c_id c' \<in> dom (map_of (nodes R2))" "the (map_of (nodes R2) (c_id c')) = i"
  shows "c' = c"
proof -
  have "map_of (nodes R2) (c_id c') = Some i" using c'(2,3) by auto
  then have "c_id c' = c_id c" using nodes_inj [OF prepared_stages(1) [OF p]] c(2) by blast
  then show ?thesis using same_component c(1) c'(1) p unfolding prepared_def by blast
qed

lemma component_listed:
  assumes p: "prepared R cs adds diffs dels R2 R4"
  shows "c \<in> set adds \<Longrightarrow> c \<in> set cs \<and> c_id c \<in> dom (map_of (nodes R2))"
    and "c \<in> set diffs \<Longrightarrow> c \<in> set cs \<and> c_id c \<in> dom (map_of (nodes R2))"
proof -
  note pl = prepared_plan [OF p] and st = prepared_stages [OF p]
  show "c \<in> set cs \<and> c_id c \<in> dom (map_of (nodes R2))" if "c \<in> set adds" using that pl(1) st(4) by blast
  show "c \<in> set cs \<and> c_id c \<in> dom (map_of (nodes R2))" if "c \<in> set diffs"
  proof -
    have "c \<in> set cs" "c_id c \<in> dom (map_of (nodes R))" using pl(5) [of c] that by blast+
    then show ?thesis using st(4) by blast
  qed
qed

lemma add_placed:
  assumes p: "prepared R cs adds diffs dels R2 R4" and c: "c \<in> set adds"
  shows "\<exists>i. placed R4 dels c i \<and> i \<notin> set dels"
proof -
  note pl = prepared_plan [OF p] and st = prepared_stages [OF p]
  have wf: "wf_topology R" and v: "validate R adds diffs dels = None" using p by (simp_all add: prepared_def)
  note vf = validate_facts [OF v]
  obtain i b where i: "map_of (nodes R2) (c_id c) = Some i" "map_of (bootstraps R) i = None" "map_of (bootstraps R2) i = Some b"
    "b_component b = c" "ins R2 i = set (resolve R2 (declared c))" using st(5) [OF c] by blast
  have cs: "c \<in> set cs" using component_listed(1) [OF p c] by blast
  have nd: "i \<notin> set dels" using pl(6) [of i] i(2) by simp
  have "i \<notin> (\<lambda>c. the (map_of (nodes R2) (c_id c))) ` set diffs"
  proof
    assume "i \<in> (\<lambda>c. the (map_of (nodes R2) (c_id c))) ` set diffs"
    then obtain c' where c': "c' \<in> set diffs" "the (map_of (nodes R2) (c_id c')) = i" by blast
    then have "c' = c" using index_component [OF p cs i(1)] component_listed(2) [OF p c'(1)] by blast
    then show False using pl(5) [of c] c'(1) pl(1) c by auto
  qed
  then have keep: "map_of (bootstraps R4) i = Some b" "ins R4 i = set (resolve R4 (declared c))"
    using st(13) i(3,5) by (simp_all add: resolve_def st(9))
  have dom: "set (declared c) \<subseteq> dom (map_of (nodes R4))" using vf(1) [OF c] st(4,9) by simp
  have "ins R4 i \<inter> set dels = {}"
  proof (rule ccontr)
    assume "ins R4 i \<inter> set dels \<noteq> {}"
    then obtain d x where d: "d \<in> set dels" "x \<in> set (declared c)" "map_of (nodes R2) x = Some d"
      using keep(2) by (auto simp: in_resolve st(9))
    then obtain b' where "map_of (bootstraps R) d = Some b'" using pl(6) by blast
    then have "map_of (nodes R) x = Some d" using old_index [OF wf_topologyD(1) [OF wf] st(1,2) d(3)] by blast
    then show False using vf(3) [OF d(1) c] d(2) by (auto simp: in_resolve)
  qed
  then show ?thesis using i keep dom nd st(9) unfolding placed_def by auto
qed

lemma diff_placed:
  assumes p: "prepared R cs adds diffs dels R2 R4" and c: "c \<in> set diffs" and closed: "set (declared c) \<subseteq> c_id ` set cs"
  shows "\<exists>i. placed R4 dels c i \<and> i \<notin> set dels"
proof -
  note pl = prepared_plan [OF p] and st = prepared_stages [OF p]
  have wf: "wf_topology R" and v: "validate R adds diffs dels = None" using p by (simp_all add: prepared_def)
  obtain i b where i: "map_of (nodes R2) (c_id c) = Some i" "map_of (bootstraps R4) i = Some b"
    "b_component b = c" "ins R4 i = set (resolve R2 (declared c))" using st(12) [OF c] by blast
  obtain i' where "map_of (nodes R) (c_id c) = Some i'" "c \<in> set cs" using pl(5) [of c] c by blast
  moreover have "i' = i" using calculation i(1) st(2) unfolding map_le_def by (metis domI option.inject)
  ultimately have nd: "i \<notin> set dels" using pl(6) [of i] by blast
  have dom: "set (declared c) \<subseteq> dom (map_of (nodes R4))" using validate_facts(2) [OF v c] st(4,9) by simp
  have "ins R4 i \<inter> set dels = {}"
  proof (rule ccontr)
    assume "ins R4 i \<inter> set dels \<noteq> {}"
    then obtain d x where d: "d \<in> set dels" "x \<in> set (declared c)" "map_of (nodes R2) x = Some d"
      using i(4) by (auto simp: in_resolve)
    then obtain b' where "map_of (bootstraps R) d = Some b'" using pl(6) by blast
    then have "map_of (nodes R) x = Some d" using old_index [OF wf_topologyD(1) [OF wf] st(1,2) d(3)] by blast
    moreover obtain c' where "c' \<in> set cs" "c_id c' = x" using closed d(2) by blast
    ultimately show False using pl(6) [of d] d(1) by blast
  qed
  then show ?thesis using i dom nd st(9) unfolding placed_def by (auto simp: resolve_def)
qed

lemma same_placed:
  assumes p: "prepared R cs adds diffs dels R2 R4" and c: "c \<in> set cs" "c \<notin> set adds" "c \<notin> set diffs"
  shows "\<exists>i. placed R4 dels c i \<and> i \<notin> set dels"
proof -
  note pl = prepared_plan [OF p] and st = prepared_stages [OF p]
  have wf: "wf_topology R" and v: "validate R adds diffs dels = None" using p by (simp_all add: prepared_def)
  note w = wf_topologyD [OF wf]
  have "map_of (nodes R) (c_id c) \<noteq> None" using c(1,2) unfolding pl(1) by simp
  then obtain i where i: "map_of (nodes R) (c_id c) = Some i" by blast
  obtain b where b: "map_of (bootstraps R) i = Some b" using nodes_okD(5) [OF w(1), of "c_id c" i] i by blast
  have bc: "b_component b = c" using pl(5) [of c] c i b by blast
  have i2: "map_of (nodes R2) (c_id c) = Some i" "map_of (bootstraps R2) i = Some b"
    using st(2,3) i b unfolding map_le_def by (metis domI)+
  have other: "i \<notin> (\<lambda>c. the (map_of (nodes R2) (c_id c))) ` X"
    if X: "\<And>c'. c' \<in> X \<Longrightarrow> c' \<in> set cs \<and> c_id c' \<in> dom (map_of (nodes R2))" "c \<notin> X" for X
    using index_component [OF p c(1) i2(1)] X by blast
  have nd: "i \<notin> set dels" using pl(6) [of i] i c(1) by blast
  have keep: "map_of (bootstraps R4) i = Some b" "ins R4 i = ins R i"
    using st(6) [OF other [of "set adds"]] st(13) [OF other [of "set diffs"]] component_listed [OF p] c i2(2) by auto
  have dcl: "set (declared c) \<subseteq> dom (map_of (nodes R))" using w(6) [OF b] bc by simp
  have res: "ins R4 i = set (resolve R4 (declared c))"
    using keep(2) w(5) [OF b] bc resolve_mono [of R R4, OF _ dcl] st(2,9) by simp
  have "ins R4 i \<inter> set dels = {}"
  proof (rule ccontr)
    assume "ins R4 i \<inter> set dels \<noteq> {}"
    then obtain d where d: "d \<in> set dels" "d \<in> ins R i" using keep(2) by blast
    then have "i \<in> outs R d" using w(2) by (simp add: mirrored_def)
    then obtain c' where c': "c' \<in> set diffs" "the (map_of (nodes R) (c_id c')) = i"
      using validate_facts(4) [OF v d(1)] nd by blast
    then obtain i' where "map_of (nodes R) (c_id c') = Some i'" "c' \<in> set cs" using pl(5) [of c'] by blast
    then have "c_id c' = c_id c" using c'(2) nodes_inj [OF w(1)] i by simp
    then have "c' = c" using same_component [of cs] c(1) \<open>c' \<in> set cs\<close> p unfolding prepared_def by blast
    then show False using c'(1) c(3) by simp
  qed
  then show ?thesis using i2(1) keep(1) bc res dcl st(4,9) nd unfolding placed_def by auto
qed

section \<open>The result of a reload\<close>

lemma all_placed:
  assumes p: "prepared R cs adds diffs dels R2 R4" and closed: "\<forall>c \<in> set diffs. set (declared c) \<subseteq> c_id ` set cs"
    and c: "c \<in> set cs"
  shows "\<exists>i. placed R4 dels c i \<and> i \<notin> set dels"
  using add_placed [OF p] diff_placed [OF p] same_placed [OF p c] closed by blast

text \<open>A node that stays belongs to a component of the list.\<close>

lemma node_listed:
  assumes p: "prepared R cs adds diffs dels R2 R4" and i: "map_of (bootstraps R4) i = Some b" "i \<notin> set dels"
  shows "\<exists>c \<in> set cs. map_of (nodes R4) (c_id c) = Some i"
proof -
  note pl = prepared_plan [OF p] and st = prepared_stages [OF p]
  let ?x = "c_id (b_component b)"
  have x: "map_of (nodes R4) ?x = Some i" using nodes_okD(5) [OF st(7)] i(1) by blast
  then have "?x \<in> dom (map_of (nodes R)) \<or> ?x \<in> c_id ` set adds" using st(4,9) by auto
  then show ?thesis
  proof
    assume "?x \<in> c_id ` set adds"
    then show ?thesis using x component_listed(1) [OF p] by auto
  next
    assume "?x \<in> dom (map_of (nodes R))"
    then have old: "map_of (nodes R) ?x = Some i" using x st(2,9) unfolding map_le_def by (metis domIff not_None_eq)
    have wf: "wf_topology R" using p by (simp add: prepared_def)
    have "\<exists>b. map_of (bootstraps R) i = Some b" using nodes_okD(5) [OF wf_topologyD(1) [OF wf]] old by blast
    then obtain c where c: "c \<in> set cs" "map_of (nodes R) (c_id c) = Some i" using pl(6) [of i] i(2) by blast
    then have "map_of (nodes R2) (c_id c) = Some i" using st(2) unfolding map_le_def by (metis domI)
    then show ?thesis using c(1) st(9) by auto
  qed
qed

lemma unlisted_unlinked:
  assumes p: "prepared R cs adds diffs dels R2 R4" and i: "map_of (bootstraps R4) i = None"
  shows "ins R4 i = {}"
proof -
  note st = prepared_stages [OF p]
  have none: "map_of (bootstraps R2) i = None" using i st(11) by (metis domIff)
  have "map_of (bootstraps R) i = None" using none st(3) unfolding map_le_def by (metis domIff)
  then have "ins R i = {}" using p wf_topologyD(4) unfolding prepared_def by blast
  have away: "i \<notin> (\<lambda>c. the (map_of (nodes R2) (c_id c))) ` X"
    if X: "\<And>c. c \<in> X \<Longrightarrow> c_id c \<in> dom (map_of (nodes R2))" for X
  proof
    assume "i \<in> (\<lambda>c. the (map_of (nodes R2) (c_id c))) ` X"
    then obtain c where "c \<in> X" "the (map_of (nodes R2) (c_id c)) = i" by blast
    then have "map_of (nodes R2) (c_id c) = Some i" using X [of c] by auto
    then show False using nodes_okD(5) [OF st(1)] none by simp
  qed
  have "ins R2 i = ins R i" by (rule st(6), rule away) (use component_listed(1) [OF p] in blast)
  moreover have "map_of (bootstraps R4) i = map_of (bootstraps R2) i \<and> ins R4 i = ins R2 i"
    by (rule st(13), rule away) (use component_listed(2) [OF p] in blast)
  ultimately show ?thesis using \<open>ins R i = {}\<close> by simp
qed

lemma prepared_stay:
  assumes p: "prepared R cs adds diffs dels R2 R4" and closed: "\<forall>c \<in> set diffs. set (declared c) \<subseteq> c_id ` set cs"
    and j: "j \<notin> set dels"
  shows "ins R4 j \<inter> set dels = {}"
proof (cases "map_of (bootstraps R4) j")
  case None
  then show ?thesis using unlisted_unlinked [OF p] by simp
next
  case (Some b)
  then obtain c where c: "c \<in> set cs" "map_of (nodes R4) (c_id c) = Some j" using node_listed [OF p _ j] by blast
  obtain i where i: "placed R4 dels c i" using all_placed [OF p closed c(1)] by blast
  then have "i = j" using c(2) by (simp add: placed_def)
  then show ?thesis using i unfolding placed_def by blast
qed

text \<open>The node tables after removal.\<close>

lemma finish_reload:
  assumes p: "prepared R cs adds diffs dels R2 R4" and closed: "\<forall>c \<in> set diffs. set (declared c) \<subseteq> c_id ` set cs"
    and rem: "remove_oudated_nodes dels R4 = (None, R5)"
  defines "R6 \<equiv> configure_links_after_remove_oudated_nodes dels R5"
  shows "wf_topology R6"
    and "\<forall>c \<in> set cs. \<exists>i b. map_of (nodes R6) (c_id c) = Some i \<and> map_of (bootstraps R6) i = Some b \<and> b_component b = c"
    and "dom (map_of (nodes R6)) = c_id ` set cs"
proof -
  note st = prepared_stages [OF p]
  note r = removed_stage [OF st(7,8,10) rem prepared_stay [OF p closed], folded R6_def]
  have b6: "map_of (bootstraps R6) i = (if i \<in> set dels then None else map_of (bootstraps R4) i)" for i using r(4) by blast
  have i6: "ins R6 j = (if j \<in> set dels then {} else ins R4 j)" for j using r(5) by blast
  have n6: "map_of (nodes R6) x = Some i \<longleftrightarrow> i \<notin> set dels \<and> map_of (nodes R4) x = Some i" for x i
    using nodes_okD(5) [OF r(1), of x i] nodes_okD(5) [OF st(7), of x i] b6 [of i] by simp
  have run: "\<exists>b. map_of (bootstraps R6) i = Some b \<and> b_component b = c \<and> map_of (nodes R6) (c_id c) = Some i
      \<and> ins R6 i = set (resolve R6 (declared c)) \<and> set (declared c) \<subseteq> dom (map_of (nodes R6))"
    if c: "placed R4 dels c i" "i \<notin> set dels" for c i
  proof -
    have a: "map_of (nodes R4) (c_id c) = Some i" "ins R4 i = set (resolve R4 (declared c))"
      "set (declared c) \<subseteq> dom (map_of (nodes R4))" "ins R4 i \<inter> set dels = {}"
      and "\<exists>b. map_of (bootstraps R4) i = Some b \<and> b_component b = c" using c(1) unfolding placed_def by blast+
    have keep: "map_of (nodes R6) x = map_of (nodes R4) x" if x: "x \<in> set (declared c)" for x
    proof -
      obtain d where d: "map_of (nodes R4) x = Some d" using a(3) x by blast
      then have "d \<notin> set dels" using a(2,4) x by (auto simp: in_resolve)
      then show ?thesis using n6 [of x d] d by simp
    qed
    then have "set (resolve R6 (declared c)) = set (resolve R4 (declared c))" by (auto simp: in_resolve)
    moreover have "set (declared c) \<subseteq> dom (map_of (nodes R6))" using a(3) keep by auto
    ultimately show ?thesis
      using a(1,2) c(2) b6 [of i] i6 [of i] n6 [of "c_id c" i] \<open>\<exists>b. map_of (bootstraps R4) i = Some b \<and> b_component b = c\<close> by simp
  qed
  show listed: "\<forall>c \<in> set cs. \<exists>i b. map_of (nodes R6) (c_id c) = Some i \<and> map_of (bootstraps R6) i = Some b \<and> b_component b = c"
    using all_placed [OF p closed] run by blast
  have owner: "\<exists>c \<in> set cs. placed R4 dels c i \<and> i \<notin> set dels" if b: "map_of (bootstraps R6) i = Some b" for i b
  proof -
    have i: "map_of (bootstraps R4) i = Some b" "i \<notin> set dels" using b b6 [of i] by (simp_all split: if_splits)
    then obtain c where c: "c \<in> set cs" "map_of (nodes R4) (c_id c) = Some i" using node_listed [OF p] by blast
    then show ?thesis using all_placed [OF p closed c(1)] unfolding placed_def by auto
  qed
  have "ins R6 i = set (resolve R6 (declared (b_component b))) \<and> set (declared (b_component b)) \<subseteq> dom (map_of (nodes R6))"
    if "map_of (bootstraps R6) i = Some b" for i b
    using owner [OF that] run that by fastforce
  moreover have "ins R6 i = {}" if "map_of (bootstraps R6) i = None" for i
    using that unlisted_unlinked [OF p, of i] b6 [of i] i6 [of i] by (simp split: if_splits)
  ultimately show "wf_topology R6" using r(1,2,3) unfolding wf_topology_def links_ok_def by (auto simp: domIff)
  show "dom (map_of (nodes R6)) = c_id ` set cs"
  proof (intro equalityI subsetI)
    fix x assume "x \<in> dom (map_of (nodes R6))"
    then obtain i b where "map_of (bootstraps R6) i = Some b" "map_of (nodes R6) x = Some i"
      using nodes_okD(5) [OF r(1), of x] by blast
    then show "x \<in> c_id ` set cs" using owner run nodes_inj [OF r(1)] by blast
  qed (use listed in auto)
qed

section \<open>Cycles\<close>

lemma find_SomeD: "find P xs = Some x \<Longrightarrow> x \<in> set xs \<and> P x"
  by (induction xs) (auto split: if_splits)

lemma map_of_fold_update:
  assumes "distinct (map c_id cs)"
  shows "map_of (fold (\<lambda>c. AList.update (c_id c) (f c)) cs m) x =
    (case find (\<lambda>c. c_id c = x) cs of None \<Rightarrow> map_of m x | Some c \<Rightarrow> Some (f c))"
  using assms
proof (induction cs arbitrary: m)
  case (Cons c cs)
  have "c_id c \<notin> c_id ` set cs" using Cons.prems by simp
  then have "find (\<lambda>d. c_id d = c_id c) cs = None" unfolding find_None_iff by (metis image_eqI)
  then show ?case using Cons by (auto simp: update_conv' split: option.splits)
qed simp

lemma planned_succs:
  assumes p: "prepared R cs adds diffs dels R2 R4" and c: "c \<in> set cs"
  shows "set (declared c) \<subseteq> set (succs (planned_edges R adds diffs dels) (c_id c))"
proof -
  note pl = prepared_plan [OF p]
  have wf: "wf_topology R" and ids: "distinct (map c_id cs)" using p by (simp_all add: prepared_def)
  let ?base = "map (\<lambda>(x, i). (x, names R (linked (sources R) i))) (filter (\<lambda>(_, i). i \<notin> set dels) (nodes R))"
  have sub: "set (adds @ diffs) \<subseteq> set cs" "distinct (map c_id (adds @ diffs))"
  proof -
    show s: "set (adds @ diffs) \<subseteq> set cs" using pl(1,5) by auto
    have "c_id a \<noteq> c_id d" if "a \<in> set adds" "d \<in> set diffs" for a d using that pl(1) pl(5) [of d] by fastforce
    then show "distinct (map c_id (adds @ diffs))" using pl(2,3) by auto
  qed
  note look = map_of_fold_update [OF sub(2), of declared ?base "c_id c", folded planned_edges_def]
  show ?thesis
  proof (cases "find (\<lambda>d. c_id d = c_id c) (adds @ diffs)")
    case (Some d)
    then have "d \<in> set cs" "c_id d = c_id c" using sub(1) find_SomeD [OF Some] by auto
    then have "d = c" using same_component [OF ids] c by blast
    then show ?thesis using look Some by (simp add: succs_def)
  next
    case None
    then have nc: "c \<notin> set adds" "c \<notin> set diffs" by (auto simp: find_None_iff)
    note w = wf_topologyD [OF wf]
    obtain i where i: "map_of (nodes R) (c_id c) = Some i" using nc(1) c pl(1) by (cases "map_of (nodes R) (c_id c)") auto
    obtain b where b: "map_of (bootstraps R) i = Some b" using nodes_okD(5) [OF w(1), of "c_id c" i] i by blast
    have bc: "b_component b = c" using pl(5) [of c] c i b nc(2) by blast
    have "i \<notin> set dels" using pl(6) [of i] i c by blast
    then have "(c_id c, names R (linked (sources R) i)) \<in> set ?base" using map_of_SomeD [OF i] by force
    moreover have "distinct (map fst ?base)"
    proof -
      have "map fst ?base = map fst (filter (\<lambda>(_, i). i \<notin> set dels) (nodes R))" by (simp add: case_prod_unfold comp_def)
      then show ?thesis using distinct_map_filter [OF nodes_okD(1) [OF w(1)]] by (simp only:)
    qed
    ultimately have "map_of ?base (c_id c) = Some (names R (linked (sources R) i))" by simp
    then have succ: "succs (planned_edges R adds diffs dels) (c_id c) = names R (linked (sources R) i)"
      using look None by (simp add: succs_def)
    show ?thesis
    proof
      fix x assume x: "x \<in> set (declared c)"
      then obtain j where j: "map_of (nodes R) x = Some j" using w(6) [OF b] bc by blast
      then have "j \<in> ins R i" using w(5) [OF b] bc x by (auto simp: in_resolve)
      moreover have "map_of (map prod.swap (nodes R)) j = Some x"
        using map_of_SomeD [OF j] nodes_okD(2) [OF w(1)] by (intro map_of_is_SomeI) (force simp: comp_def)+
      ultimately show "x \<in> set (succs (planned_edges R adds diffs dels) (c_id c))"
        unfolding succ names_def ins_def by (force simp: map_filter_def)
    qed
  qed
qed

section \<open>Properties\<close>

definition changed :: "'cfg runtime \<Rightarrow> 'cfg component \<Rightarrow> bool" where
  "changed R c = (case map_of (nodes R) (c_id c) of None \<Rightarrow> False
     | Some i \<Rightarrow> (case map_of (bootstraps R) i of None \<Rightarrow> False | Some b \<Rightarrow> b_component b \<noteq> c))"

lemma reload_success:
  assumes "reload prepare cs R = (None, R')" "wf_topology R" "distinct (map c_id cs)"
  obtains adds diffs dels R2 R4 R5 where "prepared R cs adds diffs dels R2 R4"
    "remove_oudated_nodes dels R4 = (None, R5)" "adds = filter (\<lambda>c. map_of (nodes R) (c_id c) = None) cs"
    "diffs = filter (changed R) cs"
    "nodes R' = nodes (configure_links_after_remove_oudated_nodes dels R5)"
    "bootstraps R' = bootstraps (configure_links_after_remove_oudated_nodes dels R5)"
    "sources R' = sources (configure_links_after_remove_oudated_nodes dels R5)"
    "sinks R' = sinks (configure_links_after_remove_oudated_nodes dels R5)"
    "senders R' = senders (configure_links_after_remove_oudated_nodes dels R5)"
    "inc R' = inc (configure_links_after_remove_oudated_nodes dels R5)"
proof -
  obtain adds diffs dels where cl: "classify R cs (map fst (bootstraps R)) = Inr (adds, diffs, dels)"
    using assms(1) by (auto simp: reload_def split: sum.splits prod.splits)
  have v: "validate R adds diffs dels = None"
    using assms(1) by (auto simp: reload_def cl split: option.splits)
  obtain R1 where a: "add_new_nodes prepare adds R = (None, R1)"
    using assms(1) by (auto simp: reload_def cl v split: prod.splits option.splits)
  obtain R3 where u: "update_changing_nodes diffs (configure_links_after_adding_new_nodes adds R1) = (None, R3)"
    using assms(1) by (auto simp: reload_def cl v a split: prod.splits option.splits)
  obtain R5 where r: "remove_oudated_nodes dels (configure_links_after_changing_nodes diffs R3) = (None, R5)"
    using assms(1) by (auto simp: reload_def cl v a u split: prod.splits option.splits)
  have p: "prepared R cs adds diffs dels (configure_links_after_adding_new_nodes adds R1) (configure_links_after_changing_nodes diffs R3)"
    using assms(2,3) cl v a u unfolding prepared_def by blast
  have ad: "adds = filter (\<lambda>c. map_of (nodes R) (c_id c) = None) cs" "diffs = filter (changed R) cs"
    using classify_result [OF cl] unfolding changed_def [abs_def] by blast+
  let ?R = "configure_links_after_remove_oudated_nodes dels R5"
  have "R' = ?R\<lparr>boot := (if is_started ?R then boot ?R + length (bootstraps ?R) else boot ?R), generation := generation ?R + 1\<rparr>"
    using assms(1) by (simp add: reload_def cl v a u r Let_def)
  then show ?thesis by (intro that [OF p r ad]) simp_all
qed

lemma reload_wf:
  assumes "wf_topology R" and "distinct (map c_id cs)" and "reload prepare cs R = (None, R')"
    and "\<forall>c \<in> set cs. changed R c \<longrightarrow> set (declared c) \<subseteq> c_id ` set cs"
  shows "wf_topology R'" and "dom (map_of (nodes R')) = c_id ` set cs"
    and "\<forall>c \<in> set cs. \<exists>i b. map_of (nodes R') (c_id c) = Some i \<and> map_of (bootstraps R') i = Some b \<and> b_component b = c"
    and "acyclic {(c_id c, x) | c x. c \<in> set cs \<and> x \<in> set (declared c)}"
proof -
  obtain adds diffs dels R2 R4 R5 where p: "prepared R cs adds diffs dels R2 R4"
    and r: "remove_oudated_nodes dels R4 = (None, R5)" and d: "diffs = filter (changed R) cs"
    and eq: "nodes R' = nodes (configure_links_after_remove_oudated_nodes dels R5)"
    "bootstraps R' = bootstraps (configure_links_after_remove_oudated_nodes dels R5)"
    "sources R' = sources (configure_links_after_remove_oudated_nodes dels R5)"
    "sinks R' = sinks (configure_links_after_remove_oudated_nodes dels R5)"
    "senders R' = senders (configure_links_after_remove_oudated_nodes dels R5)"
    "inc R' = inc (configure_links_after_remove_oudated_nodes dels R5)"
    by (rule reload_success [OF assms(3,1,2)])
  have closed: "\<forall>c \<in> set diffs. set (declared c) \<subseteq> c_id ` set cs" using assms(4) d by auto
  note fin = finish_reload [OF p closed r]
  have res: "resolve R' xs = resolve (configure_links_after_remove_oudated_nodes dels R5) xs" for xs
    by (simp add: resolve_def eq(1))
  show "wf_topology R'"
    using fin(1) ins_cong [OF eq(3)] outs_cong [OF eq(4)]
    unfolding wf_topology_def nodes_ok_def links_ok_def mirrored_def eq res by simp
  show "dom (map_of (nodes R')) = c_id ` set cs"
    and "\<forall>c \<in> set cs. \<exists>i b. map_of (nodes R') (c_id c) = Some i \<and> map_of (bootstraps R') i = Some b \<and> b_component b = c"
    using fin(2,3) unfolding eq by blast+
  show "acyclic {(c_id c, x) | c x. c \<in> set cs \<and> x \<in> set (declared c)}"
  proof (rule acyclic_subset)
    show "acyclic (edge (planned_edges R adds diffs dels))"
      using p validate_facts(5) unfolding prepared_def by blast
    show "{(c_id c, x) | c x. c \<in> set cs \<and> x \<in> set (declared c)} \<subseteq> edge (planned_edges R adds diffs dels)"
      using planned_succs [OF p] by (auto simp: edge_def)
  qed
qed

text \<open>C2: A reload that succeeds installs exactly the components it was given: the node table lists
  their names and no others, each runs the given component, its links are the inputs it declares
  (mirrored in the table of receivers, with a channel for every node), and the declared graph has
  no cycle; the invariant is kept. The components that changed must read components of the list.\<close>

theorem reload_installs:
  assumes "wf_topology R" and "distinct (map c_id cs)" and "reload prepare cs R = (None, R')"
    and "\<forall>c \<in> set cs. changed R c \<longrightarrow> set (declared c) \<subseteq> c_id ` set cs"
  shows "wf_topology R' \<and> dom (map_of (nodes R')) = c_id ` set cs
    \<and> (\<forall>c \<in> set cs. \<exists>i b. map_of (nodes R') (c_id c) = Some i \<and> map_of (bootstraps R') i = Some b
         \<and> b_component b = c \<and> ins R' i = set (resolve R' (declared c)))
    \<and> acyclic {(c_id c, x) | c x. c \<in> set cs \<and> x \<in> set (declared c)}"
proof -
  note r = reload_wf [OF assms]
  have "\<forall>c \<in> set cs. \<exists>i b. map_of (nodes R') (c_id c) = Some i \<and> map_of (bootstraps R') i = Some b
         \<and> b_component b = c \<and> ins R' i = set (resolve R' (declared c))"
  proof
    fix c assume "c \<in> set cs"
    then obtain i b where "map_of (nodes R') (c_id c) = Some i" "map_of (bootstraps R') i = Some b" "b_component b = c"
      using r(3) by blast
    then show "\<exists>i b. map_of (nodes R') (c_id c) = Some i \<and> map_of (bootstraps R') i = Some b
         \<and> b_component b = c \<and> ins R' i = set (resolve R' (declared c))" using wf_topologyD(5) [OF r(1)] by blast
  qed
  then show ?thesis using r(1,2,4) by blast
qed

lemma wf_runtime_new: "wf_topology runtime_new"
  by (simp add: wf_topology_def nodes_ok_def links_ok_def mirrored_def ins_def outs_def linked_def runtime_new_def)

text \<open>A source, and a sink that reads the named nodes, for the examples.\<close>

definition a_source :: "string \<Rightarrow> nat component" where
  "a_source x = \<lparr>c_id = x, get_inputs = None, c_type = Source, is_terminal = True, c_config = 0\<rparr>"

definition a_sink :: "string \<Rightarrow> string list \<Rightarrow> nat component" where
  "a_sink x xs = \<lparr>c_id = x, get_inputs = Some xs, c_type = Sink, is_terminal = False, c_config = 0\<rparr>"

lemmas engine_eval = reload_def validate_def and_then_def validate_if_adding_new_nodes_def validate_if_changing_nodes_def
  validate_if_remove_outdated_nodes_def validate_no_cycles_def planned_edges_def find_cycle_def graph_size_def succs_def
  will_add_def check_added_def check_removed_def will_change_input_def resolve_def map_filter_def declared_def enlist_node_def
  or_insert_def bootstrap_new_def configure_links_after_adding_new_nodes_def link_added_def link_def linked_def push_new_def
  configure_links_after_changing_nodes_def link_changed_def unlink_def bootstrap_reload_def bootstrap_stop_def
  configure_links_after_remove_oudated_nodes_def unlink_removed_def names_def node_name_def runtime_new_def a_source_def a_sink_def
  Let_def loop_from_def numeral_eq_Suc

text \<open>Witness of C2: a source and a sink, on the empty runtime.\<close>

theorem reload_installs_witness:
  "dom (map_of (nodes (snd (reload (\<lambda>_. None) [a_source ''a'', a_sink ''b'' [''a'']] runtime_new)))) = {''a'', ''b''}"
proof -
  let ?cs = "[a_source ''a'', a_sink ''b'' [''a'']]"
  have "fst (reload (\<lambda>_. None) ?cs runtime_new) = None" by (simp add: engine_eval)
  then have run: "reload (\<lambda>_. None) ?cs runtime_new = (None, snd (reload (\<lambda>_. None) ?cs runtime_new))"
    by (metis prod.collapse)
  have "distinct (map c_id ?cs)" "\<forall>c \<in> set ?cs. changed runtime_new c \<longrightarrow> set (declared c) \<subseteq> c_id ` set ?cs"
    by (simp_all add: a_source_def a_sink_def changed_def runtime_new_def)
  from reload_installs [OF wf_runtime_new this(1) run this(2)] show ?thesis
    by (simp add: a_source_def a_sink_def)
qed

section \<open>Where the runtime is not what its documentation says\<close>

text \<open>C36: A changed component may name an input that the same reload removes, so the condition on
  changed components for a reload to install its list is needed: whenever a reload succeeds although
  a changed component \<open>c\<close> declares an input \<open>x\<close> that is not in the new list, the node of \<open>c\<close> is left
  linked to the index that \<open>x\<close> had, which is in no table any more, and the invariant is broken.\<close>

theorem reload_dangling_input:
  assumes "wf_topology R" and "distinct (map c_id cs)" and "reload prepare cs R = (None, R')"
    and "c \<in> set cs" and "changed R c" and "x \<in> set (declared c)" and "x \<notin> c_id ` set cs"
  shows "(\<exists>i d. map_of (nodes R) x = Some d \<and> map_of (nodes R') (c_id c) = Some i \<and> d \<in> ins R' i
           \<and> map_of (bootstraps R') d = None)
    \<and> map_of (nodes R') x = None \<and> \<not> wf_topology R'"
proof -
  obtain adds diffs dels R2 R4 R5 where p: "prepared R cs adds diffs dels R2 R4"
    and rem: "remove_oudated_nodes dels R4 = (None, R5)" and df: "diffs = filter (changed R) cs"
    and eq: "nodes R' = nodes (configure_links_after_remove_oudated_nodes dels R5)"
    "bootstraps R' = bootstraps (configure_links_after_remove_oudated_nodes dels R5)"
    "sources R' = sources (configure_links_after_remove_oudated_nodes dels R5)"
    by (rule reload_success [OF assms(3,1,2)])
  note pl = prepared_plan [OF p] and st = prepared_stages [OF p] and w = wf_topologyD [OF assms(1)]
  note r = remove_oudated_nodes_ok [OF rem st(7)]
  note un = fold_unlink_removed [of dels R5, folded configure_links_after_remove_oudated_nodes_def, folded eq(1,2)]
  have c: "c \<in> set diffs" using assms(4,5) df by simp
  have "validate R adds diffs dels = None" using p by (simp add: prepared_def)
  then have "x \<in> dom (map_of (nodes R)) \<union> c_id ` set adds" using validate_facts(2) [OF _ c] assms(6) by blast
  moreover have "x \<notin> c_id ` set adds" using assms(7) pl(1) by blast
  ultimately obtain d where d: "map_of (nodes R) x = Some d" by blast
  have "map_of (nodes R) (c_id a) \<noteq> Some d" if "a \<in> set cs" for a
    using nodes_inj [OF w(1) d, of "c_id a"] assms(7) that by blast
  moreover have "\<exists>b. map_of (bootstraps R) d = Some b" using nodes_okD(5) [OF w(1), of x d] d by blast
  ultimately have dels: "d \<in> set dels" using pl(6) by blast
  obtain i b where i: "map_of (nodes R2) (c_id c) = Some i" "map_of (bootstraps R4) i = Some b" "b_component b = c"
    and ins4: "ins R4 i = set (resolve R2 (declared c))" using st(12) [OF c] by blast
  obtain i' where "map_of (nodes R) (c_id c) = Some i'" using pl(5) [of c] c by blast
  moreover from this have "i' = i" using i(1) st(2) unfolding map_le_def by (metis domI option.inject)
  ultimately have i_stays: "i \<notin> set dels" using pl(6) [of i] assms(4) by blast
  have d2: "map_of (nodes R2) x = Some d" using d st(2) unfolding map_le_def by (metis domI)
  then have "d \<in> ins R4 i" using ins4 assms(6) by (auto simp: in_resolve)
  moreover have "ins R5 i = ins R4 i" using r ins_cong by metis
  ultimately have link: "d \<in> ins R' i" using un i_stays ins_cong [OF eq(3)] by simp
  have boots: "map_of (bootstraps R') j = (if j \<in> set dels then None else map_of (bootstraps R4) j)" for j
    using r un by simp
  have node: "map_of (nodes R') y = Some j \<longleftrightarrow> j \<notin> set dels \<and> map_of (nodes R2) y = Some j" for y j
  proof -
    have "map_of (nodes R') y = Some j \<longleftrightarrow> (\<exists>b. map_of (bootstraps R') j = Some b \<and> c_id (b_component b) = y)"
      using nodes_okD(5) [of R5 y j] r un by simp
    then show ?thesis using boots [of j] nodes_okD(5) [OF st(7), of y j] st(9) by simp
  qed
  have gone: "map_of (nodes R') x = None"
  proof (cases "map_of (nodes R') x")
    case (Some j)
    then have "j \<notin> set dels \<and> map_of (nodes R2) x = Some j" using node [of x j] by blast
    then show ?thesis using d2 dels by simp
  qed
  have ic: "map_of (nodes R') (c_id c) = Some i" using node i(1) i_stays by blast
  have "\<not> wf_topology R'"
  proof
    assume "wf_topology R'"
    moreover have "map_of (bootstraps R') i = Some b" using boots i(2) i_stays by simp
    ultimately have "set (declared c) \<subseteq> dom (map_of (nodes R'))" using wf_topologyD(6) i(3) by metis
    then show False using assms(6) gone by auto
  qed
  moreover have "map_of (bootstraps R') d = None" using boots dels by simp
  ultimately show ?thesis using d ic link gone by blast
qed

text \<open>Witness of C36: the sink \<open>b\<close> read \<open>a\<close> and now reads \<open>d\<close>, which the same reload removes.\<close>

theorem reload_dangling_input_witness:
  "let R = snd (reload (\<lambda>_. None) [a_source ''a'', a_source ''d'', a_sink ''b'' [''a'']] runtime_new);
       (e, R') = reload (\<lambda>_. None) [a_source ''a'', a_sink ''b'' [''d'']] R
   in e = None \<and> map_of (nodes R') ''d'' = None \<and> \<not> wf_topology R'"
proof -
  let ?cs = "[a_source ''a'', a_source ''d'', a_sink ''b'' [''a'']]" and ?ds = "[a_source ''a'', a_sink ''b'' [''d'']]"
  let ?R = "snd (reload (\<lambda>_. None) ?cs runtime_new)" and ?r = "reload (\<lambda>_. None) ?ds"
  have "fst (reload (\<lambda>_. None) ?cs runtime_new) = None" by (simp add: engine_eval)
  then have first: "reload (\<lambda>_. None) ?cs runtime_new = (None, ?R)" by (metis prod.collapse)
  have ids: "distinct (map c_id ?cs)" "distinct (map c_id ?ds)" by (simp_all add: a_source_def a_sink_def)
  have "\<forall>c \<in> set ?cs. changed runtime_new c \<longrightarrow> set (declared c) \<subseteq> c_id ` set ?cs"
    by (simp add: changed_def runtime_new_def)
  note wf = reload_wf(1) [OF wf_runtime_new ids(1) first this]
  have "fst (?r ?R) = None" by (simp add: engine_eval)
  then have second: "?r ?R = (None, snd (?r ?R))" by (metis prod.collapse)
  have ch: "changed ?R (a_sink ''b'' [''d''])" by (simp add: changed_def engine_eval)
  have "a_sink ''b'' [''d''] \<in> set ?ds" "''d'' \<in> set (declared (a_sink ''b'' [''d'']))" "''d'' \<notin> c_id ` set ?ds"
    by (simp_all add: a_source_def a_sink_def declared_def)
  from reload_dangling_input [OF wf ids(2) second this(1) ch this(2,3)] show ?thesis
    unfolding Let_def by (subst second) simp
qed

text \<open>When \<open>prepare\<close> fails the node stays registered without a task, and a later reload that
  would prepare it finds it unchanged: it succeeds and the node never runs.\<close>

theorem reload_prepare_stuck:
  "let (e1, R1) = reload (\<lambda>_. Some ''no station'') [a_source ''a''] runtime_new;
       (e2, R2) = reload (\<lambda>_. None) [a_source ''a''] R1
   in e1 = Some (PrepareFailed ''a'' ''no station'') \<and> e2 = None \<and> map_of (nodes R2) ''a'' = Some 0 \<and> tasks R2 = {}"
  by (simp add: engine_eval)

text \<open>A fault that replaces another fault of the node does not move the revision, so the cached
  status keeps showing the old one, whatever the new one is.\<close>

theorem topology_hides_new_fault:
  assumes "by_node (last_errors R) x = Some f"
  shows "fst (topology (report_fault x (Some g) (snd (topology R)))) = fst (topology R)"
  using assms by (auto simp: topology_def report_fault_def errors_set_def Let_def split: option.splits prod.splits if_splits)

text \<open>An instance.\<close>

theorem topology_hides_new_fault_witness:
  "fst (topology (report_fault ''a'' (Some (fault_new Fatal ''c2'' ''m2''))
       (snd (topology (report_fault ''a'' (Some (fault_new Transient ''c1'' ''m1'')) (snd (reload (\<lambda>_. None) [a_source ''a''] runtime_new)))))))
   = fst (topology (report_fault ''a'' (Some (fault_new Transient ''c1'' ''m1'')) (snd (reload (\<lambda>_. None) [a_source ''a''] runtime_new))))"
  by (rule topology_hides_new_fault [of _ _ "fault_new Transient ''c1'' ''m1''"])
    (simp add: report_fault_def errors_set_def Let_def)

end
