(* ===== verification/Kernel_Host.thy ===== *)
theory Kernel_Host
  imports Frame_Codec
begin

text \<open>
  The host side of the kernel protocol (\<open>crates/opsense-proto/src/host.rs\<close>): a connection to one kernel
  process, its requests and the draining of the events of an execution. The messages are those of
  the protobuf schema, their encoding is an argument, and so is the process: \<open>feed\<close> is what it does
  with one frame until it waits for the next. \<open>source\<close> holds the items the framed reader has yet
  to yield, \<open>None\<close> as the result of a call is a call that waits forever.
\<close>

section \<open>Messages\<close>

text \<open>A value in one of the kinds the host looks at, or another kind as bytes.\<close>

datatype pb_value = Val_text string | Val_dataframe "u8 list" | Val_artifact string "u8 list" | Val_other "u8 list"

datatype exec_payload =
    Stdout_line string | Stderr_line string | Artifact_event "u8 list" | Dataframe_event "u8 list"
  | Error_event string string | Done bool | Result_value "pb_value option"

record exec_event =
  event_request_id :: string
  event_payload :: "exec_payload option"

record session_params =
  params_session_id :: string
  require_challenge :: bool
  params_role :: string

record code_request =
  request_id :: string
  request_session_id :: string
  request_code :: string
  input_names :: "string list"
  timeout_ms :: u64

record health_status =
  status_ok :: bool
  status_name :: string
  status_version :: string
  status_packages :: "(string \<times> bool \<times> string) list"
  status_detail :: string

datatype message =
    Hello u32 string | Welcome u32 string string | Start_session session_params | Session_handle string "u8 list"
  | Close_request string | Interrupt_request string string | Ack bool string | Code_request code_request
  | Exec_event exec_event | Health_request | Health_status health_status | Value_message "pb_value option" | Shutdown

type_synonym envelope = "message option"

definition PROTOCOL_VERSION :: u32 where "PROTOCOL_VERSION = 1"

datatype host_error =
    Broken_pipe | Frame_error frame_error | Envelope_error frame_error | Decode_error
  | Kernel_closed string | Empty_envelope string | Unexpected_envelope string message
  | Version_mismatch u32 | Close_failed string | Closed_during_execute | Unexpected_in_execute envelope
  | Spawn_failed | Wrong_session_id string | No_kernel string

record exec_outcome =
  outcome_events :: "exec_event list"
  outcome_value :: "pb_value option option"
  outcome_error :: "(string \<times> string) option"
  timed_out :: bool

definition outcome_default :: exec_outcome where
  "outcome_default = \<lparr>outcome_events = [], outcome_value = None, outcome_error = None, timed_out = False\<rparr>"

definition outcome_ok :: "exec_outcome \<Rightarrow> bool" where
  "outcome_ok out = (outcome_error out = None \<and> \<not> timed_out out)"

definition stdout_line :: "exec_event \<Rightarrow> string option" where
  "stdout_line e = (case event_payload e of Some (Stdout_line s) \<Rightarrow> Some s | _ \<Rightarrow> None)"

fun join_lines :: "string list \<Rightarrow> string" where
  "join_lines [] = []"
| "join_lines [l] = l"
| "join_lines (l # ls) = l @ CHR 0x0A # join_lines ls"

definition outcome_stdout :: "exec_outcome \<Rightarrow> string" where
  "outcome_stdout out = join_lines (List.map_filter stdout_line (outcome_events out))"

section \<open>The connection\<close>

type_synonym item = "frame_error + frame"

record 'k kernel_process =
  feed :: "item \<Rightarrow> 'k \<Rightarrow> item list \<times> bool \<times> 'k"
  pb_encode :: "envelope \<Rightarrow> u8 list"
  pb_decode :: "u8 list \<Rightarrow> unit + envelope"

record 'k connection =
  source :: "item list"
  kernel :: 'k
  exited :: bool

definition conn_new :: "'k \<Rightarrow> 'k connection" where
  "conn_new k = \<lparr>source = [], kernel = k, exited = False\<rparr>"

text \<open>The item the framed reader at the other end makes of the bytes of a frame.\<close>

definition received :: "u8 list \<Rightarrow> item list" where
  "received bs = (case fst (frame_decode bs) of Inl e \<Rightarrow> [Inl e] | Inr None \<Rightarrow> [] | Inr (Some f) \<Rightarrow> [Inr f])"

fun feed_all :: "('k, 'z) kernel_process_scheme \<Rightarrow> item list \<Rightarrow> 'k \<Rightarrow> item list \<times> bool \<times> 'k" where
  "feed_all P [] k = ([], False, k)"
| "feed_all P (i # is) k =
     (case feed P i k of
        (out, True, k) \<Rightarrow> (out, True, k)
      | (out, False, k) \<Rightarrow> (case feed_all P is k of (outs, fin, k) \<Rightarrow> (out @ outs, fin, k)))"

definition conn_send :: "'k kernel_process \<Rightarrow> envelope \<Rightarrow> 'k connection \<Rightarrow> (host_error + unit) \<times> 'k connection" where
  "conn_send P msg c =
     (if exited c then (Inl Broken_pipe, c)
      else case frame_encode (frame_control (pb_encode P) msg) [] of
          Inl e \<Rightarrow> (Inl (Frame_error e), c)
        | Inr bs \<Rightarrow>
            (case feed_all P (received bs) (kernel c) of
               (out, fin, k) \<Rightarrow> (Inr (), c\<lparr>source := source c @ out, kernel := k, exited := fin\<rparr>)))"

datatype 'x arrival = Waiting | End_of_stream | Arrived 'x

fun recv :: "'k kernel_process \<Rightarrow> bool \<Rightarrow> item list \<Rightarrow> (host_error + envelope) arrival \<times> item list" where
  "recv P fin [] = (if fin then End_of_stream else Waiting, [])"
| "recv P fin (Inl e # src) = (Arrived (Inl (Frame_error e)), src)"
| "recv P fin (Inr f # src) =
     (case tag f of
        Arrow \<Rightarrow> recv P fin src
      | Control \<Rightarrow>
          (Arrived (case frame_envelope (pb_decode P) f of
             Inl (Inl e) \<Rightarrow> Inl (Envelope_error e) | Inl (Inr _) \<Rightarrow> Inl Decode_error | Inr env \<Rightarrow> Inr env), src))"

definition conn_expect ::
    "'k kernel_process \<Rightarrow> string \<Rightarrow> (message \<Rightarrow> 'x option) \<Rightarrow> 'k connection \<Rightarrow> (host_error + 'x) option \<times> 'k connection" where
  "conn_expect P what extract c =
     (let (a, src) = recv P (exited c) (source c)
      in (case a of
            Waiting \<Rightarrow> None
          | End_of_stream \<Rightarrow> Some (Inl (Kernel_closed what))
          | Arrived (Inl e) \<Rightarrow> Some (Inl e)
          | Arrived (Inr None) \<Rightarrow> Some (Inl (Empty_envelope what))
          | Arrived (Inr (Some msg)) \<Rightarrow>
              (case extract msg of Some v \<Rightarrow> Some (Inr v) | None \<Rightarrow> Some (Inl (Unexpected_envelope what msg))),
          c\<lparr>source := src\<rparr>))"

text \<open>Sending and waiting for the answer, which every request but an execution does.\<close>

definition conn_ask ::
    "'k kernel_process \<Rightarrow> message \<Rightarrow> string \<Rightarrow> (message \<Rightarrow> 'x option) \<Rightarrow> 'k connection \<Rightarrow> (host_error + 'x) option \<times> 'k connection" where
  "conn_ask P msg what extract c =
     (case conn_send P (Some msg) c of
        (Inl e, c) \<Rightarrow> (Some (Inl e), c)
      | (Inr _, c) \<Rightarrow> conn_expect P what extract c)"

definition ack_of :: "message \<Rightarrow> (bool \<times> string) option" where
  "ack_of msg = (case msg of Ack ok err \<Rightarrow> Some (ok, err) | _ \<Rightarrow> None)"

definition conn_expect_ack :: "'k kernel_process \<Rightarrow> string \<Rightarrow> 'k connection \<Rightarrow> (host_error + bool \<times> string) option \<times> 'k connection" where
  "conn_expect_ack P what = conn_expect P what ack_of"

definition conn_handshake ::
    "'k kernel_process \<Rightarrow> string \<Rightarrow> 'k connection \<Rightarrow> (host_error + u32 \<times> string \<times> string) option \<times> 'k connection" where
  "conn_handshake P client c =
     (case conn_ask P (Hello PROTOCOL_VERSION client) ''welcome''
             (\<lambda>msg. case msg of Welcome v n k \<Rightarrow> Some (v, n, k) | _ \<Rightarrow> None) c of
        (Some (Inr (v, n, k)), c) \<Rightarrow>
          (Some (if v = PROTOCOL_VERSION then Inr (v, n, k) else Inl (Version_mismatch v)), c)
      | (r, c) \<Rightarrow> (r, c))"

definition conn_health :: "'k kernel_process \<Rightarrow> 'k connection \<Rightarrow> (host_error + health_status) option \<times> 'k connection" where
  "conn_health P =
     conn_ask P Health_request ''health status'' (\<lambda>msg. case msg of Health_status h \<Rightarrow> Some h | _ \<Rightarrow> None)"

definition conn_start_session :: "'k kernel_process \<Rightarrow> session_params \<Rightarrow> 'k connection \<Rightarrow> (host_error + string) option \<times> 'k connection" where
  "conn_start_session P params =
     conn_ask P (Start_session params) ''session handle'' (\<lambda>msg. case msg of Session_handle sid ch \<Rightarrow> Some sid | _ \<Rightarrow> None)"

definition conn_close_session :: "'k kernel_process \<Rightarrow> string \<Rightarrow> 'k connection \<Rightarrow> (host_error + unit) option \<times> 'k connection" where
  "conn_close_session P sid c =
     (case conn_send P (Some (Close_request sid)) c of
        (Inl e, c) \<Rightarrow> (Some (Inl e), c)
      | (Inr _, c) \<Rightarrow>
          (case conn_expect_ack P ''close ack'' c of
             (None, c) \<Rightarrow> (None, c)
           | (Some (Inl e), c) \<Rightarrow> (Some (Inl e), c)
           | (Some (Inr (ok, err)), c) \<Rightarrow> (Some (if ok then Inr () else Inl (Close_failed err)), c)))"

definition conn_shutdown :: "'k kernel_process \<Rightarrow> 'k connection \<Rightarrow> (host_error + unit) option \<times> 'k connection" where
  "conn_shutdown P c =
     (case conn_send P (Some Shutdown) c of
        (Inl e, c) \<Rightarrow> (Some (Inr ()), c)
      | (Inr _, c) \<Rightarrow>
          (case conn_expect_ack P ''shutdown ack'' c of
             (None, c) \<Rightarrow> (None, c)
           | (Some _, c) \<Rightarrow> (Some (Inr ()), c)))"

definition conn_interrupt :: "'k kernel_process \<Rightarrow> string \<Rightarrow> string \<Rightarrow> 'k connection \<Rightarrow> (host_error + unit) \<times> 'k connection" where
  "conn_interrupt P sid rid = conn_send P (Some (Interrupt_request sid rid))"

section \<open>Executions\<close>

definition is_done :: "exec_event \<Rightarrow> bool" where
  "is_done ev = (event_payload ev = Some (Done True))"

text \<open>What one event adds to the outcome.\<close>

definition note_event :: "exec_event \<Rightarrow> exec_outcome \<Rightarrow> exec_outcome" where
  "note_event ev out =
     (case event_payload ev of
        Some (Error_event kind text) \<Rightarrow> out\<lparr>outcome_error := Some (kind, text), outcome_events := outcome_events out @ [ev]\<rparr>
      | Some (Result_value v) \<Rightarrow> out\<lparr>outcome_value := Some v\<rparr>
      | _ \<Rightarrow> out\<lparr>outcome_events := outcome_events out @ [ev]\<rparr>)"

lemma recv_shorter: "recv P fin src = (Arrived x, src') \<Longrightarrow> length src' < length src"
  by (induction P fin src rule: recv.induct) (auto split: if_splits frame_tag.splits)

function drain :: "'k kernel_process \<Rightarrow> bool \<Rightarrow> exec_outcome \<Rightarrow> item list \<Rightarrow> (host_error + exec_outcome) option \<times> item list" where
  "drain P fin out src =
     (case recv P fin src of
        (Waiting, src') \<Rightarrow> (None, src')
      | (End_of_stream, src') \<Rightarrow> (Some (Inl Closed_during_execute), src')
      | (Arrived (Inl e), src') \<Rightarrow> (Some (Inl e), src')
      | (Arrived (Inr (Some (Exec_event ev))), src') \<Rightarrow>
          (let out = note_event ev out
           in if is_done ev then (Some (Inr out), src') else drain P fin out src')
      | (Arrived (Inr other), src') \<Rightarrow> (Some (Inl (Unexpected_in_execute other)), src'))"
  by pat_completeness auto
termination
  by (relation "measure (\<lambda>(P, fin, out, src). length src)") (simp_all, metis recv_shorter)

declare drain.simps [simp del]

text \<open>\<open>arrivals\<close> is the number of items that come in before the deadline of the request, if it has one.\<close>

definition conn_execute ::
    "'k kernel_process \<Rightarrow> nat \<Rightarrow> code_request \<Rightarrow> 'k connection \<Rightarrow> (host_error + exec_outcome) option \<times> 'k connection" where
  "conn_execute P arrivals req c =
     (case conn_send P (Some (Code_request req)) c of
        (Inl e, c) \<Rightarrow> (Some (Inl e), c)
      | (Inr _, c) \<Rightarrow>
          (let limited = (timeout_ms req > 0);
               n = (if limited then arrivals else length (source c));
               (r, left) = drain P (exited c \<and> length (source c) \<le> n) outcome_default (take n (source c));
               c = c\<lparr>source := left @ drop n (source c)\<rparr>
           in case r of
                Some x \<Rightarrow> (Some x, c)
              | None \<Rightarrow>
                  if limited then
                    (Some (Inr (outcome_default\<lparr>timed_out := True\<rparr>)),
                     snd (conn_interrupt P (request_session_id req) (request_id req) c))
                  else (None, c)))"

end
