(* ===== verification/Runner_Auth.thy ===== *)
theory Runner_Auth
  imports Lru Kernel_Host
begin

text \<open>
  Authentication of the runner (\<open>crates/opsense-runner/src/auth.rs\<close>): the signed message and its
  time window, the headers it is read from, \<open>LocalAuth\<close> and \<open>RemoteAuth\<close>. Signatures, keys, base64,
  encryption, random bytes and the answers of the server are arguments.
\<close>

datatype runner_error =
    Context_required | Auth_failed | Session_not_found | No_pending_challenge | Auth_not_configured
  | Header_missing string | Header_invalid string | No_master_key | Empty_master_key | Encrypt_failed
  | Bad_session_id | Bad_public_key | Not_wired | Serve_failed | No_private_key | Bad_private_key
  | Kernel host_error | Waits_forever

section \<open>Numbers in decimal\<close>

fun show_nat :: "nat \<Rightarrow> string" where
  "show_nat n = (if n < 10 then [char_of (48 + n)] else show_nat (n div 10) @ [char_of (48 + n mod 10)])"

declare show_nat.simps [simp del]

text \<open>\<open>i64\<close> is a word read with its sign.\<close>

definition show_i64 :: "u64 \<Rightarrow> string" where
  "show_i64 w = (if sint w < 0 then CHR ''-'' # show_nat (nat (- sint w)) else show_nat (nat (sint w)))"

definition is_digit :: "char \<Rightarrow> bool" where
  "is_digit c = (48 \<le> (of_char c :: nat) \<and> (of_char c :: nat) \<le> 57)"

definition read_nat :: "string \<Rightarrow> nat option" where
  "read_nat s =
     (if s \<noteq> [] \<and> list_all is_digit s then Some (foldl (\<lambda>n c. 10 * n + (of_char c - 48)) 0 s) else None)"

text \<open>\<open>str::parse\<close> of the two integer types; \<open>None\<close> for every error.\<close>

definition parse_u64 :: "string \<Rightarrow> u64 option" where
  "parse_u64 s =
     (case read_nat (case s of c # cs \<Rightarrow> if c = CHR ''+'' then cs else s | [] \<Rightarrow> s) of
        None \<Rightarrow> None
      | Some n \<Rightarrow> if n < 2 ^ 64 then Some (of_nat n) else None)"

definition parse_i64 :: "string \<Rightarrow> u64 option" where
  "parse_i64 s =
     (let neg = (s \<noteq> [] \<and> hd s = CHR ''-'');
          ds = (if s \<noteq> [] \<and> hd s \<in> {CHR ''-'', CHR ''+''} then tl s else s)
      in case read_nat ds of
           None \<Rightarrow> None
         | Some n \<Rightarrow>
             if neg then (if n \<le> 2 ^ 63 then Some (- of_nat n) else None)
             else if n < 2 ^ 63 then Some (of_nat n) else None)"

section \<open>The context of a request\<close>

record auth_context =
  ctx_session_id :: string
  ctx_timestamp :: u64
  ctx_nonce :: u64
  ctx_signature :: bytes

text \<open>The metadata of a request; a value that is not visible ASCII is \<open>None\<close>.\<close>

type_synonym metadata = "string \<rightharpoonup> string option"

definition header :: "metadata \<Rightarrow> string \<Rightarrow> (string \<Rightarrow> 'x option) \<Rightarrow> runner_error + 'x" where
  "header meta name conv =
     (case meta name of
        None \<Rightarrow> Inl (Header_missing name)
      | Some None \<Rightarrow> Inl (Header_invalid name)
      | Some (Some v) \<Rightarrow> (case conv v of None \<Rightarrow> Inl (Header_invalid name) | Some x \<Rightarrow> Inr x))"

definition auth_context_of :: "(string \<Rightarrow> bytes option) \<Rightarrow> metadata \<Rightarrow> runner_error + auth_context" where
  "auth_context_of b64_decode meta =
     (case header meta ''x-session-id'' Some of Inl e \<Rightarrow> Inl e | Inr sid \<Rightarrow>
      case header meta ''x-timestamp'' parse_i64 of Inl e \<Rightarrow> Inl e | Inr ts \<Rightarrow>
      case header meta ''x-nonce'' parse_u64 of Inl e \<Rightarrow> Inl e | Inr nonce \<Rightarrow>
      case header meta ''x-signature'' b64_decode of Inl e \<Rightarrow> Inl e | Inr sig \<Rightarrow>
        Inr \<lparr>ctx_session_id = sid, ctx_timestamp = ts, ctx_nonce = nonce, ctx_signature = sig\<rparr>)"

section \<open>Signatures\<close>

text \<open>The cryptographic libraries.\<close>

record 'k crypto =
  b64_decode :: "string \<Rightarrow> bytes option"
  b64_encode :: "bytes \<Rightarrow> string"
  key_of_bytes :: "bytes \<Rightarrow> 'k option"
  sig_verifies :: "'k \<Rightarrow> string \<Rightarrow> bytes \<Rightarrow> bool"
  public_of_private :: "bytes \<Rightarrow> bytes"
  encrypt :: "bytes \<Rightarrow> string \<Rightarrow> bytes option"

definition TIMESTAMP_WINDOW_SECS :: u64 where "TIMESTAMP_WINDOW_SECS = 30"

definition SIGNATURE_LENGTH :: nat where "SIGNATURE_LENGTH = 64"

text \<open>\<open>i64::abs\<close> as it is compiled for release, where overflow wraps.\<close>

definition i64_abs :: "u64 \<Rightarrow> u64" where
  "i64_abs w = (if sint w < 0 then - w else w)"

definition within_window :: "u64 \<Rightarrow> u64 \<Rightarrow> bool" where
  "within_window now timestamp = (\<not> sint (i64_abs (now - timestamp)) > sint TIMESTAMP_WINDOW_SECS)"

definition auth_message :: "u64 \<Rightarrow> u64 \<Rightarrow> string \<Rightarrow> string" where
  "auth_message timestamp nonce meth =
     show_i64 timestamp @ '':'' @ show_nat (unat nonce) @ '':'' @ meth"

definition verify_with_public_key ::
    "'k crypto \<Rightarrow> u64 \<Rightarrow> bytes \<Rightarrow> string \<Rightarrow> u64 \<Rightarrow> u64 \<Rightarrow> bytes \<Rightarrow> runner_error + bool" where
  "verify_with_public_key C now public_key meth timestamp nonce signature =
     (if length signature \<noteq> SIGNATURE_LENGTH then Inr False
      else if \<not> within_window now timestamp then Inr False
      else case key_of_bytes C public_key of
          None \<Rightarrow> Inl Bad_public_key
        | Some k \<Rightarrow> Inr (sig_verifies C k (auth_message timestamp nonce meth) signature))"

text \<open>The two digits of a byte in hexadecimal.\<close>

definition hex_digit :: "nat \<Rightarrow> char" where
  "hex_digit n = char_of (if n < 10 then 48 + n else 87 + n)"

definition hex_encode :: "bytes \<Rightarrow> string" where
  "hex_encode bs = concat (map (\<lambda>b. [hex_digit (unat b div 16), hex_digit (unat b mod 16)]) bs)"

section \<open>Authentication in the process\<close>

record challenge =
  ciphertext :: bytes
  plaintext :: bytes

record local_auth = master_key :: "bytes option"

definition local_auth_new :: local_auth where
  "local_auth_new = \<lparr>master_key = None\<rparr>"

definition local_from_key :: "bytes \<Rightarrow> runner_error + local_auth" where
  "local_from_key key = (if key = [] then Inl Empty_master_key else Inr \<lparr>master_key = Some key\<rparr>)"

definition local_from_env :: "bytes option \<Rightarrow> runner_error + local_auth" where
  "local_from_env var = (case var of None \<Rightarrow> Inl No_master_key | Some key \<Rightarrow> local_from_key key)"

text \<open>The random bytes of the generator are an argument.\<close>

definition generate_keypair :: "'k crypto \<Rightarrow> bytes \<Rightarrow> string \<times> bytes" where
  "generate_keypair C random = (b64_encode C (public_of_private C random), random)"

definition local_verify_signature ::
    "'k crypto \<Rightarrow> u64 \<Rightarrow> string \<Rightarrow> string \<Rightarrow> u64 \<Rightarrow> u64 \<Rightarrow> bytes \<Rightarrow> runner_error + bool" where
  "local_verify_signature C now session_id meth timestamp nonce signature =
     (case b64_decode C session_id of
        None \<Rightarrow> Inl Bad_session_id
      | Some pk \<Rightarrow>
          if length pk \<noteq> 32 then Inr False
          else verify_with_public_key C now pk meth timestamp nonce signature)"

definition local_create_challenge :: "'k crypto \<Rightarrow> bytes \<Rightarrow> local_auth \<Rightarrow> runner_error + challenge" where
  "local_create_challenge C random a =
     (case master_key a of
        None \<Rightarrow> Inl No_master_key
      | Some key \<Rightarrow>
          (case encrypt C key (hex_encode random) of
             None \<Rightarrow> Inl Encrypt_failed
           | Some ct \<Rightarrow> Inr \<lparr>ciphertext = ct, plaintext = random\<rparr>))"

text \<open>The comparison both implementations share.\<close>

definition same_plaintext :: "bytes \<Rightarrow> bytes \<Rightarrow> runner_error + bool" where
  "same_plaintext expected response = Inr (expected = response)"

section \<open>Authentication against the server\<close>

record session_response =
  resp_active :: bool
  resp_private_key :: "string option"

text \<open>\<open>post\<close> is the answer of the server, \<open>None\<close> for any failure of the call.\<close>

definition decode_private_key :: "'k crypto \<Rightarrow> string \<Rightarrow> runner_error + bytes" where
  "decode_private_key C s =
     (case b64_decode C s of
        None \<Rightarrow> Inl Bad_private_key
      | Some bs \<Rightarrow> if length bs \<noteq> 32 then Inl Bad_private_key else Inr bs)"

definition remote_cache :: "bool \<Rightarrow> nat \<Rightarrow> (string, bytes) lru option" where
  "remote_cache shared cache_cap = lru_new shared 1 (max cache_cap 1)"

definition lookup_public_key ::
    "bool \<Rightarrow> (string \<Rightarrow> u64) \<Rightarrow> lru_env \<Rightarrow> 'k crypto \<Rightarrow> (string \<Rightarrow> session_response option) \<Rightarrow> string
     \<Rightarrow> (string, bytes) lru \<Rightarrow> (runner_error + bytes option) \<times> (string, bytes) lru" where
  "lookup_public_key shared hash env C post session_id cache =
     (let (hit, cache) = lru_get hash env session_id cache in
      case hit of
        Some pk \<Rightarrow> (Inr (Some pk), cache)
      | None \<Rightarrow>
          (case post session_id of
             None \<Rightarrow> (Inl Serve_failed, cache)
           | Some resp \<Rightarrow>
               if \<not> resp_active resp then (Inr None, cache)
               else case resp_private_key resp of
                   None \<Rightarrow> (Inl No_private_key, cache)
                 | Some s \<Rightarrow>
                     (case decode_private_key C s of
                        Inl e \<Rightarrow> (Inl e, cache)
                      | Inr key \<Rightarrow>
                          let pk = public_of_private C key
                          in (Inr (Some pk), lru_put shared hash env no_hooks session_id pk cache))))"

definition remote_verify_signature ::
    "bool \<Rightarrow> (string \<Rightarrow> u64) \<Rightarrow> lru_env \<Rightarrow> 'k crypto \<Rightarrow> (string \<Rightarrow> session_response option) \<Rightarrow> u64
     \<Rightarrow> string \<Rightarrow> string \<Rightarrow> u64 \<Rightarrow> u64 \<Rightarrow> bytes \<Rightarrow> (string, bytes) lru \<Rightarrow> (runner_error + bool) \<times> (string, bytes) lru" where
  "remote_verify_signature shared hash env C post now session_id meth timestamp nonce signature cache =
     (case lookup_public_key shared hash env C post session_id cache of
        (Inl e, cache) \<Rightarrow> (Inr False, cache)
      | (Inr None, cache) \<Rightarrow> (Inr False, cache)
      | (Inr (Some pk), cache) \<Rightarrow> (verify_with_public_key C now pk meth timestamp nonce signature, cache))"

definition resolve_private_key ::
    "'k crypto \<Rightarrow> (string \<Rightarrow> session_response option) \<Rightarrow> string \<Rightarrow> runner_error + bytes option" where
  "resolve_private_key C post session_id =
     (case post session_id of
        None \<Rightarrow> Inl Serve_failed
      | Some resp \<Rightarrow>
          if \<not> resp_active resp then Inr None
          else case resp_private_key resp of
              None \<Rightarrow> Inr None
            | Some s \<Rightarrow> map_sum id Some (decode_private_key C s))"

definition remote_create_challenge :: "runner_error + challenge" where
  "remote_create_challenge = Inl Not_wired"

section \<open>The message binds its parts\<close>

lemma digit_char: "n < 10 \<Longrightarrow> (of_char (char_of (48 + n) :: char) :: nat) = 48 + n"
  by (simp add: of_char_of)

lemma show_nat_digits: "list_all is_digit (show_nat n) \<and> show_nat n \<noteq> []"
proof (induction n rule: show_nat.induct)
  case (1 n)
  have "is_digit (char_of (48 + n mod 10))" by (simp add: is_digit_def digit_char)
  moreover have "is_digit (char_of (48 + n))" if "n < 10" using that by (simp add: is_digit_def digit_char)
  ultimately show ?case using 1 by (simp add: show_nat.simps [of n])
qed

lemma read_show_nat: "read_nat (show_nat n) = Some n"
proof -
  have "foldl (\<lambda>n c. 10 * n + (of_char c - 48)) 0 (show_nat n) = n"
  proof (induction n rule: show_nat.induct)
    case (1 n)
    have "10 * (n div 10) + n mod 10 = n" by simp
    with 1 show ?case by (simp add: show_nat.simps [of n] digit_char del: of_char_of)
  qed
  then show ?thesis using show_nat_digits [of n] by (simp add: read_nat_def)
qed

lemma not_digit: "\<not> is_digit (CHR '':'')" "\<not> is_digit (CHR ''-'')" "\<not> is_digit (CHR ''+'')"
  by (simp_all add: is_digit_def)

lemma show_nat_hd: "show_nat n = c # cs \<Longrightarrow> c \<noteq> CHR ''-'' \<and> c \<noteq> CHR ''+''"
  using show_nat_digits [of n] not_digit by auto

lemma parse_show_u64: "parse_u64 (show_nat (unat w)) = Some w"
proof -
  have "(case show_nat (unat w) of c # cs \<Rightarrow> if c = CHR ''+'' then cs else show_nat (unat w) | [] \<Rightarrow> show_nat (unat w)) = show_nat (unat w)"
    using show_nat_hd by (auto split: list.split)
  moreover have "unat w < 2 ^ 64" using unat_less_pow [of w] by simp
  ultimately show ?thesis by (simp add: parse_u64_def read_show_nat)
qed

lemma sint_bounds: "- (2 ^ 63) \<le> sint w" "sint w < 2 ^ 63" for w :: u64
  using sint_greater_eq [of w] sint_less [of w] by simp_all

lemma parse_show_i64: "parse_i64 (show_i64 w) = Some w"
proof (cases "sint w < 0")
  case True
  have "nat (- sint w) \<le> 2 ^ 63" using sint_bounds(1) [of w] by (simp add: nat_le_iff)
  moreover have "- of_nat (nat (- sint w)) = w"
    using True by (simp add: of_nat_nat)
  ultimately show ?thesis using True by (simp add: parse_i64_def show_i64_def read_show_nat)
next
  case False
  let ?s = "show_nat (nat (sint w))"
  have "nat (sint w) < 2 ^ 63" using sint_bounds(2) [of w] False by (simp add: nat_less_iff)
  moreover have "of_nat (nat (sint w)) = w" using False by (simp add: of_nat_nat)
  moreover obtain c cs where "?s = c # cs" using show_nat_digits [of "nat (sint w)"] by (cases ?s) auto
  ultimately show ?thesis using False show_nat_hd read_show_nat [of "nat (sint w)"]
    by (simp add: parse_i64_def show_i64_def)
qed

lemma takeWhile_digits: "list_all P xs \<Longrightarrow> \<not> P c \<Longrightarrow> takeWhile P (xs @ c # ys) = xs \<and> dropWhile P (xs @ c # ys) = c # ys"
  by (induction xs) auto

lemma split_at_colon:
  assumes "CHR '':'' \<notin> set xs" "CHR '':'' \<notin> set xs'" "xs @ CHR '':'' # ys = xs' @ CHR '':'' # ys'"
  shows "xs = xs' \<and> ys = ys'"
proof -
  have "list_all (\<lambda>c. c \<noteq> CHR '':'') zs" if "CHR '':'' \<notin> set zs" for zs using that by (induction zs) auto
  with takeWhile_digits [of "\<lambda>c. c \<noteq> CHR '':''" xs "CHR '':''" ys] takeWhile_digits [of "\<lambda>c. c \<noteq> CHR '':''" xs' "CHR '':''" ys'] assms
  show ?thesis by (metis list.inject)
qed

lemma no_colon: "CHR '':'' \<notin> set (show_nat n)" "CHR '':'' \<notin> set (show_i64 w)"
proof -
  show "CHR '':'' \<notin> set (show_nat n)" for n using show_nat_digits [of n] not_digit(1) by (auto simp: list_all_iff)
  then show "CHR '':'' \<notin> set (show_i64 w)" by (simp add: show_i64_def)
qed

text \<open>C30: The signed message binds the timestamp, the nonce and the method: two requests that differ in
  one of them are signed over different texts. The numbers of a request survive the headers: reading
  back what a client writes in decimal gives its context.\<close>

theorem auth_message_binds:
  "(auth_message ts nonce meth = auth_message ts' nonce' meth' \<longleftrightarrow> ts = ts' \<and> nonce = nonce' \<and> meth = meth')
   \<and> auth_context_of dec (Map.empty(''x-session-id'' \<mapsto> Some sid, ''x-timestamp'' \<mapsto> Some (show_i64 ts),
        ''x-nonce'' \<mapsto> Some (show_nat (unat nonce)), ''x-signature'' \<mapsto> Some sig)) =
      (case dec sig of None \<Rightarrow> Inl (Header_invalid ''x-signature'')
       | Some bs \<Rightarrow> Inr \<lparr>ctx_session_id = sid, ctx_timestamp = ts, ctx_nonce = nonce, ctx_signature = bs\<rparr>)"
proof
  show "auth_message ts nonce meth = auth_message ts' nonce' meth' \<longleftrightarrow> ts = ts' \<and> nonce = nonce' \<and> meth = meth'"
  proof
    assume eq: "auth_message ts nonce meth = auth_message ts' nonce' meth'"
    have outer: "show_i64 ts = show_i64 ts' \<and> show_nat (unat nonce) @ CHR '':'' # meth = show_nat (unat nonce') @ CHR '':'' # meth'"
      by (rule split_at_colon [OF no_colon(2) no_colon(2)]) (use eq in \<open>simp add: auth_message_def\<close>)
    have "show_nat (unat nonce) = show_nat (unat nonce') \<and> meth = meth'"
      by (rule split_at_colon [OF no_colon(1) no_colon(1)]) (use outer in simp)
    with outer have "show_i64 ts = show_i64 ts'" "show_nat (unat nonce) = show_nat (unat nonce')" "meth = meth'" by blast+
    then show "ts = ts' \<and> nonce = nonce' \<and> meth = meth'"
      by (metis parse_show_i64 parse_show_u64 option.inject)
  qed simp
  let ?m = "Map.empty(''x-session-id'' \<mapsto> Some sid, ''x-timestamp'' \<mapsto> Some (show_i64 ts),
        ''x-nonce'' \<mapsto> Some (show_nat (unat nonce)), ''x-signature'' \<mapsto> Some sig)"
  have "header ?m ''x-session-id'' Some = Inr sid" "header ?m ''x-timestamp'' parse_i64 = Inr ts"
    "header ?m ''x-nonce'' parse_u64 = Inr nonce"
    "header ?m ''x-signature'' dec = (case dec sig of None \<Rightarrow> Inl (Header_invalid ''x-signature'') | Some bs \<Rightarrow> Inr bs)"
    by (simp_all add: header_def parse_show_i64 parse_show_u64)
  then show "auth_context_of dec ?m = (case dec sig of None \<Rightarrow> Inl (Header_invalid ''x-signature'')
       | Some bs \<Rightarrow> Inr \<lparr>ctx_session_id = sid, ctx_timestamp = ts, ctx_nonce = nonce, ctx_signature = bs\<rparr>)"
    by (simp add: auth_context_of_def split: option.split)
qed

section \<open>The window\<close>

lemma sint_diff: "sint (a - b) = (let d = sint a - sint b in if d < - (2 ^ 63) then d + 2 ^ 64 else if d \<ge> 2 ^ 63 then d - 2 ^ 64 else d)"
  for a b :: u64
proof -
  have "sint (a - b) = (sint a - sint b + 2 ^ 63) mod 2 ^ 64 - 2 ^ 63"
    by (simp add: sint_word_ariths signed_take_bit_eq_take_bit_shift take_bit_eq_mod)
  moreover have "(d + 2 ^ 63) mod 2 ^ 64 - 2 ^ 63 = (if d < - (2 ^ 63) then d + 2 ^ 64 else if d \<ge> 2 ^ 63 then d - 2 ^ 64 else d)"
    if d: "- (2 ^ 64) < d" "d < 2 ^ 64" for d :: int
  proof -
    consider "d < - (2 ^ 63)" | "- (2 ^ 63) \<le> d" "d < 2 ^ 63" | "2 ^ 63 \<le> d" by linarith
    then show ?thesis
    proof cases
      case 1
      then have "(d + 2 ^ 63 + 2 ^ 64) mod 2 ^ 64 = d + 2 ^ 63 + 2 ^ 64" using d by (intro mod_pos_pos_trivial) simp_all
      then show ?thesis using 1 mod_add_self2 [of "d + 2 ^ 63" "2 ^ 64"] by (simp del: mod_add_self2)
    next
      case 2
      then have "(d + 2 ^ 63) mod 2 ^ 64 = d + 2 ^ 63" by (intro mod_pos_pos_trivial) simp_all
      then show ?thesis using 2 by simp
    next
      case 3
      then have "(d + 2 ^ 63 - 2 ^ 64) mod 2 ^ 64 = d + 2 ^ 63 - 2 ^ 64" using d by (intro mod_pos_pos_trivial) simp_all
      then show ?thesis using 3 minus_mod_self2 [of "d + 2 ^ 63" "2 ^ 64"] by (simp del: minus_mod_self2)
    qed
  qed
  ultimately show ?thesis
    using sint_bounds [of a] sint_bounds [of b] by (simp add: Let_def)
qed

text \<open>C31: The time window is exact up to one value: with a clock between 1970 and the far future a timestamp
  is accepted if and only if it is at most 30 seconds off, or is the one timestamp half the range of
  the type away, whose difference has no absolute value in the type.\<close>

theorem window_exact:
  assumes "0 \<le> sint now" and "sint now < 2 ^ 62"
  shows "within_window now ts \<longleftrightarrow> \<bar>sint now - sint ts\<bar> \<le> 30 \<or> sint ts = sint now - 2 ^ 63"
proof -
  have neg: "sint (- w) = (if sint w = - (2 ^ 63) then sint w else - sint w)" for w :: u64
    using sint_diff [of 0 w] sint_bounds [of w] by (simp add: Let_def split: if_splits)
  have thirty: "sint TIMESTAMP_WINDOW_SECS = 30" by (simp add: TIMESTAMP_WINDOW_SECS_def)
  show ?thesis
    using assms sint_bounds [of ts]
    unfolding within_window_def i64_abs_def thirty if_distrib [of sint] neg sint_diff Let_def
    by (simp split: if_splits) linarith
qed

text \<open>Witness of C31: ten seconds off.\<close>

theorem window_exact_witness:
  "within_window 1000 1010 \<longleftrightarrow> \<bar>sint (1000 :: u64) - sint (1010 :: u64)\<bar> \<le> 30 \<or> sint (1010 :: u64) = sint (1000 :: u64) - 2 ^ 63"
  by (rule window_exact) simp_all

end
