(* ===== verification/Runner_Session.thy ===== *)
theory Runner_Session
  imports Runner_Auth
begin

text \<open>
  The session registry of the runner (\<open>crates/opsense-runner/src/session.rs\<close>) and the handlers of its
  service (\<open>server.rs\<close>). The kernel backend, the authentication and the clocks are arguments; the
  protobuf messages are the fields the handlers read. An iteration over the map of sessions visits
  its keys in the order \<open>iter\<close> gives.
\<close>

section \<open>Interfaces\<close>

record 'a auth_ops =
  verify_signature :: "string \<Rightarrow> string \<Rightarrow> u64 \<Rightarrow> u64 \<Rightarrow> bytes \<Rightarrow> 'a \<Rightarrow> (runner_error + bool) \<times> 'a"
  create_challenge :: "string \<Rightarrow> 'a \<Rightarrow> (runner_error + challenge) \<times> 'a"
  verify_challenge :: "string \<Rightarrow> bytes \<Rightarrow> bytes \<Rightarrow> 'a \<Rightarrow> (runner_error + bool) \<times> 'a"

definition local_ops :: "'k crypto \<Rightarrow> u64 \<Rightarrow> bytes \<Rightarrow> local_auth auth_ops" where
  "local_ops C now random =
     \<lparr>verify_signature = (\<lambda>sid meth ts nonce sig a. (local_verify_signature C now sid meth ts nonce sig, a)),
      create_challenge = (\<lambda>sid a. (local_create_challenge C random a, a)),
      verify_challenge = (\<lambda>sid expected response a. (same_plaintext expected response, a))\<rparr>"

definition remote_ops ::
    "bool \<Rightarrow> (string \<Rightarrow> u64) \<Rightarrow> lru_env \<Rightarrow> 'k crypto \<Rightarrow> (string \<Rightarrow> session_response option) \<Rightarrow> u64
     \<Rightarrow> (string, bytes) lru auth_ops" where
  "remote_ops shared hash env C post now =
     \<lparr>verify_signature = (\<lambda>sid meth ts nonce sig. remote_verify_signature shared hash env C post now sid meth ts nonce sig),
      create_challenge = (\<lambda>sid cache. (remote_create_challenge, cache)),
      verify_challenge = (\<lambda>sid expected response cache. (same_plaintext expected response, cache))\<rparr>"

record health_info =
  info_name :: string
  info_ok :: bool
  info_detail :: string
  info_packages :: "string list"

definition health_info_of :: "health_status \<Rightarrow> health_info" where
  "health_info_of h = \<lparr>info_name = status_name h, info_ok = status_ok h, info_detail = status_detail h,
     info_packages = map (\<lambda>(name, _, version). name @ '' '' @ version) (status_packages h)\<rparr>"

record 'b kernel_backend =
  bk_kind :: string
  bk_health :: "'b \<Rightarrow> runner_error + health_info"
  bk_start :: "session_params \<Rightarrow> 'b \<Rightarrow> (runner_error + string) \<times> 'b"
  bk_execute :: "string \<Rightarrow> code_request \<Rightarrow> 'b \<Rightarrow> (runner_error + exec_outcome) \<times> 'b"
  bk_interrupt :: "string \<Rightarrow> string \<Rightarrow> 'b \<Rightarrow> (runner_error + unit) \<times> 'b"
  bk_close :: "string \<Rightarrow> 'b \<Rightarrow> (runner_error + unit) \<times> 'b"
  bk_shutdown :: "'b \<Rightarrow> (runner_error + unit) \<times> 'b"

section \<open>State\<close>

text \<open>\<open>last_active\<close> counts on the monotonic clock, \<open>started_at\<close> on the wall clock.\<close>

record session_meta =
  last_active :: nat
  started_at :: nat
  session_labels :: "string \<rightharpoonup> string"
  role :: "string option"
  requested_role :: "string option"
  pending_challenge :: "bytes option"

record ('a, 'b) registry =
  sessions :: "string \<rightharpoonup> session_meta"
  auth_state :: 'a
  backend_state :: 'b

definition registry_new :: "'a \<Rightarrow> 'b \<Rightarrow> ('a, 'b) registry" where
  "registry_new a b = \<lparr>sessions = Map.empty, auth_state = a, backend_state = b\<rparr>"

section \<open>Operations\<close>

definition registry_touch :: "nat \<Rightarrow> string \<Rightarrow> ('a, 'b) registry \<Rightarrow> ('a, 'b) registry" where
  "registry_touch now sid r =
     (case sessions r sid of
        None \<Rightarrow> r
      | Some m \<Rightarrow> r\<lparr>sessions := (sessions r)(sid \<mapsto> m\<lparr>last_active := now\<rparr>)\<rparr>)"

text \<open>The signature check; \<open>start\<close> and \<open>close\<close> repeat it word for word with their method name.\<close>

definition verify_or_skip ::
    "'a auth_ops option \<Rightarrow> auth_context option \<Rightarrow> string \<Rightarrow> ('a, 'b) registry
     \<Rightarrow> (runner_error + unit) \<times> ('a, 'b) registry" where
  "verify_or_skip auth ctx meth r =
     (case auth of
        None \<Rightarrow> (Inr (), r)
      | Some A \<Rightarrow>
          (case ctx of
             None \<Rightarrow> (Inl Context_required, r)
           | Some c \<Rightarrow>
               (case verify_signature A (ctx_session_id c) meth (ctx_timestamp c) (ctx_nonce c) (ctx_signature c)
                       (auth_state r) of
                  (Inl e, a) \<Rightarrow> (Inl e, r\<lparr>auth_state := a\<rparr>)
                | (Inr ok, a) \<Rightarrow> (if ok then Inr () else Inl Auth_failed, r\<lparr>auth_state := a\<rparr>))))"

definition fresh_session :: "nat \<Rightarrow> nat \<Rightarrow> session_meta" where
  "fresh_session now utc = \<lparr>last_active = now, started_at = utc, session_labels = Map.empty,
     role = None, requested_role = None, pending_challenge = None\<rparr>"

definition registry_start ::
    "'a auth_ops option \<Rightarrow> 'b kernel_backend \<Rightarrow> nat \<Rightarrow> nat \<Rightarrow> session_params \<Rightarrow> auth_context option
     \<Rightarrow> ('a, 'b) registry \<Rightarrow> (runner_error + string) \<times> ('a, 'b) registry" where
  "registry_start auth B now utc params ctx r =
     (case verify_or_skip auth ctx ''Start'' r of
        (Inl e, r) \<Rightarrow> (Inl e, r)
      | (Inr _, r) \<Rightarrow>
          (case bk_start B params (backend_state r) of
             (Inl e, b) \<Rightarrow> (Inl e, r\<lparr>backend_state := b\<rparr>)
           | (Inr sid, b) \<Rightarrow>
               (Inr sid, r\<lparr>backend_state := b,
                  sessions := (sessions r)(sid \<mapsto> fresh_session now utc)\<rparr>)))"

definition attach_challenge ::
    "nat \<Rightarrow> string \<Rightarrow> bytes \<Rightarrow> string option \<Rightarrow> ('a, 'b) registry \<Rightarrow> ('a, 'b) registry" where
  "attach_challenge now sid pt wanted r =
     (case sessions r sid of
        None \<Rightarrow> r
      | Some m \<Rightarrow> r\<lparr>sessions := (sessions r)(sid \<mapsto>
          m\<lparr>pending_challenge := Some pt, requested_role := wanted, last_active := now\<rparr>)\<rparr>)"

text \<open>The two critical sections of \<open>verify_challenge\<close>, with the check of the response in between.\<close>

definition verify_begin ::
    "nat \<Rightarrow> string \<Rightarrow> ('a, 'b) registry \<Rightarrow> (runner_error + bytes) \<times> ('a, 'b) registry" where
  "verify_begin now sid r =
     (case sessions r sid of
        None \<Rightarrow> (Inl Session_not_found, r)
      | Some m \<Rightarrow>
          (case pending_challenge m of None \<Rightarrow> Inl No_pending_challenge | Some pt \<Rightarrow> Inr pt,
           r\<lparr>sessions := (sessions r)(sid \<mapsto> m\<lparr>last_active := now, pending_challenge := None\<rparr>)\<rparr>))"

definition restore_challenge :: "string \<Rightarrow> bytes \<Rightarrow> ('a, 'b) registry \<Rightarrow> ('a, 'b) registry" where
  "restore_challenge sid pt r =
     (case sessions r sid of
        None \<Rightarrow> r
      | Some m \<Rightarrow> r\<lparr>sessions := (sessions r)(sid \<mapsto> m\<lparr>pending_challenge := Some pt\<rparr>)\<rparr>)"

definition promote_role :: "string \<Rightarrow> ('a, 'b) registry \<Rightarrow> string option \<times> ('a, 'b) registry" where
  "promote_role sid r =
     (case sessions r sid of
        None \<Rightarrow> (None, r)
      | Some m \<Rightarrow>
          (requested_role m,
           r\<lparr>sessions := (sessions r)(sid \<mapsto> m\<lparr>role := requested_role m, requested_role := None\<rparr>)\<rparr>))"

definition verify_end ::
    "'a auth_ops option \<Rightarrow> string \<Rightarrow> bytes \<Rightarrow> bytes \<Rightarrow> ('a, 'b) registry
     \<Rightarrow> (runner_error + string option) \<times> ('a, 'b) registry" where
  "verify_end auth sid pt response r =
     (case auth of
        None \<Rightarrow> (Inl Auth_not_configured, r)
      | Some A \<Rightarrow>
          (case verify_challenge A sid pt response (auth_state r) of
             (Inl e, a) \<Rightarrow> (Inl e, r\<lparr>auth_state := a\<rparr>)
           | (Inr ok, a) \<Rightarrow>
               if \<not> ok then (Inr None, restore_challenge sid pt (r\<lparr>auth_state := a\<rparr>))
               else let (granted, r) = promote_role sid (r\<lparr>auth_state := a\<rparr>) in (Inr granted, r)))"

definition registry_verify ::
    "'a auth_ops option \<Rightarrow> nat \<Rightarrow> string \<Rightarrow> bytes \<Rightarrow> ('a, 'b) registry
     \<Rightarrow> (runner_error + string option) \<times> ('a, 'b) registry" where
  "registry_verify auth now sid response r =
     (case verify_begin now sid r of
        (Inl e, r) \<Rightarrow> (Inl e, r)
      | (Inr pt, r) \<Rightarrow> verify_end auth sid pt response r)"

definition registry_close ::
    "'a auth_ops option \<Rightarrow> 'b kernel_backend \<Rightarrow> nat \<Rightarrow> string \<Rightarrow> auth_context option
     \<Rightarrow> ('a, 'b) registry \<Rightarrow> (runner_error + unit) \<times> ('a, 'b) registry" where
  "registry_close auth B now sid ctx r =
     (case verify_or_skip auth ctx ''Close'' r of
        (Inl e, r) \<Rightarrow> (Inl e, r)
      | (Inr _, r) \<Rightarrow>
          let r = registry_touch now sid r in
          (case bk_close B sid (backend_state r) of
             (Inl e, b) \<Rightarrow> (Inl e, r\<lparr>backend_state := b\<rparr>)
           | (Inr _, b) \<Rightarrow> (Inr (), r\<lparr>backend_state := b, sessions := (sessions r)(sid := None)\<rparr>)))"

definition registry_execute ::
    "'a auth_ops option \<Rightarrow> 'b kernel_backend \<Rightarrow> nat \<Rightarrow> string \<Rightarrow> code_request \<Rightarrow> auth_context option
     \<Rightarrow> ('a, 'b) registry \<Rightarrow> (runner_error + exec_outcome) \<times> ('a, 'b) registry" where
  "registry_execute auth B now sid req ctx r =
     (case verify_or_skip auth ctx ''Execute'' r of
        (Inl e, r) \<Rightarrow> (Inl e, r)
      | (Inr _, r) \<Rightarrow>
          let r = registry_touch now sid r; (x, b) = bk_execute B sid req (backend_state r)
          in (x, r\<lparr>backend_state := b\<rparr>))"

definition registry_interrupt ::
    "'a auth_ops option \<Rightarrow> 'b kernel_backend \<Rightarrow> nat \<Rightarrow> string \<Rightarrow> string \<Rightarrow> auth_context option
     \<Rightarrow> ('a, 'b) registry \<Rightarrow> (runner_error + unit) \<times> ('a, 'b) registry" where
  "registry_interrupt auth B now sid rid ctx r =
     (case verify_or_skip auth ctx ''Interrupt'' r of
        (Inl e, r) \<Rightarrow> (Inl e, r)
      | (Inr _, r) \<Rightarrow>
          let r = registry_touch now sid r; (x, b) = bk_interrupt B sid rid (backend_state r)
          in (x, r\<lparr>backend_state := b\<rparr>))"

definition registry_health :: "'b kernel_backend \<Rightarrow> ('a, 'b) registry \<Rightarrow> runner_error + health_info" where
  "registry_health B r = bk_health B (backend_state r)"

definition list_sessions :: "(string set \<Rightarrow> string list) \<Rightarrow> ('a, 'b) registry \<Rightarrow> string list" where
  "list_sessions iter r = iter (dom (sessions r))"

definition close_all ::
    "'b kernel_backend \<Rightarrow> (string set \<Rightarrow> string list) \<Rightarrow> ('a, 'b) registry \<Rightarrow> ('a, 'b) registry" where
  "close_all B iter r =
     r\<lparr>backend_state := snd (bk_shutdown B (fold (\<lambda>sid b. snd (bk_close B sid b)) (iter (dom (sessions r))) (backend_state r)))\<rparr>"

text \<open>One round of the sweeper: collect under the lock, then close and remove one by one.\<close>

definition expired :: "nat \<Rightarrow> nat \<Rightarrow> ('a, 'b) registry \<Rightarrow> string set" where
  "expired now idle r = {sid. case sessions r sid of None \<Rightarrow> False | Some m \<Rightarrow> now - last_active m > idle}"

definition sweep_one :: "'b kernel_backend \<Rightarrow> string \<Rightarrow> ('a, 'b) registry \<Rightarrow> ('a, 'b) registry" where
  "sweep_one B sid r =
     r\<lparr>backend_state := snd (bk_close B sid (backend_state r)), sessions := (sessions r)(sid := None)\<rparr>"

definition sweep ::
    "'b kernel_backend \<Rightarrow> (string set \<Rightarrow> string list) \<Rightarrow> nat \<Rightarrow> nat \<Rightarrow> ('a, 'b) registry \<Rightarrow> ('a, 'b) registry" where
  "sweep B iter now idle r = fold (sweep_one B) (iter (expired now idle r)) r"

section \<open>The service\<close>

text \<open>A session handle is the id and the ciphertext of the challenge. An error is a status.\<close>

definition serve_start ::
    "'a auth_ops option \<Rightarrow> 'b kernel_backend \<Rightarrow> nat \<Rightarrow> nat \<Rightarrow> session_params \<Rightarrow> auth_context option
     \<Rightarrow> ('a, 'b) registry \<Rightarrow> (runner_error + string \<times> bytes) \<times> ('a, 'b) registry" where
  "serve_start auth B now utc params ctx r =
     (case registry_start auth B now utc params ctx r of
        (Inl e, r) \<Rightarrow> (Inl e, r)
      | (Inr sid, r) \<Rightarrow>
          if require_challenge params then
            (case auth of
               None \<Rightarrow> (Inl Auth_not_configured, r)
             | Some A \<Rightarrow>
                 (case create_challenge A sid (auth_state r) of
                    (Inl e, a) \<Rightarrow> (Inl e, r\<lparr>auth_state := a\<rparr>)
                  | (Inr c, a) \<Rightarrow>
                      (Inr (sid, ciphertext c),
                       attach_challenge now sid (plaintext c) (Some (params_role params)) (r\<lparr>auth_state := a\<rparr>))))
          else (Inr (sid, []), r))"

text \<open>The answer of \<open>verify\<close>: whether it succeeded, the role and the error.\<close>

definition serve_verify ::
    "'a auth_ops option \<Rightarrow> nat \<Rightarrow> string \<Rightarrow> bytes \<Rightarrow> ('a, 'b) registry
     \<Rightarrow> (bool \<times> string \<times> runner_error option) \<times> ('a, 'b) registry" where
  "serve_verify auth now sid response r =
     (case registry_verify auth now sid response r of
        (Inr (Some granted), r) \<Rightarrow> ((True, granted, None), r)
      | (Inr None, r) \<Rightarrow> ((False, [], Some No_pending_challenge), r)
      | (Inl e, r) \<Rightarrow> ((False, [], Some e), r))"

text \<open>The stream of an execution: what the backend reported, its summary again, and one \<open>Done\<close>.\<close>

definition is_done_event :: "exec_event \<Rightarrow> bool" where
  "is_done_event e = (case event_payload e of Some (Done _) \<Rightarrow> True | _ \<Rightarrow> False)"

definition execute_stream :: "code_request \<Rightarrow> exec_outcome \<Rightarrow> exec_event list" where
  "execute_stream req out =
     filter (\<lambda>e. \<not> is_done_event e) (outcome_events out)
     @ map (\<lambda>p. \<lparr>event_request_id = request_id req, event_payload = Some p\<rparr>)
        ((case outcome_value out of Some v \<Rightarrow> [Result_value v] | None \<Rightarrow> [])
         @ (if timed_out out then [Error_event ''timeout'' ''host deadline elapsed; interrupt delivered''] else [])
         @ (case outcome_error out of Some (kind, msg) \<Rightarrow> [Error_event kind msg] | None \<Rightarrow> [])
         @ [Done True])"

definition serve_execute ::
    "'a auth_ops option \<Rightarrow> 'b kernel_backend \<Rightarrow> nat \<Rightarrow> code_request \<Rightarrow> auth_context option
     \<Rightarrow> ('a, 'b) registry \<Rightarrow> (runner_error + exec_event list) \<times> ('a, 'b) registry" where
  "serve_execute auth B now req ctx r =
     (case registry_execute auth B now (request_session_id req) req ctx r of
        (Inl e, r) \<Rightarrow> (Inl e, r)
      | (Inr out, r) \<Rightarrow> (Inr (execute_stream req out), r))"

text \<open>The acknowledgements of \<open>interrupt\<close> and \<open>close\<close>.\<close>

definition serve_interrupt ::
    "'a auth_ops option \<Rightarrow> 'b kernel_backend \<Rightarrow> nat \<Rightarrow> string \<Rightarrow> string \<Rightarrow> auth_context option
     \<Rightarrow> ('a, 'b) registry \<Rightarrow> (runner_error + bool \<times> string) \<times> ('a, 'b) registry" where
  "serve_interrupt auth B now sid rid ctx r =
     (let (x, r) = registry_interrupt auth B now sid rid ctx r in (map_sum id (\<lambda>_. (True, [])) x, r))"

definition serve_close ::
    "'a auth_ops option \<Rightarrow> 'b kernel_backend \<Rightarrow> nat \<Rightarrow> string \<Rightarrow> auth_context option
     \<Rightarrow> ('a, 'b) registry \<Rightarrow> (runner_error + bool \<times> string) \<times> ('a, 'b) registry" where
  "serve_close auth B now sid ctx r =
     (let (x, r) = registry_close auth B now sid ctx r in (map_sum id (\<lambda>_. (True, [])) x, r))"

text \<open>A ping always answers; it keeps the session alive only with a valid signature.\<close>

definition serve_ping ::
    "'a auth_ops option \<Rightarrow> nat \<Rightarrow> string \<Rightarrow> auth_context option \<Rightarrow> ('a, 'b) registry \<Rightarrow> bool \<times> ('a, 'b) registry" where
  "serve_ping auth now sid ctx r =
     (True,
      case (ctx, auth) of
        (Some c, Some A) \<Rightarrow>
          (case verify_signature A (ctx_session_id c) ''Ping'' (ctx_timestamp c) (ctx_nonce c) (ctx_signature c) (auth_state r) of
             (Inr ok, a) \<Rightarrow> if ok then registry_touch now sid (r\<lparr>auth_state := a\<rparr>) else r\<lparr>auth_state := a\<rparr>
           | (Inl e, a) \<Rightarrow> r\<lparr>auth_state := a\<rparr>)
      | _ \<Rightarrow> r)"

section \<open>Interleaved requests\<close>

text \<open>
  The registry under concurrent requests: every step is one critical section (or a change of the
  state of the backend or of the authentication), so that any number of requests and the sweeper
  interleave between them. \<open>pending_checks\<close> are the verifications between their two critical sections;
  \<open>attached\<close> and \<open>answered\<close> record what happened. Challenges are random: none is issued twice.
\<close>

record ('a, 'b) races =
  reg :: "('a, 'b) registry"
  pending_checks :: "(string \<times> bytes \<times> bytes) list"
  attached :: "(string \<times> bytes \<times> string option) list"
  answered :: "(string \<times> bytes \<times> bytes) list"

definition races_new :: "'a \<Rightarrow> 'b \<Rightarrow> ('a, 'b) races" where
  "races_new a b = \<lparr>reg = registry_new a b, pending_checks = [], attached = [], answered = []\<rparr>"

inductive race_step :: "'a auth_ops option \<Rightarrow> ('a, 'b) races \<Rightarrow> ('a, 'b) races \<Rightarrow> bool" for auth where
  step_insert: "race_step auth s (s\<lparr>reg := (reg s)\<lparr>sessions := (sessions (reg s))(sid \<mapsto> fresh_session now utc)\<rparr>\<rparr>)"
| step_attach: "pt \<notin> (\<lambda>(_, p, _). p) ` set (attached s) \<Longrightarrow>
    race_step auth s (s\<lparr>reg := attach_challenge now sid pt wanted (reg s), attached := (sid, pt, wanted) # attached s\<rparr>)"
| step_begin: "verify_begin now sid (reg s) = (Inr pt, r) \<Longrightarrow>
    race_step auth s (s\<lparr>reg := r, pending_checks := (sid, pt, response) # pending_checks s\<rparr>)"
| step_begin_fails: "verify_begin now sid (reg s) = (Inl e, r) \<Longrightarrow> race_step auth s (s\<lparr>reg := r\<rparr>)"
| step_refused: "pending_checks s = xs @ (sid, pt, response) # ys \<Longrightarrow> verify_end auth sid pt response (reg s) = (x, r) \<Longrightarrow>
    (\<forall>A a. auth = Some A \<longrightarrow> verify_challenge A sid pt response (auth_state (reg s)) \<noteq> (Inr True, a)) \<Longrightarrow>
    race_step auth s (s\<lparr>reg := r, pending_checks := xs @ ys\<rparr>)"
| step_accepted: "pending_checks s = xs @ (sid, pt, response) # ys \<Longrightarrow> verify_end auth sid pt response (reg s) = (x, r) \<Longrightarrow>
    auth = Some A \<Longrightarrow> verify_challenge A sid pt response (auth_state (reg s)) = (Inr True, a) \<Longrightarrow>
    race_step auth s (s\<lparr>reg := r, pending_checks := xs @ ys, answered := (sid, pt, response) # answered s\<rparr>)"
| step_touch: "race_step auth s (s\<lparr>reg := registry_touch now sid (reg s)\<rparr>)"
| step_remove: "race_step auth s (s\<lparr>reg := (reg s)\<lparr>sessions := (sessions (reg s))(sid := None)\<rparr>\<rparr>)"
| step_outside: "race_step auth s (s\<lparr>reg := (reg s)\<lparr>auth_state := a, backend_state := b\<rparr>\<rparr>)"

inductive race_reach :: "'a auth_ops option \<Rightarrow> 'a \<Rightarrow> 'b \<Rightarrow> ('a, 'b) races \<Rightarrow> bool" for auth a0 b0 where
  reach_init: "race_reach auth a0 b0 (races_new a0 b0)"
| reach_step: "race_reach auth a0 b0 s \<Longrightarrow> race_step auth s s' \<Longrightarrow> race_reach auth a0 b0 s'"

text \<open>What an authentication promises about responses.\<close>

locale challenge_checker =
  fixes check :: "string \<Rightarrow> bytes \<Rightarrow> bytes \<Rightarrow> 'a \<Rightarrow> (runner_error + bool) \<times> 'a"
  assumes accepts_equal: "check sid expected response a = (Inr True, a') \<Longrightarrow> expected = response"

interpretation local_checker: challenge_checker "verify_challenge (local_ops C now random)"
  by unfold_locales (simp add: local_ops_def same_plaintext_def)

interpretation remote_checker: challenge_checker "verify_challenge (remote_ops shared hash env C post now)"
  by unfold_locales (simp add: remote_ops_def same_plaintext_def)

section \<open>Challenges and roles\<close>

text \<open>Where a session's fields may come from.\<close>

definition meta_ok :: "(string \<times> bytes \<times> string option) set \<Rightarrow> (string \<times> bytes \<times> bytes) set \<Rightarrow> bytes set \<Rightarrow> string \<Rightarrow> session_meta \<Rightarrow> bool" where
  "meta_ok at an used sid m =
     ((\<forall>pt. pending_challenge m = Some pt \<longrightarrow> (\<exists>w. (sid, pt, w) \<in> at) \<and> pt \<notin> used)
      \<and> (\<forall>q. requested_role m = Some q \<longrightarrow> (\<exists>pt. (sid, pt, Some q) \<in> at))
      \<and> (\<forall>q. role m = Some q \<longrightarrow> (\<exists>pt. (sid, pt, pt) \<in> an) \<and> (\<exists>pt. (sid, pt, Some q) \<in> at)))"

definition challenge_of :: "string \<times> bytes \<times> 'x \<Rightarrow> bytes" where "challenge_of e = fst (snd e)"

definition races_ok :: "('a, 'b) races \<Rightarrow> bool" where
  "races_ok s =
     (distinct (map challenge_of (attached s))
      \<and> distinct (map challenge_of (pending_checks s) @ map challenge_of (answered s))
      \<and> (\<forall>(sid, pt, _) \<in> set (pending_checks s) \<union> set (answered s). \<exists>w. (sid, pt, w) \<in> set (attached s))
      \<and> (\<forall>(_, pt, response) \<in> set (answered s). pt = response)
      \<and> (\<forall>sid m. sessions (reg s) sid = Some m \<longrightarrow>
           meta_ok (set (attached s)) (set (answered s)) (challenge_of ` (set (pending_checks s) \<union> set (answered s))) sid m))"

lemma meta_ok_mono: "meta_ok at an used sid m \<Longrightarrow> at \<subseteq> at' \<Longrightarrow> an \<subseteq> an' \<Longrightarrow> used' \<subseteq> used \<Longrightarrow> meta_ok at' an' used' sid m"
  unfolding meta_ok_def by blast

lemma meta_ok_touch: "meta_ok at an used sid (m\<lparr>last_active := now\<rparr>) = meta_ok at an used sid m"
  by (simp add: meta_ok_def)

lemma registry_frame [simp]:
  "sessions (r\<lparr>auth_state := a\<rparr>) = sessions r" "sessions (r\<lparr>backend_state := b\<rparr>) = sessions r"
  by simp_all

lemma races_new_ok: "races_ok (races_new a b)"
  by (simp add: races_ok_def races_new_def registry_new_def)

lemma step_sessions_ok:
  assumes "races_ok s" "\<And>sid m. sessions r sid = Some m \<Longrightarrow>
    meta_ok (set (attached s)) (set (answered s)) (challenge_of ` (set (pending_checks s) \<union> set (answered s))) sid m"
  shows "races_ok (s\<lparr>reg := r\<rparr>)"
  using assms by (simp add: races_ok_def)

lemma races_okD:
  assumes "races_ok s" "sessions (reg s) sid = Some m"
  shows "meta_ok (set (attached s)) (set (answered s)) (challenge_of ` (set (pending_checks s) \<union> set (answered s))) sid m"
  using assms by (simp add: races_ok_def)

lemma races_ok_attached:
  assumes "races_ok s" "(i, pt, x) \<in> set (pending_checks s) \<union> set (answered s)"
  shows "\<exists>w. (i, pt, w) \<in> set (attached s)"
proof -
  have "\<forall>(sid, pt, _) \<in> set (pending_checks s) \<union> set (answered s). \<exists>w. (sid, pt, w) \<in> set (attached s)"
    using assms(1) by (simp add: races_ok_def)
  from bspec [OF this assms(2)] show ?thesis by simp
qed

lemma attach_ok:
  assumes ok: "races_ok s" and fresh: "pt \<notin> (\<lambda>(_, p, _). p) ` set (attached s)"
  shows "races_ok (s\<lparr>reg := attach_challenge now sid pt wanted (reg s), attached := (sid, pt, wanted) # attached s\<rparr>)"
proof -
  have new: "pt \<notin> challenge_of ` set (attached s)" using fresh by (simp add: challenge_of_def case_prod_unfold)
  have used: "pt \<notin> challenge_of ` (set (pending_checks s) \<union> set (answered s))"
  proof
    assume "pt \<in> challenge_of ` (set (pending_checks s) \<union> set (answered s))"
    then obtain i x where "(i, pt, x) \<in> set (pending_checks s) \<union> set (answered s)" by (force simp: challenge_of_def)
    then obtain w where "(i, pt, w) \<in> set (attached s)" using races_ok_attached [OF ok] by blast
    with new show False by (force simp: challenge_of_def)
  qed
  have "meta_ok (insert (sid, pt, wanted) (set (attached s))) (set (answered s)) (challenge_of ` (set (pending_checks s) \<union> set (answered s))) i m"
    if m: "sessions (attach_challenge now sid pt wanted (reg s)) i = Some m" for i m
  proof (cases "i = sid \<and> sessions (reg s) sid \<noteq> None")
    case True
    then obtain m0 where m0: "sessions (reg s) sid = Some m0" by auto
    then have "m = m0\<lparr>pending_challenge := Some pt, requested_role := wanted, last_active := now\<rparr>"
      using m True by (simp add: attach_challenge_def)
    then show ?thesis using races_okD [OF ok m0] True used by (auto simp: meta_ok_def)
  next
    case False
    then have "sessions (reg s) i = Some m" using m by (auto simp: attach_challenge_def split: option.splits if_splits)
    from races_okD [OF ok this] show ?thesis by (rule meta_ok_mono) auto
  qed
  moreover have "distinct (map challenge_of ((sid, pt, wanted) # attached s))"
    using ok new by (simp add: races_ok_def challenge_of_def)
  moreover have "\<forall>(sid', pt', _) \<in> set (pending_checks s) \<union> set (answered s). \<exists>w. (sid', pt', w) \<in> set ((sid, pt, wanted) # attached s)"
    using races_ok_attached [OF ok] by (auto, blast+)
  ultimately show ?thesis using ok unfolding races_ok_def by simp
qed

lemma begin_ok:
  assumes ok: "races_ok s" and b: "verify_begin now sid (reg s) = (Inr pt, r)"
  shows "races_ok (s\<lparr>reg := r, pending_checks := (sid, pt, response) # pending_checks s\<rparr>)"
proof -
  obtain m0 where m0: "sessions (reg s) sid = Some m0" "pending_challenge m0 = Some pt"
    and r: "r = (reg s)\<lparr>sessions := (sessions (reg s))(sid \<mapsto> m0\<lparr>last_active := now, pending_challenge := None\<rparr>)\<rparr>"
    using b by (auto simp: verify_begin_def split: option.splits)
  note mo = races_okD [OF ok m0(1)]
  obtain w where w: "(sid, pt, w) \<in> set (attached s)" and unused: "pt \<notin> challenge_of ` (set (pending_checks s) \<union> set (answered s))"
    using mo m0(2) by (auto simp: meta_ok_def)
  have "meta_ok (set (attached s)) (set (answered s)) (insert pt (challenge_of ` (set (pending_checks s) \<union> set (answered s)))) i m"
    if m: "sessions r i = Some m" for i m
  proof (cases "i = sid")
    case True
    then show ?thesis using m r mo by (auto simp: meta_ok_def)
  next
    case False
    then have mi: "sessions (reg s) i = Some m" using m r by simp
    have "pending_challenge m \<noteq> Some pt"
    proof
      assume "pending_challenge m = Some pt"
      then obtain w' where "(i, pt, w') \<in> set (attached s)" using races_okD [OF ok mi] by (auto simp: meta_ok_def)
      moreover have "inj_on challenge_of (set (attached s))" using ok by (simp add: races_ok_def distinct_map)
      ultimately show False using w False unfolding inj_on_def challenge_of_def by fastforce
    qed
    then show ?thesis using races_okD [OF ok mi] by (auto simp: meta_ok_def)
  qed
  with ok w unused show ?thesis unfolding races_ok_def by (auto simp: challenge_of_def image_Un)
qed

text \<open>A check that ends: its challenge leaves the checks, and is answered, restored or lost.\<close>

lemma end_places:
  assumes ok: "races_ok s" and pc: "pending_checks s = xs @ (sid, pt, response) # ys"
  shows "distinct (map challenge_of (xs @ ys) @ map challenge_of (answered s))"
    and "pt \<notin> challenge_of ` (set (xs @ ys) \<union> set (answered s))"
    and "\<exists>w. (sid, pt, w) \<in> set (attached s)"
    and "challenge_of ` (set (pending_checks s) \<union> set (answered s)) = insert pt (challenge_of ` (set (xs @ ys) \<union> set (answered s)))"
  using ok by (auto simp: races_ok_def pc challenge_of_def)

lemma refused_ok:
  assumes ok: "races_ok s" and pc: "pending_checks s = xs @ (sid, pt, response) # ys"
    and r: "\<And>i m. sessions r i = Some m \<Longrightarrow> sessions (reg s) i = Some m \<or>
      i = sid \<and> (\<exists>m0. sessions (reg s) sid = Some m0 \<and> m = m0\<lparr>pending_challenge := Some pt\<rparr>)"
  shows "races_ok (s\<lparr>reg := r, pending_checks := xs @ ys\<rparr>)"
proof -
  note places = end_places [OF ok pc]
  let ?used = "challenge_of ` (set (xs @ ys) \<union> set (answered s))"
  have "meta_ok (set (attached s)) (set (answered s)) ?used i m" if m: "sessions r i = Some m" for i m
    using r [OF m]
  proof
    assume "sessions (reg s) i = Some m"
    from meta_ok_mono [OF races_okD [OF ok this]] places(4) show ?thesis by blast
  next
    assume "i = sid \<and> (\<exists>m0. sessions (reg s) sid = Some m0 \<and> m = m0\<lparr>pending_challenge := Some pt\<rparr>)"
    then obtain m0 where i: "i = sid" and m0: "sessions (reg s) sid = Some m0" "m = m0\<lparr>pending_challenge := Some pt\<rparr>" by blast
    from races_okD [OF ok m0(1)] show ?thesis
      using places(2,3) by (simp add: meta_ok_def i m0(2))
  qed
  then show ?thesis
    using ok places(1) unfolding races_ok_def pc by auto
qed

lemma accepted_ok:
  assumes ok: "races_ok s" and pc: "pending_checks s = xs @ (sid, pt, pt) # ys"
    and r: "\<And>i m. sessions r i = Some m \<Longrightarrow> sessions (reg s) i = Some m \<or>
      i = sid \<and> (\<exists>m0. sessions (reg s) sid = Some m0 \<and> m = m0\<lparr>role := requested_role m0, requested_role := None\<rparr>)"
  shows "races_ok (s\<lparr>reg := r, pending_checks := xs @ ys, answered := (sid, pt, pt) # answered s\<rparr>)"
proof -
  note places = end_places [OF ok pc]
  let ?used = "challenge_of ` (set (xs @ ys) \<union> set ((sid, pt, pt) # answered s))"
  have used: "?used = challenge_of ` (set (pending_checks s) \<union> set (answered s))"
    unfolding places(4) by (auto simp: challenge_of_def)
  have "meta_ok (set (attached s)) (set ((sid, pt, pt) # answered s)) ?used i m" if m: "sessions r i = Some m" for i m
    using r [OF m]
  proof
    assume "sessions (reg s) i = Some m"
    from races_okD [OF ok this] show ?thesis unfolding used by (rule meta_ok_mono) auto
  next
    assume "i = sid \<and> (\<exists>m0. sessions (reg s) sid = Some m0 \<and> m = m0\<lparr>role := requested_role m0, requested_role := None\<rparr>)"
    then obtain m0 where i: "i = sid" and m0: "sessions (reg s) sid = Some m0" "m = m0\<lparr>role := requested_role m0, requested_role := None\<rparr>" by blast
    from races_okD [OF ok m0(1)] show ?thesis
      unfolding used by (auto simp: meta_ok_def i m0(2))
  qed
  moreover have "distinct (map challenge_of (xs @ ys) @ map challenge_of ((sid, pt, pt) # answered s))"
    using places(1,2) by (auto simp: challenge_of_def)
  ultimately show ?thesis
    using ok unfolding races_ok_def pc by auto
qed

lemma race_step_ok:
  assumes ok: "races_ok s" and step: "race_step auth s s'"
    and checks: "\<And>A. auth = Some A \<Longrightarrow> challenge_checker (verify_challenge A)"
  shows "races_ok s'"
  using step
proof cases
  case (step_insert sid now utc)
  then show ?thesis using races_okD [OF ok] by (auto intro!: step_sessions_ok [OF ok] simp: meta_ok_def fresh_session_def split: if_splits)
next
  case (step_attach pt now sid wanted)
  with attach_ok [OF ok] show ?thesis by blast
next
  case (step_begin now sid pt r response)
  with begin_ok [OF ok] show ?thesis by blast
next
  case (step_begin_fails now sid e r)
  have "meta_ok (set (attached s)) (set (answered s)) (challenge_of ` (set (pending_checks s) \<union> set (answered s))) i m"
    if m: "sessions r i = Some m" for i m
  proof -
    have "sessions (reg s) i = Some m \<or> i = sid \<and> (\<exists>m0. sessions (reg s) sid = Some m0 \<and> m = m0\<lparr>last_active := now, pending_challenge := None\<rparr>)"
      using step_begin_fails(2) m by (auto simp: verify_begin_def split: option.splits if_splits)
    then show ?thesis
    proof
      assume "i = sid \<and> (\<exists>m0. sessions (reg s) sid = Some m0 \<and> m = m0\<lparr>last_active := now, pending_challenge := None\<rparr>)"
      then obtain m0 where m0: "i = sid" "sessions (reg s) sid = Some m0" "m = m0\<lparr>last_active := now, pending_challenge := None\<rparr>" by blast
      from races_okD [OF ok m0(2)] show ?thesis by (simp add: meta_ok_def m0(1,3))
    qed (rule races_okD [OF ok])
  qed
  with step_begin_fails step_sessions_ok [OF ok] show ?thesis by blast
next
  case (step_refused xs sid pt response ys x r)
  have "sessions r i = Some m \<Longrightarrow> sessions (reg s) i = Some m \<or>
      i = sid \<and> (\<exists>m0. sessions (reg s) sid = Some m0 \<and> m = m0\<lparr>pending_challenge := Some pt\<rparr>)" for i m
    using step_refused(3,4)
    by (auto simp: verify_end_def restore_challenge_def split: option.splits prod.splits sum.splits if_splits)
  with step_refused refused_ok [OF ok] show ?thesis by blast
next
  case (step_accepted xs sid pt response ys x r A a)
  then have "pt = response" using challenge_checker.accepts_equal [OF checks] by blast
  moreover have "sessions r i = Some m \<Longrightarrow> sessions (reg s) i = Some m \<or>
      i = sid \<and> (\<exists>m0. sessions (reg s) sid = Some m0 \<and> m = m0\<lparr>role := requested_role m0, requested_role := None\<rparr>)" for i m
    using step_accepted(3-5)
    by (auto simp: verify_end_def promote_role_def split: option.splits if_splits)
  ultimately show ?thesis using step_accepted accepted_ok [OF ok] by blast
next
  case (step_touch now sid)
  have "meta_ok (set (attached s)) (set (answered s)) (challenge_of ` (set (pending_checks s) \<union> set (answered s))) i m"
    if "sessions (registry_touch now sid (reg s)) i = Some m" for i m
    using that races_okD [OF ok]
    by (auto simp: registry_touch_def meta_ok_touch split: option.splits if_splits)
  with step_touch step_sessions_ok [OF ok] show ?thesis by blast
next
  case (step_remove sid)
  then show ?thesis using races_okD [OF ok] by (auto intro!: step_sessions_ok [OF ok] split: if_splits)
next
  case (step_outside a b)
  then show ?thesis using races_okD [OF ok] by (auto intro!: step_sessions_ok [OF ok])
qed

lemma race_reach_ok:
  assumes "race_reach auth a b s" and "\<And>A. auth = Some A \<Longrightarrow> challenge_checker (verify_challenge A)"
  shows "races_ok s"
  using assms by (induction rule: race_reach.induct) (auto intro: races_new_ok race_step_ok)

section \<open>Calls are runs\<close>

text \<open>What a call does to the registry is a sequence of steps of the relation.\<close>

definition runs :: "'a auth_ops option \<Rightarrow> ('a, 'b) registry \<Rightarrow> ('a, 'b) registry \<Rightarrow> bool" where
  "runs auth r r' = (\<forall>s. reg s = r \<longrightarrow> (\<exists>s'. (race_step auth)\<^sup>*\<^sup>* s s' \<and> reg s' = r'))"

lemma runs_refl: "runs auth r r"
  by (auto simp: runs_def)

lemma runs_trans: "runs auth r1 r2 \<Longrightarrow> runs auth r2 r3 \<Longrightarrow> runs auth r1 r3"
  unfolding runs_def by (metis rtranclp_trans)

lemma runs_stepI: "(\<And>s. race_step auth s (s\<lparr>reg := f (reg s)\<rparr>)) \<Longrightarrow> runs auth r (f r)"
  unfolding runs_def by (metis r_into_rtranclp races.select_convs(1) races.surjective races.update_convs(1))

lemma runs_outside: "runs auth r (r\<lparr>auth_state := a, backend_state := b\<rparr>)"
  by (rule runs_stepI [of auth "\<lambda>r. r\<lparr>auth_state := a, backend_state := b\<rparr>"]) (rule race_step.step_outside)

lemma runs_auth: "runs auth r (r\<lparr>auth_state := a\<rparr>)"
  using runs_outside [where auth = auth and r = r and a = a and b = "backend_state r"] by simp

lemma runs_backend: "runs auth r (r\<lparr>backend_state := b\<rparr>)"
  using runs_outside [where auth = auth and r = r and b = b and a = "auth_state r"] by simp

lemma runs_touch: "runs auth r (registry_touch now sid r)"
  by (rule runs_stepI [of auth "registry_touch now sid"]) (rule race_step.step_touch)

lemma runs_remove: "runs auth r (r\<lparr>sessions := (sessions r)(sid := None)\<rparr>)"
  by (rule runs_stepI [of auth "\<lambda>r. r\<lparr>sessions := (sessions r)(sid := None)\<rparr>"]) (rule race_step.step_remove)

lemma runs_insert: "runs auth r (r\<lparr>sessions := (sessions r)(sid \<mapsto> fresh_session now utc)\<rparr>)"
  by (rule runs_stepI [of auth "\<lambda>r. r\<lparr>sessions := (sessions r)(sid \<mapsto> fresh_session now utc)\<rparr>"]) (rule race_step.step_insert)

lemma runs_verify_or_skip: "runs auth r (snd (verify_or_skip auth ctx meth r))"
  by (auto simp: verify_or_skip_def runs_refl runs_auth split: option.split prod.split sum.split)

lemma runs_start: "runs auth r (snd (registry_start auth B now utc params ctx r))"
proof -
  obtain x r1 where v: "verify_or_skip auth ctx ''Start'' r = (x, r1)" by fastforce
  then have "runs auth r r1" using runs_verify_or_skip [of auth r ctx "''Start''"] by simp
  moreover have "runs auth r1 (snd (registry_start auth B now utc params ctx r))"
  proof (cases x)
    case Inl
    then show ?thesis by (simp add: registry_start_def v runs_refl)
  next
    case Inr
    obtain y b where bk: "bk_start B params (backend_state r1) = (y, b)" by fastforce
    show ?thesis
    proof (cases y)
      case Inl
      then show ?thesis using Inr \<open>x = Inr _\<close> by (simp add: registry_start_def v bk runs_backend)
    next
      case y: (Inr sid)
      have "runs auth (r1\<lparr>backend_state := b\<rparr>) (r1\<lparr>backend_state := b, sessions := (sessions r1)(sid \<mapsto> fresh_session now utc)\<rparr>)"
        using runs_insert [of auth "r1\<lparr>backend_state := b\<rparr>" sid now utc] by simp
      then have "runs auth r1 (r1\<lparr>backend_state := b, sessions := (sessions r1)(sid \<mapsto> fresh_session now utc)\<rparr>)"
        by (rule runs_trans [OF runs_backend])
      then show ?thesis using \<open>x = Inr _\<close> y by (simp add: registry_start_def v bk)
    qed
  qed
  ultimately show ?thesis by (rule runs_trans)
qed

lemma runs_close: "runs auth r (snd (registry_close auth B now sid ctx r))"
proof -
  obtain x r1 where v: "verify_or_skip auth ctx ''Close'' r = (x, r1)" by fastforce
  then have "runs auth r r1" using runs_verify_or_skip [of auth r ctx "''Close''"] by simp
  moreover have "runs auth r1 (snd (registry_close auth B now sid ctx r))"
  proof (cases x)
    case Inl
    then show ?thesis by (simp add: registry_close_def v runs_refl)
  next
    case Inr
    let ?r = "registry_touch now sid r1"
    obtain y b where bk: "bk_close B sid (backend_state ?r) = (y, b)" by fastforce
    have "runs auth r1 (?r\<lparr>backend_state := b\<rparr>)" by (rule runs_trans [OF runs_touch runs_backend])
    moreover from this have "runs auth r1 (?r\<lparr>backend_state := b, sessions := (sessions ?r)(sid := None)\<rparr>)"
      using runs_remove [of auth "?r\<lparr>backend_state := b\<rparr>" sid] by (auto intro: runs_trans)
    ultimately show ?thesis using Inr by (cases y) (simp_all add: registry_close_def v bk Let_def)
  qed
  ultimately show ?thesis by (rule runs_trans)
qed

lemma runs_execute: "runs auth r (snd (registry_execute auth B now sid req ctx r))"
proof -
  obtain x r1 where v: "verify_or_skip auth ctx ''Execute'' r = (x, r1)" by fastforce
  then have "runs auth r r1" using runs_verify_or_skip [of auth r ctx "''Execute''"] by simp
  moreover have "runs auth r1 (snd (registry_execute auth B now sid req ctx r))"
    by (cases x) (simp_all add: registry_execute_def v Let_def case_prod_unfold runs_refl runs_trans [OF runs_touch runs_backend])
  ultimately show ?thesis by (rule runs_trans)
qed

lemma runs_sweep: "runs auth r (sweep B iter now idle r)"
proof -
  have one: "runs auth r (sweep_one B sid r)" for sid r
    using runs_trans [OF runs_backend runs_remove, of auth r "snd (bk_close B sid (backend_state r))" sid]
    by (simp add: sweep_one_def)
  have "runs auth r (fold (sweep_one B) ids r)" for ids
  proof (induction ids arbitrary: r)
    case (Cons sid ids)
    show ?case using runs_trans [OF one Cons] by simp
  qed (simp add: runs_refl)
  then show ?thesis by (simp add: sweep_def)
qed

lemma runs_verify: "runs auth r (snd (registry_verify auth now sid response r))"
  unfolding runs_def
proof (intro allI impI)
  fix s :: "('a, 'b) races" assume s: "reg s = r"
  obtain x r1 where b: "verify_begin now sid (reg s) = (x, r1)" by fastforce
  show "\<exists>s'. (race_step auth)\<^sup>*\<^sup>* s s' \<and> reg s' = snd (registry_verify auth now sid response r)"
  proof (cases x)
    case (Inl e)
    with b s race_step.step_begin_fails [of now sid s e r1 auth] show ?thesis
      by (intro exI [of _ "s\<lparr>reg := r1\<rparr>"]) (auto simp: registry_verify_def)
  next
    case (Inr pt)
    let ?s1 = "s\<lparr>reg := r1, pending_checks := (sid, pt, response) # pending_checks s\<rparr>"
    have one: "race_step auth s ?s1" by (rule race_step.step_begin) (use b Inr in simp)
    obtain y r2 where e: "verify_end auth sid pt response (reg ?s1) = (y, r2)" by fastforce
    have pc: "pending_checks ?s1 = [] @ (sid, pt, response) # pending_checks s" by simp
    have "\<exists>s2. race_step auth ?s1 s2 \<and> reg s2 = r2"
    proof (cases "\<exists>A a. auth = Some A \<and> verify_challenge A sid pt response (auth_state (reg ?s1)) = (Inr True, a)")
      case True
      then show ?thesis using race_step.step_accepted [OF pc e] by fastforce
    next
      case False
      then show ?thesis using race_step.step_refused [OF pc e] by fastforce
    qed
    with one show ?thesis using b Inr e s by (auto simp: registry_verify_def intro: converse_rtranclp_into_rtranclp)
  qed
qed

end
