(* ===== verification/Kernel_Echo.thy ===== *)
theory Kernel_Echo
  imports Runner_Auth
begin

text \<open>
  The reference kernel (\<open>crates/opsense-kernel-echo/src/main.rs\<close>) as a machine: its state between two
  events (a frame that comes in, the end of a sleep) is the request it sleeps for and the frames put
  aside meanwhile. What it writes is a list of messages. Texts are ASCII; \<open>crate_version\<close> is the
  version the build inserts; the texts of errors are arguments.
\<close>

section \<open>The code directives\<close>

definition is_space :: "char \<Rightarrow> bool" where
  "is_space c = ((of_char c :: nat) \<in> {9, 10, 11, 12, 13, 32})"

definition trim :: "string \<Rightarrow> string" where
  "trim s = rev (dropWhile is_space (rev (dropWhile is_space s)))"

definition strip_prefix :: "string \<Rightarrow> string \<Rightarrow> string option" where
  "strip_prefix p s = (if take (length p) s = p then Some (drop (length p) s) else None)"

definition split_once :: "char \<Rightarrow> string \<Rightarrow> (string \<times> string) option" where
  "split_once c s =
     (case dropWhile (\<lambda>d. d \<noteq> c) s of [] \<Rightarrow> None | _ # rest \<Rightarrow> Some (takeWhile (\<lambda>d. d \<noteq> c) s, rest))"

definition the_event :: "string \<Rightarrow> exec_payload \<Rightarrow> exec_event" where
  "the_event rid p = \<lparr>event_request_id = rid, event_payload = Some p\<rparr>"

definition error_event :: "code_request \<Rightarrow> string \<Rightarrow> string \<Rightarrow> exec_event" where
  "error_event req kind text = the_event (request_id req) (Error_event kind text)"

text \<open>What a request makes the kernel do; \<open>Fails\<close> is the error that leaves \<open>exec_code\<close> early.\<close>

datatype echo_action = Emits "exec_event list" | Sleeps u64 | Fails

definition exec_code :: "code_request \<Rightarrow> echo_action" where
  "exec_code req =
     (let code = trim (request_code req)
      in case strip_prefix ''sleep:'' code of
           Some rest \<Rightarrow> (case parse_u64 (trim rest) of None \<Rightarrow> Fails | Some ms \<Rightarrow> Sleeps ms)
         | None \<Rightarrow>
             (case strip_prefix ''print:'' code of
                Some text \<Rightarrow> Emits [the_event (request_id req) (Stdout_line text)]
              | None \<Rightarrow>
                  (case strip_prefix ''err:'' code of
                     Some rest \<Rightarrow>
                       (let (kind, text) = (case split_once (CHR '':'') rest of None \<Rightarrow> (rest, []) | Some p \<Rightarrow> p)
                        in Emits [error_event req kind text])
                   | None \<Rightarrow>
                       Emits [the_event (request_id req) (Result_value (Some (Val_text (''echo: '' @ code))))])))"

definition echo_emit :: "exec_event list \<Rightarrow> code_request \<Rightarrow> message list" where
  "echo_emit evs req = map Exec_event evs @ [Exec_event (the_event (request_id req) (Done True))]"

section \<open>Handling a message\<close>

record echo_config =
  crate_version :: string
  unexpected_text :: "envelope \<Rightarrow> string"
  error_text :: "item \<Rightarrow> string"

datatype echo_next = Continue | Exit | Nap code_request u64

definition echo_handle :: "echo_config \<Rightarrow> envelope \<Rightarrow> message list \<times> echo_next" where
  "echo_handle cfg env =
     (case env of
        Some (Hello v client) \<Rightarrow>
          if v \<noteq> PROTOCOL_VERSION then ([], Exit)
          else ([Welcome PROTOCOL_VERSION ''echo'' (crate_version cfg)], Continue)
      | Some Health_request \<Rightarrow>
          ([Health_status \<lparr>status_ok = True, status_name = ''echo'', status_version = crate_version cfg, status_packages = [],
              status_detail = ''reference echo kernel''\<rparr>], Continue)
      | Some (Start_session params) \<Rightarrow> ([Session_handle (params_session_id params) []], Continue)
      | Some (Close_request sid) \<Rightarrow> ([Ack True []], Continue)
      | Some (Code_request req) \<Rightarrow>
          (case exec_code req of
             Emits evs \<Rightarrow> (echo_emit evs req, Continue)
           | Sleeps ms \<Rightarrow> ([], Nap req ms)
           | Fails \<Rightarrow> ([], Exit))
      | Some (Interrupt_request sid rid) \<Rightarrow> ([Ack True []], Continue)
      | Some Shutdown \<Rightarrow> ([Ack True []], Exit)
      | other \<Rightarrow> ([Ack False (unexpected_text cfg other)], Continue))"

section \<open>The main loop\<close>

record echo_state =
  sleeping :: "(code_request \<times> u64) option"
  inbox :: "frame list"

definition echo_idle :: echo_state where
  "echo_idle = \<lparr>sleeping = None, inbox = []\<rparr>"

text \<open>The frames that are already there, up to the next sleep or the end.\<close>

fun echo_frames :: "echo_config \<Rightarrow> (u8 list \<Rightarrow> unit + envelope) \<Rightarrow> frame list \<Rightarrow> message list \<times> bool \<times> echo_state" where
  "echo_frames cfg dec [] = ([], False, echo_idle)"
| "echo_frames cfg dec (f # fs) =
     (case tag f of
        Arrow \<Rightarrow> echo_frames cfg dec fs
      | Control \<Rightarrow>
          (case frame_envelope dec f of
             Inl e \<Rightarrow> ([], True, echo_idle)
           | Inr env \<Rightarrow>
               (case echo_handle cfg env of
                  (msgs, Exit) \<Rightarrow> (msgs, True, echo_idle)
                | (msgs, Nap req ms) \<Rightarrow> (msgs, False, \<lparr>sleeping = Some (req, ms), inbox = fs\<rparr>)
                | (msgs, Continue) \<Rightarrow>
                    (case echo_frames cfg dec fs of (later, fin, st) \<Rightarrow> (msgs @ later, fin, st)))))"

text \<open>The end of a sleep with the events it reports, then the frames put aside.\<close>

definition echo_resume ::
    "echo_config \<Rightarrow> (u8 list \<Rightarrow> unit + envelope) \<Rightarrow> exec_event list \<Rightarrow> code_request \<Rightarrow> frame list
     \<Rightarrow> message list \<times> bool \<times> echo_state" where
  "echo_resume cfg dec evs req fs =
     (case echo_frames cfg dec fs of (later, fin, st) \<Rightarrow> (echo_emit evs req @ later, fin, st))"

definition echo_input ::
    "echo_config \<Rightarrow> (u8 list \<Rightarrow> unit + envelope) \<Rightarrow> item \<Rightarrow> echo_state \<Rightarrow> message list \<times> bool \<times> echo_state" where
  "echo_input cfg dec i st =
     (case sleeping st of
        None \<Rightarrow> (case i of Inl e \<Rightarrow> ([], True, st) | Inr f \<Rightarrow> echo_frames cfg dec [f])
      | Some (req, ms) \<Rightarrow>
          (case i of
             Inl e \<Rightarrow> echo_resume cfg dec [error_event req ''bad_request'' (error_text cfg i)] req (inbox st)
           | Inr f \<Rightarrow>
               if tag f = Arrow then ([], False, st)
               else case frame_envelope dec f of
                   Inl e \<Rightarrow> echo_resume cfg dec [error_event req ''bad_request'' (error_text cfg i)] req (inbox st)
                 | Inr (Some (Interrupt_request sid rid)) \<Rightarrow>
                     echo_resume cfg dec [error_event req ''cancelled'' ''interrupted by host''] req (inbox st)
                 | Inr _ \<Rightarrow> ([], False, st\<lparr>inbox := inbox st @ [f]\<rparr>)))"

text \<open>\<open>over ms\<close> tells whether a sleep of \<open>ms\<close> ends before the next frame comes in.\<close>

lemma echo_frames_inbox: "echo_frames cfg dec fs = (msgs, fin, st) \<Longrightarrow> sleeping st = Some x \<Longrightarrow> length (inbox st) < length fs"
  by (induction fs arbitrary: msgs fin st)
    (fastforce simp: echo_idle_def split: frame_tag.splits sum.splits prod.splits echo_next.splits)+

function echo_naps ::
    "echo_config \<Rightarrow> (u8 list \<Rightarrow> unit + envelope) \<Rightarrow> (u64 \<Rightarrow> bool) \<Rightarrow> echo_state \<Rightarrow> message list \<times> bool \<times> echo_state" where
  "echo_naps cfg dec over st =
     (case sleeping st of
        Some (req, ms) \<Rightarrow>
          if over ms then
            (case echo_resume cfg dec [] req (inbox st) of
               (msgs, True, st) \<Rightarrow> (msgs, True, st)
             | (msgs, False, st) \<Rightarrow> (case echo_naps cfg dec over st of (later, fin, st) \<Rightarrow> (msgs @ later, fin, st)))
          else ([], False, st)
      | None \<Rightarrow> ([], False, st))"
  by pat_completeness auto
termination
proof (relation "measure (\<lambda>(cfg, dec, over, st). case sleeping st of None \<Rightarrow> 0 | Some _ \<Rightarrow> Suc (length (inbox st)))")
  fix cfg dec over and st st' :: echo_state and x req ms msgs y fin
  assume a: "sleeping st = Some x" "(req, ms) = x" "over ms" "(msgs, y) = echo_resume cfg dec [] req (inbox st)" "(fin, st') = y" "fin = False"
  then obtain later where "echo_frames cfg dec (inbox st) = (later, fin, st')"
    by (auto simp: echo_resume_def split: prod.splits)
  then have "length (inbox st') < length (inbox st)" if "sleeping st' \<noteq> None"
    using that echo_frames_inbox by fastforce
  with a show "((cfg, dec, over, st'), cfg, dec, over, st) \<in> measure (\<lambda>(cfg, dec, over, st). case sleeping st of None \<Rightarrow> 0 | Some _ \<Rightarrow> Suc (length (inbox st)))"
    by (auto split: option.split)
qed simp_all

declare echo_naps.simps [simp del]

section \<open>The process\<close>

text \<open>The frames the messages become; a message that cannot be sent ends the process.\<close>

fun echo_write :: "(envelope \<Rightarrow> u8 list) \<Rightarrow> message list \<Rightarrow> item list \<times> bool" where
  "echo_write enc [] = ([], False)"
| "echo_write enc (m # ms) =
     (case frame_encode (frame_control enc (Some m)) [] of
        Inl e \<Rightarrow> ([], True)
      | Inr bs \<Rightarrow> (case echo_write enc ms of (items, failed) \<Rightarrow> (received bs @ items, failed)))"

definition echo_feed ::
    "echo_config \<Rightarrow> (u64 \<Rightarrow> bool) \<Rightarrow> (envelope \<Rightarrow> u8 list) \<Rightarrow> (u8 list \<Rightarrow> unit + envelope)
     \<Rightarrow> item \<Rightarrow> echo_state \<Rightarrow> item list \<times> bool \<times> echo_state" where
  "echo_feed cfg over enc dec i st =
     (let (msgs, fin, st) = echo_input cfg dec i st;
          (later, fin', st) = (if fin then ([], True, st) else echo_naps cfg dec over st);
          (items, failed) = echo_write enc (msgs @ later)
      in (items, fin' \<or> failed, st))"

definition echo_kernel ::
    "echo_config \<Rightarrow> (u64 \<Rightarrow> bool) \<Rightarrow> (envelope \<Rightarrow> u8 list) \<Rightarrow> (u8 list \<Rightarrow> unit + envelope) \<Rightarrow> echo_state kernel_process" where
  "echo_kernel cfg over enc dec = \<lparr>feed = echo_feed cfg over enc dec, pb_encode = enc, pb_decode = dec\<rparr>"

end
