(* ===== verification/Kernel_Correct.thy ===== *)
theory Kernel_Correct
  imports Kernel_Echo
begin

text \<open>
  The host connected to the reference kernel: requests that are answered in time get their own
  answers, and what a deadline or an interrupt leaves behind shifts the answers of all later ones.
\<close>

section \<open>A sequence of requests\<close>

fun conn_requests ::
    "'k kernel_process \<Rightarrow> (nat \<times> code_request) list \<Rightarrow> 'k connection \<Rightarrow> (host_error + exec_outcome) option list \<times> 'k connection" where
  "conn_requests P [] c = ([], c)"
| "conn_requests P ((n, req) # jobs) c =
     (let (x, c) = conn_execute P n req c; (xs, c) = conn_requests P jobs c in (x # xs, c))"

text \<open>The events a request is answered with, and the outcome they make.\<close>

definition answer :: "code_request \<Rightarrow> exec_event list" where
  "answer req = (case exec_code req of Emits evs \<Rightarrow> evs | _ \<Rightarrow> []) @ [the_event (request_id req) (Done True)]"

definition outcome_of :: "exec_event list \<Rightarrow> exec_outcome" where
  "outcome_of evs = fold note_event evs outcome_default"

text \<open>The protobuf library gives a message back, and it fits a frame.\<close>

definition carried :: "'k kernel_process \<Rightarrow> message \<Rightarrow> bool" where
  "carried P m = (pb_decode P (pb_encode P (Some m)) = Inr (Some m) \<and> length (pb_encode P (Some m)) \<le> unat MAX_FRAME_LEN)"

text \<open>A request the kernel answers without anything else, in messages that are carried.\<close>

definition fits :: "'k kernel_process \<Rightarrow> (u64 \<Rightarrow> bool) \<Rightarrow> code_request \<Rightarrow> bool" where
  "fits P over req =
     ((case exec_code req of Emits evs \<Rightarrow> True | Sleeps ms \<Rightarrow> over ms | Fails \<Rightarrow> False)
      \<and> carried P (Code_request req) \<and> (\<forall>ev \<in> set (answer req). carried P (Exec_event ev)))"

text \<open>A deadline that leaves time for the two frames of an answer.\<close>

definition in_time :: "nat \<times> code_request \<Rightarrow> bool" where
  "in_time job = (case job of (n, req) \<Rightarrow> timeout_ms req = 0 \<or> 2 \<le> n)"

section \<open>Messages on the wire\<close>

definition item_of :: "'k kernel_process \<Rightarrow> message \<Rightarrow> item" where
  "item_of P m = Inr (frame_control (pb_encode P) (Some m))"

lemma carried_received:
  assumes "carried P m"
  shows "\<exists>bs. frame_encode (frame_control (pb_encode P) (Some m)) [] = Inr bs \<and> received bs = [item_of P m]"
proof -
  let ?f = "frame_control (pb_encode P) (Some m)"
  have cap: "within_cap ?f" using assms by (simp add: carried_def within_cap_def frame_control_def)
  then have "frame_encode ?f [] = Inr (wire ?f)"
    using within_cap_u32 [OF cap] by (simp add: wire_def frame_encode_def)
  moreover have "received (wire ?f) = [item_of P m]"
    using frame_decode_wire [OF cap, of "[]"] by (simp add: received_def item_of_def)
  ultimately show ?thesis by blast
qed

lemma carried_envelope: "carried P m \<Longrightarrow> frame_envelope (pb_decode P) (frame_control (pb_encode P) (Some m)) = Inr (Some m)"
  by (simp add: carried_def frame_envelope_def frame_control_def)

lemma recv_item: "carried P m \<Longrightarrow> recv P fin (item_of P m # src) = (Arrived (Inr (Some m)), src)"
  using carried_envelope [of P m] by (simp add: item_of_def frame_control_def)

lemma send_item:
  assumes "carried P m" and "\<not> exited c"
  shows "conn_send P (Some m) c = (case feed P (item_of P m) (kernel c) of
    (out, fin, k) \<Rightarrow> (Inr (), c\<lparr>source := source c @ out, kernel := k, exited := fin\<rparr>))"
  using carried_received [OF assms(1)] assms(2) by (auto simp: conn_send_def split: bool.split prod.split)

lemma drain_events:
  assumes "\<forall>ev \<in> set evs. carried P (Exec_event ev) \<and> \<not> is_done ev" and "carried P (Exec_event fin_ev)" and "is_done fin_ev"
  shows "drain P fin out (map (item_of P) (map Exec_event (evs @ [fin_ev])) @ src) =
    (Some (Inr (fold note_event (evs @ [fin_ev]) out)), src)"
  using assms(1)
proof (induction evs arbitrary: out)
  case Nil
  show ?case using recv_item [OF assms(2)] assms(3) by (subst drain.simps) simp
next
  case (Cons ev evs)
  then show ?case using recv_item [of P "Exec_event ev"] by (subst drain.simps) simp
qed

lemma answer_events: "\<exists>evs d. answer req = evs @ [d] \<and> is_done d \<and> (\<forall>ev \<in> set evs. \<not> is_done ev) \<and> length evs \<le> 1"
proof -
  have "(\<forall>ev \<in> set evs. \<not> is_done ev) \<and> length evs \<le> 1" if "exec_code req = Emits evs" for evs
    using that
    by (auto simp: exec_code_def Let_def is_done_def the_event_def error_event_def split: option.splits prod.splits)
  then show ?thesis
    by (cases "exec_code req") (auto simp: answer_def is_done_def the_event_def)
qed

definition answer_items :: "'k kernel_process \<Rightarrow> exec_event list \<Rightarrow> item list" where
  "answer_items P evs = map (item_of P) (map Exec_event evs)"

text \<open>A complete answer at the front is what an execution returns.\<close>

definition complete :: "'k kernel_process \<Rightarrow> exec_event list \<Rightarrow> bool" where
  "complete P evs = ((\<forall>ev \<in> set evs. carried P (Exec_event ev)) \<and> length evs \<le> 2
     \<and> (\<exists>es d. evs = es @ [d] \<and> is_done d \<and> (\<forall>ev \<in> set es. \<not> is_done ev)))"

lemma fits_complete: "fits P over req \<Longrightarrow> complete P (answer req)"
  using answer_events [of req] by (auto simp: fits_def complete_def)

lemma drain_complete:
  assumes "complete P evs"
  shows "drain P fin outcome_default (answer_items P evs @ src) = (Some (Inr (outcome_of evs)), src)"
proof -
  obtain es d where evs: "evs = es @ [d]" "is_done d" "\<forall>ev \<in> set es. \<not> is_done ev"
    and c: "\<forall>ev \<in> set evs. carried P (Exec_event ev)"
    using assms by (auto simp: complete_def)
  show ?thesis
    unfolding outcome_of_def answer_items_def evs(1)
    by (rule drain_events) (use evs c in auto)
qed

section \<open>Any kernel that answers requests\<close>

text \<open>What a kernel promises: in its idle state it answers a request it accepts at once, with events
  that end with their only \<open>Done\<close>, and is idle again.\<close>

locale request_kernel =
  fixes P :: "'k kernel_process" and idle :: 'k and accepts :: "code_request \<Rightarrow> bool" and replies :: "code_request \<Rightarrow> exec_event list"
  assumes request_carried: "accepts req \<Longrightarrow> carried P (Code_request req)"
    and replies_complete: "accepts req \<Longrightarrow> complete P (replies req)"
    and request_answered: "accepts req \<Longrightarrow> feed P (item_of P (Code_request req)) idle = (answer_items P (replies req), False, idle)"
begin

abbreviation quiet :: "item list \<Rightarrow> 'k connection" where
  "quiet src \<equiv> \<lparr>source = src, kernel = idle, exited = False\<rparr>"

lemma send_request:
  "accepts req \<Longrightarrow> conn_send P (Some (Code_request req)) (quiet src) = (Inr (), quiet (src @ answer_items P (replies req)))"
  using send_item [OF request_carried, of req "quiet src"] request_answered by simp

lemma execute_front:
  assumes r: "accepts req" "in_time (n, req)" and c: "complete P evs"
    and src: "src @ answer_items P (replies req) = answer_items P evs @ later"
  shows "conn_execute P n req (quiet src) = (Some (Inr (outcome_of evs)), quiet later)"
proof -
  let ?n = "if 0 < timeout_ms req then n else length (answer_items P evs @ later)"
  have len: "length (answer_items P evs) \<le> ?n"
    using r(2) c by (auto simp: in_time_def complete_def answer_items_def word_gt_0)
  then have "take ?n (answer_items P evs @ later) = answer_items P evs @ take (?n - length (answer_items P evs)) later"
    and "drop ?n (answer_items P evs @ later) = drop (?n - length (answer_items P evs)) later"
    by simp_all
  then show ?thesis
    using drain_complete [OF c]
    by (simp add: conn_execute_def send_request [OF r(1)] src Let_def split: if_splits)
qed

lemma own_answers:
  "\<forall>job \<in> set jobs. accepts (snd job) \<and> in_time job \<Longrightarrow>
   conn_requests P jobs (quiet []) = (map (\<lambda>job. Some (Inr (outcome_of (replies (snd job))))) jobs, quiet [])"
proof (induction jobs)
  case (Cons job jobs)
  obtain n req where job: "job = (n, req)" by fastforce
  then have "conn_execute P n req (quiet []) = (Some (Inr (outcome_of (replies req))), quiet [])"
    using Cons.prems by (intro execute_front replies_complete) auto
  with Cons job show ?case by simp
qed simp

lemma shifted_answers:
  "\<forall>job \<in> set jobs. accepts (snd job) \<and> in_time job \<Longrightarrow> complete P evs \<Longrightarrow>
   fst (conn_requests P jobs (quiet (answer_items P evs))) =
     map (\<lambda>evs. Some (Inr (outcome_of evs))) (take (length jobs) (evs # map (\<lambda>job. replies (snd job)) jobs))"
proof (induction jobs arbitrary: evs)
  case (Cons job jobs)
  obtain n req where job: "job = (n, req)" by fastforce
  then have r: "accepts req" "in_time (n, req)" using Cons.prems by simp_all
  then have "conn_execute P n req (quiet (answer_items P evs)) = (Some (Inr (outcome_of evs)), quiet (answer_items P (replies req)))"
    using Cons.prems by (intro execute_front) auto
  with Cons.IH [OF _ replies_complete [OF r(1)]] Cons.prems show ?case by (simp add: job case_prod_unfold)
qed simp

lemma unasked_message:
  assumes r: "accepts req" "in_time (n, req)" and a: "carried P m" "\<And>ev. m \<noteq> Exec_event ev"
  shows "conn_execute P n req (quiet [item_of P m]) =
    (Some (Inl (Unexpected_in_execute (Some m))), quiet (answer_items P (replies req)))"
proof -
  have "drain P fin outcome_default (item_of P m # later) = (Some (Inl (Unexpected_in_execute (Some m))), later)" for fin later
    using recv_item [OF a(1)] a(2) by (subst drain.simps) (cases m; blast?; simp)
  then show ?thesis
    using r(2) by (cases n) (auto simp: conn_execute_def send_request [OF r(1)] Let_def word_gt_0 in_time_def)
qed

end

section \<open>The reference kernel\<close>

lemma kernel_fields [simp]:
  "pb_encode (echo_kernel cfg over enc dec) = enc" "pb_decode (echo_kernel cfg over enc dec) = dec"
  "feed (echo_kernel cfg over enc dec) = echo_feed cfg over enc dec"
  by (simp_all add: echo_kernel_def)

lemma write_items:
  assumes P: "P = echo_kernel cfg over enc dec"
  shows "\<forall>m \<in> set ms. carried P m \<Longrightarrow> echo_write enc ms = (map (item_of P) ms, False)"
proof (induction ms)
  case (Cons m ms)
  then obtain bs where "frame_encode (frame_control enc (Some m)) [] = Inr bs" "received bs = [item_of P m]"
    using carried_received [of P m] by (auto simp: P)
  with Cons show ?case by simp
qed simp

lemma idle_input:
  assumes P: "P = echo_kernel cfg over enc dec" and "carried P m"
  shows "echo_input cfg dec (item_of P m) echo_idle =
     (case echo_handle cfg (Some m) of
        (msgs, Exit) \<Rightarrow> (msgs, True, echo_idle)
      | (msgs, Nap req ms) \<Rightarrow> (msgs, False, \<lparr>sleeping = Some (req, ms), inbox = []\<rparr>)
      | (msgs, Continue) \<Rightarrow> (msgs, False, echo_idle))"
  using carried_envelope [OF assms(2)]
  by (simp add: P echo_input_def item_of_def frame_control_def echo_idle_def split: prod.split echo_next.split)

lemma naps_idle [simp]: "echo_naps cfg dec over echo_idle = ([], False, echo_idle)"
  by (subst echo_naps.simps) (simp add: echo_idle_def)

lemma feed_reply:
  assumes P: "P = echo_kernel cfg over enc dec" and "carried P m" and "echo_handle cfg (Some m) = (msgs, Continue)"
    and "\<forall>m \<in> set msgs. carried P m"
  shows "feed P (item_of P m) echo_idle = (map (item_of P) msgs, False, echo_idle)"
proof -
  have "feed P (item_of P m) echo_idle = echo_feed cfg over enc dec (item_of P m) echo_idle" by (simp add: P)
  then show ?thesis using idle_input [OF P assms(2)] write_items [OF P assms(4)] by (simp add: echo_feed_def assms(3))
qed

lemma feed_request:
  assumes P: "P = echo_kernel cfg over enc dec" and "fits P over req"
  shows "feed P (item_of P (Code_request req)) echo_idle = (answer_items P (answer req), False, echo_idle)"
proof -
  have car: "carried P (Code_request req)" "\<forall>m \<in> set (map Exec_event (answer req)). carried P m"
    using assms(2) by (auto simp: fits_def)
  show ?thesis
  proof (cases "exec_code req")
    case (Emits evs)
    then have "echo_handle cfg (Some (Code_request req)) = (map Exec_event (answer req), Continue)"
      by (simp add: echo_handle_def answer_def echo_emit_def)
    from feed_reply [OF P car(1) this car(2)] show ?thesis by (simp add: answer_items_def)
  next
    case (Sleeps ms)
    then have "over ms" using assms by (simp add: fits_def)
    then have "echo_naps cfg dec over \<lparr>sleeping = Some (req, ms), inbox = []\<rparr> = (map Exec_event (answer req), False, echo_idle)"
      by (subst echo_naps.simps) (simp add: echo_resume_def echo_emit_def answer_def Sleeps)
    moreover have "echo_input cfg dec (item_of P (Code_request req)) echo_idle = ([], False, \<lparr>sleeping = Some (req, ms), inbox = []\<rparr>)"
      using idle_input [OF P car(1)] by (simp add: echo_handle_def Sleeps)
    moreover have "feed P = echo_feed cfg over enc dec" by (simp add: P)
    ultimately show ?thesis
      using write_items [OF P car(2)] by (simp add: echo_feed_def answer_items_def)
  next
    case Fails
    then show ?thesis using assms by (simp add: fits_def)
  qed
qed

interpretation echo: request_kernel "echo_kernel cfg over enc dec" echo_idle
  "fits (echo_kernel cfg over enc dec) over" answer
  by unfold_locales (auto simp del: kernel_fields intro: fits_complete feed_request simp: fits_def)

text \<open>What a cancelled request is answered with.\<close>

definition cancelled :: "code_request \<Rightarrow> exec_event list" where
  "cancelled req = [error_event req ''cancelled'' ''interrupted by host'', the_event (request_id req) (Done True)]"

section \<open>An example\<close>

text \<open>For the witnesses: an encoding of a list of messages by their positions, the reference kernel with it,
  and requests that print, echo, sleep and fail.\<close>

definition table_encode :: "message list \<Rightarrow> envelope \<Rightarrow> u8 list" where
  "table_encode ms env = (case env of None \<Rightarrow> [] | Some m \<Rightarrow> [of_nat (length (takeWhile (\<lambda>x. x \<noteq> m) ms))])"

definition table_decode :: "message list \<Rightarrow> u8 list \<Rightarrow> unit + envelope" where
  "table_decode ms bs = (case bs of [b] \<Rightarrow> if unat b < length ms then Inr (Some (ms ! unat b)) else Inl () | _ \<Rightarrow> Inl ())"

lemma table_carries:
  assumes "m \<in> set ms" and "length ms \<le> 256" and "pb_encode P = table_encode ms" and "pb_decode P = table_decode ms"
  shows "carried P m"
proof -
  let ?i = "length (takeWhile (\<lambda>x. x \<noteq> m) ms)"
  have len: "?i < length ms" using assms(1) by (induction ms) auto
  then have "ms ! ?i = m" using nth_length_takeWhile [of "\<lambda>x. x \<noteq> m" ms] by simp
  moreover have "unat (of_nat ?i :: u8) = ?i" using len assms(2) by (simp add: unat_of_nat)
  ultimately show ?thesis
    using len by (simp add: carried_def assms(3,4) table_encode_def table_decode_def unat_MAX_FRAME_LEN)
qed

definition demo_request :: "string \<Rightarrow> string \<Rightarrow> u64 \<Rightarrow> code_request" where
  "demo_request rid code ms = \<lparr>request_id = rid, request_session_id = ''s'', request_code = code, input_names = [], timeout_ms = ms\<rparr>"

definition demo_params :: session_params where
  "demo_params = \<lparr>params_session_id = ''s'', require_challenge = True, params_role = ''admin''\<rparr>"

definition plain_params :: session_params where
  "plain_params = \<lparr>params_session_id = ''s'', require_challenge = False, params_role = []\<rparr>"

definition print_hi :: code_request where "print_hi = demo_request ''1'' '' print:hi'' 0"
definition echo_x :: code_request where "echo_x = demo_request ''2'' ''x'' 9"
definition sleep_long :: code_request where "sleep_long = demo_request ''0'' ''sleep: 5000'' 9"
definition sleep_bad :: code_request where "sleep_bad = demo_request ''3'' ''sleep:x'' 0"
definition raise_err :: code_request where "raise_err = demo_request ''4'' ''err:k:m'' 0"

definition demo_messages :: "message list" where
  "demo_messages =
     [Hello PROTOCOL_VERSION ''c'', Welcome PROTOCOL_VERSION ''echo'' ''1'', Start_session demo_params, Start_session plain_params, Session_handle ''s'' [],
      Close_request ''s'', Ack True [], Interrupt_request ''s'' ''0'', Interrupt_request ''s'' ''1'']
     @ map Code_request [print_hi, echo_x, sleep_long, sleep_bad, raise_err]
     @ map Exec_event (answer print_hi @ answer echo_x @ answer raise_err @ cancelled sleep_long)"

definition demo_config :: echo_config where
  "demo_config = \<lparr>crate_version = ''1'', unexpected_text = (\<lambda>_. []), error_text = (\<lambda>_. [])\<rparr>"

definition demo_echo :: "echo_state kernel_process" where
  "demo_echo = echo_kernel demo_config (\<lambda>_. False) (table_encode demo_messages) (table_decode demo_messages)"

lemma demo_codes:
  "exec_code print_hi = Emits [the_event ''1'' (Stdout_line ''hi'')]"
  "exec_code echo_x = Emits [the_event ''2'' (Result_value (Some (Val_text ''echo: x'')))]"
  "exec_code sleep_long = Sleeps 5000" "exec_code sleep_bad = Fails"
  "exec_code raise_err = Emits [error_event raise_err ''k'' ''m'']"
  by (simp_all add: exec_code_def print_hi_def echo_x_def sleep_long_def sleep_bad_def raise_err_def demo_request_def trim_def is_space_def
      strip_prefix_def split_once_def parse_u64_def read_nat_def is_digit_def)

lemma demo_carries: "m \<in> set demo_messages \<Longrightarrow> carried demo_echo m"
  by (rule table_carries) (simp_all add: demo_echo_def demo_messages_def answer_def demo_codes cancelled_def)

lemma demo_fits: "fits demo_echo (\<lambda>_. False) print_hi" "fits demo_echo (\<lambda>_. False) echo_x" "fits demo_echo (\<lambda>_. False) raise_err"
  by (auto simp: fits_def demo_codes intro!: demo_carries) (auto simp: demo_messages_def)

lemma demo_in_time: "in_time (2, print_hi)" "in_time (2, echo_x)"
  by (simp_all add: in_time_def)

section \<open>Requests that are answered in time\<close>

lemma ask_reply:
  assumes P: "P = echo_kernel cfg over enc dec" and "carried P m" and "echo_handle cfg (Some m) = ([r], Continue)" and "carried P r"
  shows "conn_send P (Some m) (conn_new echo_idle) = (Inr (), (conn_new echo_idle)\<lparr>source := [item_of P r]\<rparr>)"
    and "conn_expect P what extract ((conn_new echo_idle)\<lparr>source := [item_of P r]\<rparr>) =
      (case extract r of Some v \<Rightarrow> Some (Inr v) | None \<Rightarrow> Some (Inl (Unexpected_envelope what r)), conn_new echo_idle)"
  using send_item [OF assms(2), of "conn_new echo_idle"] feed_reply [OF P assms(2,3)] assms(4) recv_item [OF assms(4)]
  by (simp_all add: conn_expect_def conn_new_def)

lemma echo_handshake:
  assumes P: "P = echo_kernel cfg over enc dec"
    and "carried P (Hello PROTOCOL_VERSION client)" "carried P (Welcome PROTOCOL_VERSION ''echo'' (crate_version cfg))"
  shows "conn_handshake P client (conn_new echo_idle) = (Some (Inr (PROTOCOL_VERSION, ''echo'', crate_version cfg)), conn_new echo_idle)"
proof -
  have "echo_handle cfg (Some (Hello PROTOCOL_VERSION client)) = ([Welcome PROTOCOL_VERSION ''echo'' (crate_version cfg)], Continue)"
    by (simp add: echo_handle_def)
  then show ?thesis by (simp add: ask_reply [OF P assms(2) _ assms(3)] conn_handshake_def conn_ask_def)
qed

lemma echo_start:
  assumes P: "P = echo_kernel cfg over enc dec"
    and "carried P (Start_session params)" "carried P (Session_handle (params_session_id params) [])"
  shows "conn_start_session P params (conn_new echo_idle) = (Some (Inr (params_session_id params)), conn_new echo_idle)"
proof -
  have "echo_handle cfg (Some (Start_session params)) = ([Session_handle (params_session_id params) []], Continue)"
    by (simp add: echo_handle_def)
  then show ?thesis by (simp add: ask_reply [OF P assms(2) _ assms(3)] conn_start_session_def conn_ask_def)
qed

lemma echo_close:
  assumes P: "P = echo_kernel cfg over enc dec" and "carried P (Close_request sid)" "carried P (Ack True [])"
  shows "conn_close_session P sid (conn_new echo_idle) = (Some (Inr ()), conn_new echo_idle)"
proof -
  have "echo_handle cfg (Some (Close_request sid)) = ([Ack True []], Continue)" by (simp add: echo_handle_def)
  then show ?thesis by (simp add: ask_reply [OF P assms(2) _ assms(3)] conn_close_session_def conn_expect_ack_def ack_of_def)
qed

text \<open>C12: A host and the reference kernel understand each other: the handshake succeeds, a session starts under
  the id the host asked for and closes, and a sequence of requests that are accepted and in time
  gets, request by request, the outcomes their codes stand for; nothing stays on the connection.\<close>

theorem echo_session:
  assumes "P = echo_kernel cfg over enc dec" and "\<forall>job \<in> set jobs. fits P over (snd job) \<and> in_time job"
    and "\<forall>m \<in> {Hello PROTOCOL_VERSION client, Welcome PROTOCOL_VERSION ''echo'' (crate_version cfg), Start_session params,
        Session_handle (params_session_id params) [], Close_request sid, Ack True []}. carried P m"
  shows "conn_handshake P client (conn_new echo_idle) = (Some (Inr (PROTOCOL_VERSION, ''echo'', crate_version cfg)), conn_new echo_idle)
    \<and> conn_start_session P params (conn_new echo_idle) = (Some (Inr (params_session_id params)), conn_new echo_idle)
    \<and> conn_requests P jobs (conn_new echo_idle) =
        (map (\<lambda>job. Some (Inr (outcome_of (answer (snd job))))) jobs, conn_new echo_idle)
    \<and> conn_close_session P sid (conn_new echo_idle) = (Some (Inr ()), conn_new echo_idle)"
proof -
  note P = assms(1)
  have "conn_requests P jobs (conn_new echo_idle) =
      (map (\<lambda>job. Some (Inr (outcome_of (answer (snd job))))) jobs, conn_new echo_idle)"
    using echo.own_answers [of jobs cfg over enc dec] assms(2) by (simp add: P conn_new_def)
  then show ?thesis
    using echo_handshake [OF P] echo_start [OF P] echo_close [OF P] assms(3) by simp
qed

text \<open>Witness of C12: a request that prints and one that is echoed.\<close>

theorem echo_session_witness:
  "conn_handshake demo_echo ''c'' (conn_new echo_idle) = (Some (Inr (PROTOCOL_VERSION, ''echo'', crate_version demo_config)), conn_new echo_idle)
    \<and> conn_start_session demo_echo demo_params (conn_new echo_idle) = (Some (Inr (params_session_id demo_params)), conn_new echo_idle)
    \<and> conn_requests demo_echo [(2, print_hi), (2, echo_x)] (conn_new echo_idle) =
        (map (\<lambda>job. Some (Inr (outcome_of (answer (snd job))))) [(2 :: nat, print_hi), (2, echo_x)], conn_new echo_idle)
    \<and> conn_close_session demo_echo ''s'' (conn_new echo_idle) = (Some (Inr ()), conn_new echo_idle)"
  by (rule echo_session [OF demo_echo_def])
    (auto simp: demo_fits demo_in_time intro!: demo_carries, auto simp: demo_messages_def demo_params_def demo_config_def)

section \<open>Requests that are not\<close>

lemma timed_sleep:
  assumes P: "P = echo_kernel cfg over enc dec" and "exec_code req = Sleeps ms" and "\<not> over ms" and "timeout_ms req \<noteq> 0" and "carried P (Code_request req)"
    and "carried P (Interrupt_request (request_session_id req) (request_id req))" and "complete P (cancelled req)"
  shows "conn_execute P n req (conn_new echo_idle) = (Some (Inr (outcome_default\<lparr>timed_out := True\<rparr>)),
    (conn_new echo_idle)\<lparr>source := answer_items P (cancelled req)\<rparr>)"
proof -
  let ?nap = "\<lparr>sleeping = Some (req, ms), inbox = []\<rparr> :: echo_state"
  let ?i = "Interrupt_request (request_session_id req) (request_id req)"
  have feed: "feed P = echo_feed cfg over enc dec" by (simp add: P)
  have nap: "echo_naps cfg dec over ?nap = ([], False, ?nap)"
    using assms(3) by (subst echo_naps.simps) simp
  have "feed P (item_of P (Code_request req)) echo_idle = ([], False, ?nap)"
    using idle_input [OF P assms(5)] assms(2) nap by (simp add: feed echo_feed_def echo_handle_def)
  then have send: "conn_send P (Some (Code_request req)) (conn_new echo_idle) = (Inr (), \<lparr>source = [], kernel = ?nap, exited = False\<rparr>)"
    using send_item [OF assms(5), of "conn_new echo_idle"] by (simp add: conn_new_def)
  have "echo_input cfg dec (item_of P ?i) ?nap = (map Exec_event (cancelled req), False, echo_idle)"
    using carried_envelope [OF assms(6)]
    by (simp add: P echo_input_def item_of_def frame_control_def echo_resume_def echo_emit_def cancelled_def)
  moreover have "\<forall>m \<in> set (map Exec_event (cancelled req)). carried P m" using assms(7) by (auto simp: complete_def)
  ultimately have "feed P (item_of P ?i) ?nap = (answer_items P (cancelled req), False, echo_idle)"
    using write_items [OF P, of "map Exec_event (cancelled req)"] by (simp add: feed echo_feed_def answer_items_def)
  then have intr: "conn_interrupt P (request_session_id req) (request_id req) \<lparr>source = [], kernel = ?nap, exited = False\<rparr> =
      (Inr (), (conn_new echo_idle)\<lparr>source := answer_items P (cancelled req)\<rparr>)"
    using send_item [OF assms(6), of "\<lparr>source = [], kernel = ?nap, exited = False\<rparr>"] by (simp add: conn_interrupt_def conn_new_def)
  have "drain P False outcome_default [] = (None, [])" by (subst drain.simps) simp
  with intr assms(4) show ?thesis
    by (simp add: conn_execute_def send Let_def word_gt_0)
qed

text \<open>C37: A deadline shifts every later answer by one: after a request that timed out, the next one returns the
  cancelled request's answer, and each one after it the answer to the request before. The host
  never compares request ids, and the interrupted kernel still answers.\<close>

theorem timeout_shifts_answers:
  assumes "P = echo_kernel cfg over enc dec" and "exec_code req = Sleeps ms" and "\<not> over ms" and "timeout_ms req \<noteq> 0"
    and "carried P (Code_request req)" and "carried P (Interrupt_request (request_session_id req) (request_id req))"
    and "\<forall>ev \<in> set (cancelled req). carried P (Exec_event ev)"
    and "\<forall>job \<in> set jobs. fits P over (snd job) \<and> in_time job"
  shows "fst (conn_requests P ((n, req) # jobs) (conn_new echo_idle)) =
    Some (Inr (outcome_default\<lparr>timed_out := True\<rparr>))
      # map (\<lambda>evs. Some (Inr (outcome_of evs))) (take (length jobs) (cancelled req # map (\<lambda>job. answer (snd job)) jobs))"
proof -
  note P = assms(1)
  have c: "complete P (cancelled req)"
    using assms(7) by (auto simp: complete_def cancelled_def is_done_def error_event_def the_event_def)
  show ?thesis
    using timed_sleep [OF P assms(2-6) c, of n] echo.shifted_answers [of jobs cfg over enc dec "cancelled req"] c assms(8)
    by (simp add: P conn_new_def case_prod_unfold)
qed

text \<open>Witness of C37: a long sleep, then two requests.\<close>

theorem timeout_shifts_answers_witness:
  "fst (conn_requests demo_echo [(0, sleep_long), (2, print_hi), (2, echo_x)] (conn_new echo_idle)) =
    Some (Inr (outcome_default\<lparr>timed_out := True\<rparr>))
      # map (\<lambda>evs. Some (Inr (outcome_of evs)))
          (take (length [(2 :: nat, print_hi), (2, echo_x)]) (cancelled sleep_long # map (\<lambda>job. answer (snd job)) [(2 :: nat, print_hi), (2, echo_x)]))"
  by (rule timeout_shifts_answers [OF demo_echo_def demo_codes(3)])
    (auto simp: demo_fits demo_in_time intro!: demo_carries, auto simp: demo_messages_def sleep_long_def demo_request_def)

text \<open>C38: An interrupt of an idle kernel ruins its session: the kernel acknowledges it, nobody reads the
  acknowledgement, the next request fails on it as an unexpected message, and every later one
  returns the answer to the request before.\<close>

theorem interrupt_shifts_answers:
  assumes "P = echo_kernel cfg over enc dec" and "carried P (Interrupt_request sid rid)" and "carried P (Ack True [])"
    and "\<forall>job \<in> set ((n, req) # jobs). fits P over (snd job) \<and> in_time job"
  shows "fst (conn_requests P ((n, req) # jobs) (snd (conn_interrupt P sid rid (conn_new echo_idle)))) =
    Some (Inl (Unexpected_in_execute (Some (Ack True []))))
      # map (\<lambda>evs. Some (Inr (outcome_of evs))) (take (length jobs) (map (\<lambda>job. answer (snd job)) ((n, req) # jobs)))"
proof -
  note P = assms(1)
  have "echo_handle cfg (Some (Interrupt_request sid rid)) = ([Ack True []], Continue)" by (simp add: echo_handle_def)
  then have i: "snd (conn_interrupt P sid rid (conn_new echo_idle)) = (conn_new echo_idle)\<lparr>source := [item_of P (Ack True [])]\<rparr>"
    using ask_reply(1) [OF P assms(2) _ assms(3)] by (simp add: conn_interrupt_def)
  have r: "fits P over req" "in_time (n, req)" using assms(4) by simp_all
  show ?thesis
    using echo.unasked_message [of cfg over enc dec req n "Ack True []"] r assms(3)
      echo.shifted_answers [of jobs cfg over enc dec "answer req"] fits_complete [OF r(1)] assms(4)
    by (simp add: i) (simp add: P conn_new_def case_prod_unfold)
qed

text \<open>Witness of C38: an interrupt, then two requests.\<close>

theorem interrupt_shifts_answers_witness:
  "fst (conn_requests demo_echo [(2, print_hi), (2, echo_x)] (snd (conn_interrupt demo_echo ''s'' ''1'' (conn_new echo_idle)))) =
    Some (Inl (Unexpected_in_execute (Some (Ack True []))))
      # map (\<lambda>evs. Some (Inr (outcome_of evs)))
          (take (length [(2 :: nat, echo_x)]) (map (\<lambda>job. answer (snd job)) [(2 :: nat, print_hi), (2, echo_x)]))"
  by (rule interrupt_shifts_answers [OF demo_echo_def])
    (auto simp: demo_fits demo_in_time intro!: demo_carries, auto simp: demo_messages_def)

text \<open>C39: A sleep whose duration is no number ends the kernel instead of failing the request: the host sees
  the stream close, and every later request finds the pipe broken.\<close>

theorem bad_sleep_ends_kernel:
  assumes "P = echo_kernel cfg over enc dec" and "exec_code req = Fails" and "carried P (Code_request req)"
  shows "fst (conn_requests P ((n, req) # jobs) (conn_new echo_idle)) =
    Some (Inl Closed_during_execute) # replicate (length jobs) (Some (Inl Broken_pipe))"
proof -
  note P = assms(1)
  let ?dead = "\<lparr>source = [], kernel = echo_idle, exited = True\<rparr> :: echo_state connection"
  have "feed P (item_of P (Code_request req)) echo_idle = ([], True, echo_idle)"
    using idle_input [OF P assms(3)] assms(2) by (simp add: P echo_feed_def echo_handle_def)
  then have "conn_send P (Some (Code_request req)) (conn_new echo_idle) = (Inr (), ?dead)"
    using send_item [OF assms(3), of "conn_new echo_idle"] by (simp add: conn_new_def)
  moreover have "drain P True outcome_default [] = (Some (Inl Closed_during_execute), [])" by (subst drain.simps) simp
  ultimately have first: "conn_execute P n req (conn_new echo_idle) = (Some (Inl Closed_during_execute), ?dead)"
    by (simp add: conn_execute_def Let_def)
  have "conn_execute P n req ?dead = (Some (Inl Broken_pipe), ?dead)" for n req
    by (simp add: conn_execute_def conn_send_def)
  then have "conn_requests P jobs ?dead = (replicate (length jobs) (Some (Inl Broken_pipe)), ?dead)"
    by (induction jobs) auto
  with first show ?thesis by simp
qed

text \<open>Witness of C39: such a request, then another.\<close>

theorem bad_sleep_ends_kernel_witness:
  "fst (conn_requests demo_echo [(2, sleep_bad), (2, echo_x)] (conn_new echo_idle)) =
    Some (Inl Closed_during_execute) # replicate (length [(2 :: nat, echo_x)]) (Some (Inl Broken_pipe))"
  by (rule bad_sleep_ends_kernel [OF demo_echo_def demo_codes(4)]) (simp add: demo_carries demo_messages_def)

end
