(* ===== verification/Runner_Backend.thy ===== *)
theory Runner_Backend
  imports Runner_Session Kernel_Correct
begin

text \<open>
  The backends of the runner (\<open>crates/opsense-runner/src/backend\<close>): the echo backend in the process, and
  one kernel process per session reached over a connection (\<open>LocalBackend\<close> and \<open>IpcKernelBackend\<close>, the
  same code twice). Starting a process is an argument. The error \<open>Waits_forever\<close> stands for a call
  that does not return.
\<close>

section \<open>The echo backend\<close>

definition echo_health :: health_info where
  "echo_health = \<lparr>info_name = ''echo'', info_ok = True, info_detail = ''in-process echo backend'', info_packages = []\<rparr>"

definition echo_execute :: "code_request \<Rightarrow> exec_outcome" where
  "echo_execute req = outcome_default\<lparr>outcome_value := Some (Some (Val_text (''echo: '' @ request_code req)))\<rparr>"

definition echo_backend :: "unit kernel_backend" where
  "echo_backend =
     \<lparr>bk_kind = ''echo'', bk_health = (\<lambda>_. Inr echo_health),
      bk_start = (\<lambda>params u. (Inr (params_session_id params), u)),
      bk_execute = (\<lambda>sid req u. (Inr (echo_execute req), u)),
      bk_interrupt = (\<lambda>sid rid u. (Inr (), u)), bk_close = (\<lambda>sid u. (Inr (), u)), bk_shutdown = (\<lambda>u. (Inr (), u))\<rparr>"

section \<open>Kernel processes\<close>

record 'k process_map =
  kernels :: "string \<rightharpoonup> 'k connection"
  launches :: nat

definition process_map_new :: "'k process_map" where
  "process_map_new = \<lparr>kernels = Map.empty, launches = 0\<rparr>"

definition returned :: "(host_error + 'x) option \<Rightarrow> runner_error + 'x" where
  "returned r = (case r of None \<Rightarrow> Inl Waits_forever | Some (Inl e) \<Rightarrow> Inl (Kernel e) | Some (Inr x) \<Rightarrow> Inr x)"

definition ipc_start ::
    "'k kernel_process \<Rightarrow> (nat \<Rightarrow> 'k option) \<Rightarrow> string \<Rightarrow> session_params \<Rightarrow> 'k process_map \<Rightarrow> (runner_error + string) \<times> 'k process_map" where
  "ipc_start P spawn client params s =
     (let s' = s\<lparr>launches := Suc (launches s)\<rparr>
      in case spawn (launches s) of
           None \<Rightarrow> (Inl (Kernel Spawn_failed), s')
         | Some k \<Rightarrow>
             (let (x, c) = conn_handshake P client (conn_new k)
              in case returned x of
                   Inl e \<Rightarrow> (Inl e, s')
                 | Inr _ \<Rightarrow>
                     (let (y, c) = conn_start_session P params c
                      in case returned y of
                           Inl e \<Rightarrow> (Inl e, s')
                         | Inr sid \<Rightarrow>
                             if sid \<noteq> params_session_id params then (Inl (Kernel (Wrong_session_id sid)), s')
                             else (Inr sid, s'\<lparr>kernels := (kernels s')(sid \<mapsto> c)\<rparr>))))"

definition ipc_execute ::
    "'k kernel_process \<Rightarrow> (code_request \<Rightarrow> nat) \<Rightarrow> string \<Rightarrow> code_request \<Rightarrow> 'k process_map \<Rightarrow> (runner_error + exec_outcome) \<times> 'k process_map" where
  "ipc_execute P arrivals sid req s =
     (case kernels s sid of
        None \<Rightarrow> (Inl (Kernel (No_kernel sid)), s)
      | Some c \<Rightarrow>
          (let (x, c) = conn_execute P (arrivals req) req c in (returned x, s\<lparr>kernels := (kernels s)(sid \<mapsto> c)\<rparr>)))"

definition ipc_interrupt ::
    "'k kernel_process \<Rightarrow> string \<Rightarrow> string \<Rightarrow> 'k process_map \<Rightarrow> (runner_error + unit) \<times> 'k process_map" where
  "ipc_interrupt P sid rid s =
     (case kernels s sid of
        None \<Rightarrow> (Inl (Kernel (No_kernel sid)), s)
      | Some c \<Rightarrow>
          (let (x, c) = conn_interrupt P sid rid c in (returned (Some x), s\<lparr>kernels := (kernels s)(sid \<mapsto> c)\<rparr>)))"

definition ipc_close :: "'k kernel_process \<Rightarrow> string \<Rightarrow> 'k process_map \<Rightarrow> (runner_error + unit) \<times> 'k process_map" where
  "ipc_close P sid s =
     (case kernels s sid of
        None \<Rightarrow> (Inl (Kernel (No_kernel sid)), s)
      | Some c \<Rightarrow>
          (case fst (conn_close_session P sid c) of None \<Rightarrow> Inl Waits_forever | Some _ \<Rightarrow> Inr (),
           s\<lparr>kernels := (kernels s)(sid := None)\<rparr>))"

definition ipc_shutdown ::
    "'k kernel_process \<Rightarrow> (string set \<Rightarrow> string list) \<Rightarrow> 'k process_map \<Rightarrow> (runner_error + unit) \<times> 'k process_map" where
  "ipc_shutdown P iter s =
     (if list_ex (\<lambda>sid. fst (conn_close_session P [] (the (kernels s sid))) = None) (iter (dom (kernels s)))
      then Inl Waits_forever else Inr (),
      s\<lparr>kernels := Map.empty\<rparr>)"

definition ipc_health :: "string \<Rightarrow> string \<Rightarrow> health_info" where
  "ipc_health kind command = \<lparr>info_name = kind, info_ok = True, info_detail = command, info_packages = []\<rparr>"

definition ipc_backend ::
    "string \<Rightarrow> string \<Rightarrow> 'k kernel_process \<Rightarrow> (nat \<Rightarrow> 'k option) \<Rightarrow> string \<Rightarrow> (code_request \<Rightarrow> nat) \<Rightarrow> (string set \<Rightarrow> string list)
     \<Rightarrow> 'k process_map kernel_backend" where
  "ipc_backend kind command P spawn client arrivals iter =
     \<lparr>bk_kind = kind, bk_health = (\<lambda>_. Inr (ipc_health kind command)), bk_start = ipc_start P spawn client,
      bk_execute = ipc_execute P arrivals, bk_interrupt = ipc_interrupt P, bk_close = ipc_close P, bk_shutdown = ipc_shutdown P iter\<rparr>"

text \<open>An outcome as the host shows it; reading an Arrow segment is an argument.\<close>

record 'b kernel_output =
  output_stdout :: string
  output_dataframe :: "'b option"
  output_text :: "string option"
  output_plots :: "u8 list"
  output_error :: "string option"

definition from_outcome :: "(u8 list \<Rightarrow> 'b option) \<Rightarrow> exec_outcome \<Rightarrow> 'b kernel_output" where
  "from_outcome read_batch out =
     \<lparr>output_stdout = outcome_stdout out,
      output_dataframe = (case outcome_value out of Some (Some (Val_dataframe bs)) \<Rightarrow> read_batch bs | _ \<Rightarrow> None),
      output_text = (case outcome_value out of Some (Some (Val_text t)) \<Rightarrow> Some t | _ \<Rightarrow> None),
      output_plots = (case outcome_value out of
        Some (Some (Val_artifact mime bs)) \<Rightarrow> if sublist ''image'' mime then bs else [] | _ \<Rightarrow> []),
      output_error = map_option (\<lambda>(kind, msg). kind @ '': '' @ msg) (outcome_error out)\<rparr>"

definition output_ok :: "'b kernel_output \<Rightarrow> bool" where
  "output_ok v = (output_error v = None)"

section \<open>What a client sees of an execution\<close>

definition is_result :: "exec_event \<Rightarrow> bool" where
  "is_result e = (case event_payload e of Some (Result_value _) \<Rightarrow> True | _ \<Rightarrow> False)"

definition error_of :: "exec_event \<Rightarrow> (string \<times> string) option" where
  "error_of e = (case event_payload e of Some (Error_event k m) \<Rightarrow> Some (k, m) | _ \<Rightarrow> None)"

definition result_of :: "exec_event \<Rightarrow> pb_value option option" where
  "result_of e = (case event_payload e of Some (Result_value v) \<Rightarrow> Some v | _ \<Rightarrow> None)"

text \<open>The last element of a list that has one.\<close>

fun last_some :: "('x \<Rightarrow> 'y option) \<Rightarrow> 'x list \<Rightarrow> 'y option" where
  "last_some f [] = None"
| "last_some f (x # xs) = (case last_some f xs of None \<Rightarrow> f x | Some y \<Rightarrow> Some y)"

lemma fold_note_event:
  "fold note_event evs out =
     out\<lparr>outcome_events := outcome_events out @ filter (\<lambda>e. \<not> is_result e) evs,
         outcome_value := (case last_some result_of evs of None \<Rightarrow> outcome_value out | v \<Rightarrow> v),
         outcome_error := (case last_some error_of evs of None \<Rightarrow> outcome_error out | e \<Rightarrow> e)\<rparr>"
proof (induction evs arbitrary: out)
  case (Cons e evs)
  then show ?case
    by (auto simp: note_event_def is_result_def result_of_def error_of_def
        split: option.splits exec_payload.splits)
qed simp

text \<open>C29: What a client receives of an execution the kernel answered: the output and error events in order,
  then the last result, then the last error once more, and exactly one \<open>Done\<close>, the last event. So a
  request that raised an error delivers it twice.\<close>

theorem execute_stream_exact:
  "map event_payload (execute_stream req (outcome_of evs)) =
     map event_payload (filter (\<lambda>e. \<not> is_result e \<and> \<not> is_done_event e) evs)
     @ map Some ((case last_some result_of evs of None \<Rightarrow> [] | Some v \<Rightarrow> [Result_value v])
        @ (case last_some error_of evs of None \<Rightarrow> [] | Some (k, m) \<Rightarrow> [Error_event k m]) @ [Done True])
   \<and> filter is_done_event (execute_stream req (outcome_of evs)) = [last (execute_stream req (outcome_of evs))]
   \<and> count_list (map event_payload (execute_stream req (outcome_of evs))) (Some (Error_event k m)) =
       count_list (map event_payload evs) (Some (Error_event k m)) + (if last_some error_of evs = Some (k, m) then 1 else 0)"
proof -
  have out: "outcome_of evs = outcome_default\<lparr>outcome_events := filter (\<lambda>e. \<not> is_result e) evs,
      outcome_value := last_some result_of evs, outcome_error := last_some error_of evs\<rparr>"
    by (auto simp: outcome_of_def fold_note_event outcome_default_def split: option.split)
  have stream: "map event_payload (execute_stream req (outcome_of evs)) =
     map event_payload (filter (\<lambda>e. \<not> is_result e \<and> \<not> is_done_event e) evs)
     @ map Some ((case last_some result_of evs of None \<Rightarrow> [] | Some v \<Rightarrow> [Result_value v])
        @ (case last_some error_of evs of None \<Rightarrow> [] | Some (k, m) \<Rightarrow> [Error_event k m]) @ [Done True])"
    by (auto simp: out execute_stream_def outcome_default_def filter_filter conj_commute split: option.split)
  have "count_list (map event_payload (filter (\<lambda>e. \<not> is_result e \<and> \<not> is_done_event e) evs)) (Some (Error_event k m)) =
      count_list (map event_payload evs) (Some (Error_event k m))"
    by (induction evs) (auto simp: is_result_def is_done_event_def)
  then have "count_list (map event_payload (execute_stream req (outcome_of evs))) (Some (Error_event k m)) =
       count_list (map event_payload evs) (Some (Error_event k m)) + (if last_some error_of evs = Some (k, m) then 1 else 0)"
    by (auto simp: stream split: option.split)
  moreover have "filter is_done_event (execute_stream req (outcome_of evs)) = [last (execute_stream req (outcome_of evs))]"
    by (auto simp: out execute_stream_def outcome_default_def is_done_event_def split: option.split)
  ultimately show ?thesis using stream by blast
qed

lemma touch_backend [simp]: "backend_state (registry_touch now sid r) = backend_state r"
  "r\<lparr>backend_state := backend_state r\<rparr> = r"
  by (simp_all add: registry_touch_def split: option.split)

lemma touch_same [simp]: "(registry_touch now sid r)\<lparr>backend_state := backend_state r\<rparr> = registry_touch now sid r"
  by (metis touch_backend)

section \<open>A session from start to close\<close>

text \<open>C11: The runner over processes of the reference kernel, without authentication: a start registers the
  session under the id the client asked for with a fresh kernel, a request to a session whose
  kernel is idle returns its own events and leaves the kernel idle, and a close removes the session
  and its kernel.\<close>

theorem runner_session:
  assumes P: "P = echo_kernel cfg over enc dec" and B: "B = ipc_backend kind command P spawn client arrivals iter"
    and spawn: "\<And>n. spawn n = Some echo_idle" and plain: "\<not> require_challenge params"
    and msgs: "\<forall>m \<in> {Hello PROTOCOL_VERSION client, Welcome PROTOCOL_VERSION ''echo'' (crate_version cfg), Start_session params,
        Session_handle (params_session_id params) [], Close_request sid, Ack True []}. carried P m"
    and req: "fits P over req" "in_time (arrivals req, req)" "request_session_id req = sid"
    and idle: "kernels (backend_state r) sid = Some (conn_new echo_idle)"
  shows "(\<exists>r'. serve_start None B now utc params ctx r = (Inr (params_session_id params, []), r')
      \<and> sessions r' = (sessions r)(params_session_id params \<mapsto> fresh_session now utc)
      \<and> kernels (backend_state r') = (kernels (backend_state r))(params_session_id params \<mapsto> conn_new echo_idle))
    \<and> serve_execute None B now req ctx r = (Inr (execute_stream req (outcome_of (answer req))), registry_touch now sid r)
    \<and> (\<exists>r'. serve_close None B now sid ctx r = (Inr (True, []), r')
      \<and> sessions r' = (sessions r)(sid := None) \<and> kernels (backend_state r') = (kernels (backend_state r))(sid := None))"
proof -
  have m: "carried P (Hello PROTOCOL_VERSION client)" "carried P (Welcome PROTOCOL_VERSION ''echo'' (crate_version cfg))"
    "carried P (Start_session params)" "carried P (Session_handle (params_session_id params) [])"
    "carried P (Close_request sid)" "carried P (Ack True [])"
    using msgs by simp_all
  note shake = echo_handshake [OF P m(1,2)] and start = echo_start [OF P m(3,4)] and close = echo_close [OF P m(5,6)]
  obtain x c where e: "conn_execute P (arrivals req) req (conn_new echo_idle) = (x, c)" by fastforce
  have "conn_requests P [(arrivals req, req)] (conn_new echo_idle) = ([Some (Inr (outcome_of (answer req)))], conn_new echo_idle)"
    using echo.own_answers [of "[(arrivals req, req)]" cfg over enc dec] req by (simp add: P conn_new_def del: conn_requests.simps)
  then have exec: "conn_execute P (arrivals req) req (conn_new echo_idle) = (Some (Inr (outcome_of (answer req))), conn_new echo_idle)"
    by (simp add: e)
  have touch: "sessions (registry_touch now sid r) = (case sessions r sid of None \<Rightarrow> sessions r | Some m \<Rightarrow> (sessions r)(sid \<mapsto> m\<lparr>last_active := now\<rparr>))"
    by (simp add: registry_touch_def split: option.split)
  have "\<exists>r'. serve_start None B now utc params ctx r = (Inr (params_session_id params, []), r')
      \<and> sessions r' = (sessions r)(params_session_id params \<mapsto> fresh_session now utc)
      \<and> kernels (backend_state r') = (kernels (backend_state r))(params_session_id params \<mapsto> conn_new echo_idle)"
    by (simp add: serve_start_def registry_start_def verify_or_skip_def B ipc_backend_def ipc_start_def spawn shake start
        returned_def plain)
  moreover have "ipc_execute P arrivals sid req (backend_state r) = (Inr (outcome_of (answer req)), backend_state r)"
    using idle by (simp add: ipc_execute_def exec returned_def fun_upd_idem)
  then have "serve_execute None B now req ctx r = (Inr (execute_stream req (outcome_of (answer req))), registry_touch now sid r)"
    by (simp add: serve_execute_def registry_execute_def verify_or_skip_def B ipc_backend_def req(3))
  moreover have "\<exists>r'. serve_close None B now sid ctx r = (Inr (True, []), r')
      \<and> sessions r' = (sessions r)(sid := None) \<and> kernels (backend_state r') = (kernels (backend_state r))(sid := None)"
    using idle by (simp add: serve_close_def registry_close_def verify_or_skip_def B ipc_backend_def ipc_close_def close touch Let_def
        split: option.split)
  ultimately show ?thesis by blast
qed

text \<open>Witness of C11: a session \<open>s\<close> next to a start under the same id, which replaces it.\<close>

definition demo_ipc :: "echo_state process_map kernel_backend" where
  "demo_ipc = ipc_backend ''ipc'' ''echo'' demo_echo (\<lambda>_. Some echo_idle) ''c'' (\<lambda>_. 2) sorted_list_of_set"

definition demo_live :: "(unit, echo_state process_map) registry" where
  "demo_live = \<lparr>sessions = [''s'' \<mapsto> fresh_session 1 1], auth_state = (), backend_state = \<lparr>kernels = [''s'' \<mapsto> conn_new echo_idle], launches = 1\<rparr>\<rparr>"

theorem runner_session_witness:
  "(\<exists>r'. serve_start None demo_ipc 5 5 plain_params None demo_live = (Inr (params_session_id plain_params, []), r')
      \<and> sessions r' = (sessions demo_live)(params_session_id plain_params \<mapsto> fresh_session 5 5)
      \<and> kernels (backend_state r') = (kernels (backend_state demo_live))(params_session_id plain_params \<mapsto> conn_new echo_idle))
    \<and> serve_execute None demo_ipc 5 raise_err None demo_live =
        (Inr (execute_stream raise_err (outcome_of (answer raise_err))), registry_touch 5 ''s'' demo_live)
    \<and> (\<exists>r'. serve_close None demo_ipc 5 ''s'' None demo_live = (Inr (True, []), r')
      \<and> sessions r' = (sessions demo_live)(''s'' := None) \<and> kernels (backend_state r') = (kernels (backend_state demo_live))(''s'' := None))"
proof (rule runner_session [OF demo_echo_def demo_ipc_def])
  show "\<forall>m \<in> {Hello PROTOCOL_VERSION ''c'', Welcome PROTOCOL_VERSION ''echo'' (crate_version demo_config), Start_session plain_params,
        Session_handle (params_session_id plain_params) [], Close_request ''s'', Ack True []}. carried demo_echo m"
    by (auto intro!: demo_carries) (auto simp: demo_messages_def plain_params_def demo_config_def)
qed (simp_all add: plain_params_def demo_fits in_time_def raise_err_def demo_request_def demo_live_def, simp_all add: demo_fits flip: raise_err_def [unfolded demo_request_def])

end
