(* ===== verification/Runner_Safety.thy ===== *)
theory Runner_Safety
  imports Runner_Backend
begin

text \<open>
  What the session registry guarantees under any interleaving, what one round of the sweeper does,
  and what the signatures of requests do not protect.
\<close>

section \<open>Roles\<close>

text \<open>C10: However requests, verifications and the sweeper interleave, a session has a role only after one of the
  challenges issued for this very session was answered with its plaintext, the role is one that was
  requested for this session, and no challenge is ever answered twice.\<close>

theorem role_needs_answer:
  assumes "race_reach auth a0 b0 s" and "\<And>A. auth = Some A \<Longrightarrow> challenge_checker (verify_challenge A)"
    and "sessions (reg s) sid = Some m" and "role m = Some q"
  shows "(\<exists>pt w. (sid, pt, pt) \<in> set (answered s) \<and> (sid, pt, w) \<in> set (attached s))
    \<and> (\<exists>pt. (sid, pt, Some q) \<in> set (attached s)) \<and> distinct (map challenge_of (answered s))"
proof -
  have ok: "races_ok s" by (rule race_reach_ok [OF assms(1,2)])
  have m: "(\<exists>pt. (sid, pt, pt) \<in> set (answered s)) \<and> (\<exists>pt. (sid, pt, Some q) \<in> set (attached s))"
    using races_okD [OF ok assms(3)] assms(4) unfolding meta_ok_def by blast
  then obtain pt where "(sid, pt, pt) \<in> set (answered s)" by blast
  moreover from this obtain w where "(sid, pt, w) \<in> set (attached s)" using races_ok_attached [OF ok] by blast
  moreover have "distinct (map challenge_of (answered s))" using ok by (simp add: races_ok_def)
  ultimately show ?thesis using m by blast
qed

text \<open>A crypto library and a run for the witness: a session is inserted, a challenge attached and answered.\<close>

definition demo_crypto :: "unit crypto" where
  "demo_crypto = \<lparr>b64_decode = (\<lambda>_. None), b64_encode = (\<lambda>_. []), key_of_bytes = (\<lambda>_. None), sig_verifies = (\<lambda>_ _ _. False),
     public_of_private = (\<lambda>b. b), encrypt = (\<lambda>_ _. None)\<rparr>"

definition demo_auth :: "local_auth auth_ops option" where
  "demo_auth = Some (local_ops demo_crypto 0 [])"

definition demo_meta :: session_meta where
  "demo_meta = (fresh_session 1 1)\<lparr>last_active := 3, role := Some ''admin'', requested_role := None, pending_challenge := None\<rparr>"

definition demo_end :: "(local_auth, unit) races" where
  "demo_end = \<lparr>reg = \<lparr>sessions = [''s'' \<mapsto> demo_meta], auth_state = local_auth_new, backend_state = ()\<rparr>, pending_checks = [],
     attached = [(''s'', [7], Some ''admin'')], answered = [(''s'', [7], [7])]\<rparr>"

lemma demo_reached: "race_reach demo_auth local_auth_new () demo_end"
proof -
  let ?r0 = "registry_new local_auth_new () :: (local_auth, unit) registry"
  let ?s0 = "races_new local_auth_new () :: (local_auth, unit) races"
  let ?s1 = "?s0\<lparr>reg := (reg ?s0)\<lparr>sessions := (sessions (reg ?s0))(''s'' \<mapsto> fresh_session 1 1)\<rparr>\<rparr>"
  let ?s2 = "?s1\<lparr>reg := attach_challenge 2 ''s'' [7] (Some ''admin'') (reg ?s1), attached := (''s'', [7], Some ''admin'') # attached ?s1\<rparr>"
  let ?r3 = "snd (verify_begin 3 ''s'' (reg ?s2))"
  let ?s3 = "?s2\<lparr>reg := ?r3, pending_checks := (''s'', [7], [7]) # pending_checks ?s2\<rparr>"
  have s1: "race_reach demo_auth local_auth_new () ?s1"
    by (rule reach_step [OF reach_init race_step.step_insert])
  have s2: "race_reach demo_auth local_auth_new () ?s2"
    by (rule reach_step [OF s1 race_step.step_attach]) (simp add: races_new_def)
  have b: "verify_begin 3 ''s'' (reg ?s2) = (Inr [7], ?r3)"
    by (simp add: races_new_def registry_new_def attach_challenge_def verify_begin_def)
  have s3: "race_reach demo_auth local_auth_new () ?s3"
    by (rule reach_step [OF s2 race_step.step_begin [OF b]])
  have pc: "pending_checks ?s3 = [] @ (''s'', [7], [7]) # []" by (simp add: races_new_def)
  have e: "verify_end demo_auth ''s'' [7] [7] (reg ?s3) = (Inr (Some ''admin''), reg demo_end)"
    by (simp add: races_new_def registry_new_def attach_challenge_def verify_begin_def verify_end_def demo_auth_def
        local_ops_def same_plaintext_def promote_role_def fresh_session_def demo_end_def demo_meta_def)
  have "race_step demo_auth ?s3 (?s3\<lparr>reg := reg demo_end, pending_checks := [] @ [], answered := (''s'', [7], [7]) # answered ?s3\<rparr>)"
    by (rule race_step.step_accepted [OF pc e demo_auth_def, of "auth_state (reg ?s3)"]) (simp add: local_ops_def same_plaintext_def)
  moreover have "?s3\<lparr>reg := reg demo_end, pending_checks := [] @ [], answered := (''s'', [7], [7]) # answered ?s3\<rparr> = demo_end"
    by (simp add: races_new_def demo_end_def)
  ultimately show ?thesis using reach_step [OF s3] by simp
qed

text \<open>Witness of C10: the run above.\<close>

theorem role_needs_answer_witness:
  "(\<exists>pt w. (''s'', pt, pt) \<in> set (answered demo_end) \<and> (''s'', pt, w) \<in> set (attached demo_end))
    \<and> (\<exists>pt. (''s'', pt, Some ''admin'') \<in> set (attached demo_end)) \<and> distinct (map challenge_of (answered demo_end))"
proof (rule role_needs_answer [OF demo_reached])
  show "challenge_checker (verify_challenge A)" if "demo_auth = Some A" for A
    using that local_checker.challenge_checker_axioms [of demo_crypto 0 "[]"] by (simp add: demo_auth_def)
  show "sessions (reg demo_end) ''s'' = Some demo_meta" "role demo_meta = Some ''admin''"
    by (simp_all add: demo_end_def demo_meta_def)
qed

section \<open>The sweeper\<close>

lemma sweep_fold:
  "sessions (fold (sweep_one B) ids r) sid = (if sid \<in> set ids then None else sessions r sid)"
  "backend_state (fold (sweep_one B) ids r) = fold (\<lambda>sid b. snd (bk_close B sid b)) ids (backend_state r)"
  by (induction ids arbitrary: r) (auto simp: sweep_one_def)

text \<open>C32: One round of the sweeper removes exactly the sessions idle for longer than the limit, whether or not
  closing their kernels succeeds, keeps every other session as it is, and closes the kernels of
  the removed ones and no others, each once.\<close>

theorem sweep_exact:
  assumes "set (iter (expired now idle r)) = expired now idle r" and "distinct (iter (expired now idle r))"
  shows "sessions (sweep B iter now idle r) sid =
      (case sessions r sid of None \<Rightarrow> None | Some m \<Rightarrow> if now - last_active m > idle then None else Some m)
    \<and> (\<exists>closed. distinct closed \<and> set closed = {sid. sessions r sid \<noteq> None \<and> sessions (sweep B iter now idle r) sid = None}
        \<and> backend_state (sweep B iter now idle r) = fold (\<lambda>sid b. snd (bk_close B sid b)) closed (backend_state r))"
proof -
  have s: "sessions (sweep B iter now idle r) sid = (if sid \<in> expired now idle r then None else sessions r sid)" for sid
    by (simp add: sweep_def sweep_fold assms(1))
  have "{sid. sessions r sid \<noteq> None \<and> sessions (sweep B iter now idle r) sid = None} = expired now idle r"
    unfolding s by (auto simp: expired_def split: option.splits if_splits)
  then have "\<exists>closed. distinct closed \<and> set closed = {sid. sessions r sid \<noteq> None \<and> sessions (sweep B iter now idle r) sid = None}
        \<and> backend_state (sweep B iter now idle r) = fold (\<lambda>sid b. snd (bk_close B sid b)) closed (backend_state r)"
    using assms by (intro exI [of _ "iter (expired now idle r)"]) (simp add: sweep_def sweep_fold)
  moreover have "sessions (sweep B iter now idle r) sid =
      (case sessions r sid of None \<Rightarrow> None | Some m \<Rightarrow> if now - last_active m > idle then None else Some m)"
    unfolding s by (auto simp: expired_def split: option.split)
  ultimately show ?thesis by blast
qed

text \<open>Witness of C32: two sessions, one of them idle for too long; the backend counts what it closes.\<close>

definition demo_backend :: "string list kernel_backend" where
  "demo_backend = \<lparr>bk_kind = ''demo'', bk_health = (\<lambda>_. Inr echo_health), bk_start = (\<lambda>_ b. (Inr ''s'', b)), bk_execute = (\<lambda>_ req b. (Inr (echo_execute req), b)),
     bk_interrupt = (\<lambda>_ _ b. (Inr (), b)), bk_close = (\<lambda>sid b. (Inl (Kernel Broken_pipe), sid # b)), bk_shutdown = (\<lambda>b. (Inr (), b))\<rparr>"

definition demo_registry :: "(unit, string list) registry" where
  "demo_registry = \<lparr>sessions = [''a'' \<mapsto> fresh_session 1 1, ''b'' \<mapsto> fresh_session 50 50], auth_state = (), backend_state = []\<rparr>"

lemma demo_expired: "expired 60 30 demo_registry = {''a''}"
  by (auto simp: expired_def demo_registry_def fresh_session_def split: if_splits)

theorem sweep_exact_witness:
  "sessions (sweep demo_backend sorted_list_of_set 60 30 demo_registry) ''b'' =
      (case sessions demo_registry ''b'' of None \<Rightarrow> None | Some m \<Rightarrow> if 60 - last_active m > 30 then None else Some m)
    \<and> (\<exists>closed. distinct closed \<and> set closed = {sid. sessions demo_registry sid \<noteq> None
          \<and> sessions (sweep demo_backend sorted_list_of_set 60 30 demo_registry) sid = None}
        \<and> backend_state (sweep demo_backend sorted_list_of_set 60 30 demo_registry)
          = fold (\<lambda>sid b. snd (bk_close demo_backend sid b)) closed (backend_state demo_registry))"
  by (rule sweep_exact) (simp_all add: demo_expired)

section \<open>What a signature does not bind\<close>

text \<open>C40: A signature authorises more than its request: once a context is accepted for some execution, the
  registry runs with it any code on any session, whoever started that session, and any number of
  times, until the timestamp leaves the window. The signed text names neither the session acted
  on nor the code, and nonces are not remembered.\<close>

theorem signature_unbound:
  assumes "fst (registry_execute (Some (local_ops C now random)) B t (ctx_session_id ctx) req (Some ctx) r) = Inr out"
    and "within_window now' (ctx_timestamp ctx)"
  shows "fst (registry_execute (Some (local_ops C now' random')) B t' sid' req' (Some ctx) r') = fst (bk_execute B sid' req' (backend_state r'))"
proof -
  let ?v = "\<lambda>now. local_verify_signature C now (ctx_session_id ctx) ''Execute'' (ctx_timestamp ctx) (ctx_nonce ctx) (ctx_signature ctx)"
  have ok: "?v now = Inr True"
    using assms(1)
    by (auto simp: registry_execute_def verify_or_skip_def local_ops_def split: sum.splits if_splits)
  then have "?v now' = Inr True"
    using assms(2) by (auto simp: local_verify_signature_def verify_with_public_key_def split: option.splits if_splits)
  then show ?thesis
    by (simp add: registry_execute_def verify_or_skip_def local_ops_def case_prod_unfold Let_def)
qed

text \<open>Witness of C40: a library that accepts a signature, a context of one session used on another.\<close>

definition open_crypto :: "unit crypto" where
  "open_crypto = \<lparr>b64_decode = (\<lambda>_. Some (replicate 32 1)), b64_encode = (\<lambda>_. []), key_of_bytes = (\<lambda>_. Some ()),
     sig_verifies = (\<lambda>_ _ _. True), public_of_private = (\<lambda>b. b), encrypt = (\<lambda>_ _. None)\<rparr>"

definition demo_context :: auth_context where
  "demo_context = \<lparr>ctx_session_id = ''mine'', ctx_timestamp = 100, ctx_nonce = 5, ctx_signature = replicate 64 0\<rparr>"

lemma open_verifies:
  "within_window now 100 \<Longrightarrow> local_verify_signature open_crypto now sid meth 100 5 (replicate 64 0) = Inr True"
  by (simp add: local_verify_signature_def verify_with_public_key_def open_crypto_def SIGNATURE_LENGTH_def)

lemma near_100: "within_window 100 100" "within_window 110 100"
  by (simp_all add: within_window_def i64_abs_def TIMESTAMP_WINDOW_SECS_def)

theorem signature_unbound_witness:
  "fst (registry_execute (Some (local_ops open_crypto 110 [])) echo_backend 2 ''yours'' raise_err (Some demo_context)
      (registry_new local_auth_new ())) = fst (bk_execute echo_backend ''yours'' raise_err (backend_state (registry_new local_auth_new ())))"
proof (rule signature_unbound)
  show "fst (registry_execute (Some (local_ops open_crypto 100 [])) echo_backend 1 (ctx_session_id demo_context) echo_x (Some demo_context)
      (registry_new local_auth_new ())) = Inr (echo_execute echo_x)"
    using open_verifies [OF near_100(1)]
    by (simp add: registry_execute_def verify_or_skip_def local_ops_def demo_context_def echo_backend_def registry_touch_def registry_new_def)
  show "within_window 110 (ctx_timestamp demo_context)" using near_100(2) by (simp add: demo_context_def)
qed

text \<open>C0: A start that asks for a challenge leaves its session behind when the challenge cannot be made: against
  the server, where challenges are not wired, every such start fails after the kernel was started
  and the session registered.\<close>

theorem start_leaves_session:
  assumes "registry_start (Some (remote_ops shared hash env C post now)) B t utc params ctx r = (Inr sid, r')"
    and "require_challenge params"
  shows "fst (serve_start (Some (remote_ops shared hash env C post now)) B t utc params ctx r) = Inl Not_wired
    \<and> sessions (snd (serve_start (Some (remote_ops shared hash env C post now)) B t utc params ctx r)) sid = Some (fresh_session t utc)"
proof -
  have "sessions r' sid = Some (fresh_session t utc)"
    using assms(1) by (auto simp: registry_start_def split: prod.splits sum.splits)
  then show ?thesis
    using assms by (simp add: serve_start_def remote_ops_def remote_create_challenge_def)
qed

text \<open>Witness of C0: the server vouches for the key of the request.\<close>

definition demo_remote :: "(string, bytes) lru auth_ops" where
  "demo_remote = remote_ops True (\<lambda>_. 0) \<lparr>wall_ms = 0, has_runtime = False, contended = False\<rparr> open_crypto
     (\<lambda>_. Some \<lparr>resp_active = True, resp_private_key = Some ''k''\<rparr>) 100"

definition demo_cached :: "((string, bytes) lru, unit) registry" where
  "demo_cached = registry_new (the (remote_cache True 1)) ()"

lemma one_shard: "is_power_of_two (Suc 0)"
proof -
  have "(2 :: nat) ^ 0 \<in> (^) 2 ` {0..<64}" by (rule imageI) simp
  then show ?thesis by (simp add: is_power_of_two_def)
qed

lemma demo_remote_starts:
  "fst (registry_start demo_remote' echo_backend 1 1 demo_params (Some demo_context) demo_cached) = Inr ''s''"
  if "demo_remote' = Some demo_remote"
  using that near_100(1)
  by (simp add: registry_start_def verify_or_skip_def demo_remote_def remote_ops_def remote_verify_signature_def lookup_public_key_def
      lru_get_def demo_cached_def registry_new_def remote_cache_def lru_new_def one_shard open_crypto_def decode_private_key_def
      verify_with_public_key_def demo_context_def SIGNATURE_LENGTH_def echo_backend_def demo_params_def Let_def)

theorem start_leaves_session_witness:
  "fst (serve_start (Some demo_remote) echo_backend 1 1 demo_params (Some demo_context) demo_cached) = Inl Not_wired
    \<and> sessions (snd (serve_start (Some demo_remote) echo_backend 1 1 demo_params (Some demo_context) demo_cached)) ''s'' = Some (fresh_session 1 1)"
  unfolding demo_remote_def
proof (rule start_leaves_session)
  show "registry_start (Some (remote_ops True (\<lambda>_. 0) \<lparr>wall_ms = 0, has_runtime = False, contended = False\<rparr> open_crypto
     (\<lambda>_. Some \<lparr>resp_active = True, resp_private_key = Some ''k''\<rparr>) 100)) echo_backend 1 1 demo_params (Some demo_context) demo_cached =
    (Inr ''s'', snd (registry_start (Some demo_remote) echo_backend 1 1 demo_params (Some demo_context) demo_cached))"
    using demo_remote_starts [OF refl] by (simp add: prod_eq_iff demo_remote_def)
qed (simp add: demo_params_def)

end
