(* ===== verification/Spec2Isabelle.thy ===== *)
theory Spec2Isabelle
  imports Aho_Corasick Frame_Codec Snowflake Gossip_Mesh Raft Search_Correct Lru_Blocks Engine_Reload Runner_Safety
begin

text \<open>
  A verification library for the core of opsense, an engine that collects, transforms and
  analyses telemetry. Paths below are relative to \<open>src/crates\<close>.

  \<^bold>\<open>The program.\<close> A pipeline of components (sources, transforms, sinks) runs under the
  \<^emph>\<open>runtime\<close> of \<open>opsense-mlib/src/vector/runtime/engine.rs\<close>, which builds, checks and replaces
  the graph of nodes while it runs. Components keep their data in stations, which rest on the
  building blocks of \<open>opsense-mlib\<close>: a node \<^emph>\<open>storage\<close> (\<open>storage.rs\<close>, \<open>storage/in_memory.rs\<close>), a
  \<^emph>\<open>radix trie\<close> over it (\<open>radix.rs\<close>) whose nodes may carry \<^emph>\<open>Bloom filters\<close> (\<open>bloom.rs\<close>), a sharded
  \<^emph>\<open>LRU cache\<close> with a read-through to the time series of the storage (\<open>lru.rs\<close>), a
  \<^emph>\<open>substring index\<close> over the trie (\<open>search.rs\<close>), a multi-pattern \<^emph>\<open>matcher\<close> (\<open>ahocorasick.rs\<close>) and unique \<^emph>\<open>ids\<close> (\<open>snowflake_id.rs\<close>). Several nodes form a
  cluster: \<^emph>\<open>gossip\<close> (\<open>gossip.rs\<close>) spreads what each knows and suspects, the \<^emph>\<open>decision layer\<close>
  (\<open>raft.rs\<close>) fixes who belongs to which cluster and who is its master. Kernels in other
  processes are reached through \<^emph>\<open>frames\<close> (\<open>opsense-proto/src/frame.rs\<close>) by a \<^emph>\<open>host\<close>
  (\<open>opsense-proto/src/host.rs\<close>), the other end of which is a kernel such as \<open>opsense-kernel-echo\<close>. The
  \<^emph>\<open>runner\<close> (\<open>opsense-runner\<close>) serves such kernels to remote clients: it checks their signatures
  (\<open>auth.rs\<close>), keeps a registry of sessions (\<open>session.rs\<close>) behind the handlers of its service
  (\<open>server.rs\<close>) and drives one process per session (\<open>backend\<close>).

  \<^bold>\<open>The theories.\<close>
  \<^item> \<open>Prelude\<close>: machine integers, byte encodings, ordered maps (\<open>BTreeMap\<close> as sorted lists of
    pairs, with the laws of a map as a locale); \<open>Codec\<close>: the locale of encoders and decoders.
  \<^item> \<open>Frame_Codec\<close>: \<open>FrameTag\<close>, \<open>Frame\<close>, \<open>FrameCodec::encode\<close> and \<open>decode\<close> on byte buffers. Streams of
    frames decode back to the frames; what decodes is an encoding; the missing cap of the encoder.
  \<^item> \<open>Snowflake\<close>: \<open>generate\<close> as a loop over its atomic state, and as a step relation that
    interleaves the atomic actions of any number of threads. Ids are distinct, their bit fields
    are as documented, the loop returns when the clock advances.
  \<^item> \<open>Bloom\<close>: the filter with its hash, population count and serialization on words.
  \<^item> \<open>Gossip\<close>: last-writer-wins merging of information states, and the failure detector with its
    transition table; a peer that answers in time is never suspected. \<open>Gossip_Mesh\<close>: runs of many nodes
    that exchange their states. In every run without restarts (and without a saturated clock) a
    version stands for one info, so merging converges; after a restart it does not.
  \<^item> \<open>Raft\<close>: clusters and the commands on them; the consensus engine is a parameter. The
    configuration is the replay of the acknowledged commands.
  \<^item> \<open>Storage\<close>: the in-memory backend: nodes, children, transactions, metadata, shortcuts, chains,
    time series and pattern registry, with the laws of nodes and children as a locale.
  \<^item> \<open>Radix\<close>: every operation of the trie on a storage; \<open>Radix_Tree\<close> represents a stored tree by a
    datatype and shows what an insertion does to it; \<open>Radix_Search\<close> has the dictionary, the prefix
    search and the resumable substring search.
  \<^item> \<open>Kmp\<close>: the matcher of \<open>search.rs\<close>, its table of borders and what it finds in one node; \<open>Radix_Dfs\<close>:
    the substring search of the trie, for any matcher with the contract of the locale
    \<open>text_matcher\<close>; \<open>Search\<close>: the operations of the substring index; \<open>Search_Index\<close> and
    \<open>Search_Insert\<close>: what an insertion does to the shortcuts, and the invariant; \<open>Search_Correct\<close>: what
    the search returns. It finds a record whenever some chain contains the pattern, though not all
    of them: \<open>search_dfs\<close> stops at its first hit below a candidate.
  \<^item> \<open>Lru\<close>: both variants of the cache, as whole calls on the arena, the shards and the map;
    \<open>Lru_Refine\<close>: the invariant of the arena and a simulation of each operation by lists in order
    of use; \<open>Lru_History\<close>: histories of calls and the read-through, for the variant with the shared
    arena (feature \<open>lru-shared-memory\<close>, the default of \<open>opsense-core\<close>); \<open>Lru_Blocks\<close>: the variant with
    fixed blocks, what both keep, and how the second loses live entries.
  \<^item> \<open>Aho_Corasick\<close>: registry, trie, failure links and search. The words of the trie are the ghost
    state of its locale; breadth-first construction gives every state its longest border.
  \<^item> \<open>Find_Cycle\<close>: the depth-first search of \<open>find_cycle\<close>; \<open>Engine\<close>: the runtime, its graph,
    validations, faults and channels; \<open>Engine_Reload\<close>: what a reload does.
  \<^item> \<open>Kernel_Host\<close>: the messages of the protocol, a connection (the items still to be read, the process
    at the other end, whether it has exited) and every request of the host on it; \<open>Kernel_Echo\<close>: the
    reference kernel as a machine between two events; \<open>Kernel_Correct\<close>: the two together. The locale
    \<open>request_kernel\<close> is what a kernel promises about requests, the reference kernel its
    interpretation. Requests in time get their own answers; a deadline, an interrupt of an idle
    kernel or a malformed sleep ruins the session.
  \<^item> \<open>Runner_Auth\<close>: the signed message, its window, the headers, both authentications (the remote one
    over the cache of \<open>Lru\<close>); \<open>Runner_Session\<close>: the registry, its operations and the handlers, and
    their interleaving as steps of critical sections, with what an authentication promises as the
    locale \<open>challenge_checker\<close>; \<open>Runner_Backend\<close>: the backends, what a client sees of an execution, a
    session from start to close; \<open>Runner_Safety\<close>: roles under interleaving, the sweeper, and what
    signatures do not protect.

  \<^bold>\<open>State and effects.\<close> Structures are records, enums are datatypes, one definition stands for
  one function of the source (loops are functions of their own). Integers that wrap or are taken
  apart are words of their width; indices into vectors are natural numbers. Errors are values of
  sums or options, panics included. Locks are taken around whole calls, except where the source
  may fail to take one (\<open>try_lock\<close> is an argument), in \<open>Snowflake\<close>, whose threads interleave, and in
  \<open>Runner_Session\<close>, whose requests and sweeper interleave between their critical sections. Code
  outside the repository, callbacks, hash functions, clocks and answers of other processes are
  arguments.

  \<^bold>\<open>Bounds.\<close> Loops whose end depends on the data have fuel or are partial functions, and the
  theorems state that they return: as many rounds as the store has nodes for the walks of
  the trie, the number of nodes for the cycle search, some bound for the substring search (the theorem
  says that the answer does not change beyond it), and for the two matchers no bound at all, since
  their loops are partial functions shown to return. The order in which a hash set is
  visited is an argument of the substring search.

  \<^bold>\<open>Not modelled.\<close> The bodies of components and of the gateway (HTTP, SQL, GraphQL, command
  line) are input and output. The numerical models and the trading kernel compute with
  floating point, for which the real numbers of HOL would be a different program. The Parquet,
  SQLite and Redis backends consist of calls of their libraries. The node task of the
  runtime is an endless loop around a component's own code. \<open>estimated_fpr\<close> of the Bloom filter is
  floating point and changes no state. Of the kernel protocol the protobuf encoding (generated
  code) and the processes are arguments, and the time a deadline leaves is the number of frames that
  arrive before it; a call that waits forever has the result \<open>None\<close>. Signatures, encryption, base64
  and random bytes of the runner are arguments too, its gRPC transport and the kernels for Python
  and Julia (launchers of other interpreters) are left out.
\<close>

end
